(* ===== verification/Xv6_Prelude.thy ===== *)
theory Xv6_Prelude
  imports Main "HOL-Library.Word"
begin

unbundle bit_operations_syntax

text \<open>
  Shared vocabulary of the development.

  \<^item> The result type \<open>res\<close> of a kernel function run by one kernel thread: it returns
    (\<open>Ok\<close>), it calls \<^verbatim>\<open>panic\<close> (\<open>Panic\<close> with the message of the source), or it cannot
    proceed without another thread (\<open>Blocks\<close>: it spins in \<^verbatim>\<open>acquire\<close> on a lock another CPU
    holds, or it has called \<^verbatim>\<open>sleep\<close>). \<open>bindr\<close> sequences calls, \<open>succeeds\<close> is the
    total-correctness predicate used by the specifications.
  \<^item> The constants of \<^verbatim>\<open>param.h\<close>, \<^verbatim>\<open>fs.h\<close>, \<^verbatim>\<open>buf.h\<close>, \<^verbatim>\<open>stat.h\<close>, \<^verbatim>\<open>mmu.h\<close> and \<^verbatim>\<open>memlayout.h\<close>.
  \<^item> Names of kernel objects: \<open>chan\<close> for the addresses used as sleep channels, \<open>lockid\<close> for
    the spinlocks.
  \<^item> Generic lemmas on lists, options and words that several components use.
\<close>

section \<open>Machine integers\<close>

type_synonym u8 = "8 word"
type_synonym u16 = "16 word"
type_synonym u32 = "32 word"
type_synonym addr = "32 word"

section \<open>Results of kernel functions\<close>

datatype 'a res = Ok 'a | Panic string | Blocks

fun bindr :: "'a res \<Rightarrow> ('a \<Rightarrow> 'b res) \<Rightarrow> 'b res" where
  "bindr (Ok x) f = f x"
| "bindr (Panic m) f = Panic m"
| "bindr Blocks f = Blocks"

fun succeeds :: "'a res \<Rightarrow> ('a \<Rightarrow> bool) \<Rightarrow> bool" where
  "succeeds (Ok x) Q = Q x"
| "succeeds (Panic m) Q = False"
| "succeeds Blocks Q = False"

named_theorems res_simps "evaluation and inversion of sequenced calls"

lemma bindr_assoc: "bindr (bindr m f) g = bindr m (\<lambda>x. bindr (f x) g)"
  by (cases m) simp_all

lemma bindr_Ok_right [simp]: "bindr m Ok = m"
  by (cases m) simp_all

lemma bindr_eq_Ok [res_simps]: "bindr m f = Ok y \<longleftrightarrow> (\<exists>x. m = Ok x \<and> f x = Ok y)"
  by (cases m) simp_all

lemma bindr_eq_Panic [res_simps]:
  "bindr m f = Panic e \<longleftrightarrow> m = Panic e \<or> (\<exists>x. m = Ok x \<and> f x = Panic e)"
  by (cases m) simp_all

lemma bindr_cong [fundef_cong]:
  "m = m' \<Longrightarrow> (\<And>x. m' = Ok x \<Longrightarrow> f x = f' x) \<Longrightarrow> bindr m f = bindr m' f'"
  by (cases m') simp_all

lemma succeeds_bindr [simp]:
  "succeeds (bindr m f) Q \<longleftrightarrow> succeeds m (\<lambda>x. succeeds (f x) Q)"
  by (cases m) simp_all

lemma succeeds_iff: "succeeds m Q \<longleftrightarrow> (\<exists>x. m = Ok x \<and> Q x)"
  by (cases m) simp_all

lemma succeeds_mono: "succeeds m P \<Longrightarrow> (\<And>x. P x \<Longrightarrow> Q x) \<Longrightarrow> succeeds m Q"
  by (cases m) simp_all

lemma succeeds_if [simp]:
  "succeeds (if c then m else m') Q \<longleftrightarrow> (if c then succeeds m Q else succeeds m' Q)"
  by simp

text \<open>
  \<open>outcome E m Q\<close>: the call returns with a result satisfying \<open>Q\<close>, or panics with one of the
  messages \<open>E\<close>; it does nothing else.
\<close>

fun outcome :: "string set \<Rightarrow> 'a res \<Rightarrow> ('a \<Rightarrow> bool) \<Rightarrow> bool" where
  "outcome E (Ok x) Q = Q x"
| "outcome E (Panic m) Q = (m \<in> E)"
| "outcome E Blocks Q = False"

lemma outcome_bindr [simp]:
  "outcome E (bindr m f) Q \<longleftrightarrow> outcome E m (\<lambda>x. outcome E (f x) Q)"
  by (cases m) simp_all

lemma outcome_if [simp]:
  "outcome E (if c then m else m') Q \<longleftrightarrow> (if c then outcome E m Q else outcome E m' Q)"
  by simp

lemma outcome_mono: "outcome E m P \<Longrightarrow> E \<subseteq> F \<Longrightarrow> (\<And>x. P x \<Longrightarrow> Q x) \<Longrightarrow> outcome F m Q"
  by (cases m) auto

lemma outcome_post: "outcome E m P \<Longrightarrow> (\<And>x. P x \<Longrightarrow> Q x) \<Longrightarrow> outcome E m Q"
  by (cases m) auto

lemma outcome_empty [simp]: "outcome {} m Q = succeeds m Q"
  by (cases m) simp_all

lemma outcome_succeeds: "succeeds m Q \<Longrightarrow> outcome E m Q"
  by (cases m) simp_all

lemma outcomeE:
  assumes "outcome E m Q"
  obtains x where "m = Ok x" "Q x" | e where "m = Panic e" "e \<in> E"
  using assms by (cases m) auto

section \<open>Kernel parameters\<close>

text \<open>\<^verbatim>\<open>param.h\<close>\<close>

definition NPROC :: nat where "NPROC = 64"
definition KSTACKSIZE :: u32 where "KSTACKSIZE = 4096"
definition NOFILE :: nat where "NOFILE = 16"
definition NFILE :: nat where "NFILE = 100"
definition NINODE :: nat where "NINODE = 50"
definition NDEV :: nat where "NDEV = 10"
definition ROOTDEV :: u32 where "ROOTDEV = 1"
definition MAXARG :: nat where "MAXARG = 32"
definition MAXOPBLOCKS :: nat where "MAXOPBLOCKS = 10"
definition LOGSIZE :: nat where "LOGSIZE = MAXOPBLOCKS * 3"
definition NBUF :: nat where "NBUF = MAXOPBLOCKS * 3"
definition FSSIZE :: nat where "FSSIZE = 1000"

text \<open>\<^verbatim>\<open>fs.h\<close>\<close>

definition ROOTINO :: u32 where "ROOTINO = 1"
definition BSIZE :: nat where "BSIZE = 512"
definition NDIRECT :: nat where "NDIRECT = 12"
definition NINDIRECT :: nat where "NINDIRECT = BSIZE div 4"
definition MAXFILE :: nat where "MAXFILE = NDIRECT + NINDIRECT"
definition BPB :: nat where "BPB = BSIZE * 8"
definition DIRSIZ :: nat where "DIRSIZ = 14"

text \<open>\<^verbatim>\<open>fcntl.h\<close>\<close>

definition O_RDONLY :: int where "O_RDONLY = 0"
definition O_WRONLY :: int where "O_WRONLY = 1"
definition O_RDWR :: int where "O_RDWR = 2"
definition O_CREATE :: int where "O_CREATE = 0x200"

text \<open>\<^verbatim>\<open>mmu.h\<close> and \<^verbatim>\<open>memlayout.h\<close>\<close>

definition PGSIZE :: u32 where "PGSIZE = 4096"
definition KERNBASE :: u32 where "KERNBASE = 0x80000000"
definition EXTMEM :: u32 where "EXTMEM = 0x100000"
definition PHYSTOP :: u32 where "PHYSTOP = 0xE000000"
definition DEVSPACE :: u32 where "DEVSPACE = 0xFE000000"
definition KERNLINK :: u32 where "KERNLINK = KERNBASE + EXTMEM"

lemmas param_defs =
  NPROC_def KSTACKSIZE_def NOFILE_def NFILE_def NINODE_def NDEV_def ROOTDEV_def MAXARG_def
  MAXOPBLOCKS_def LOGSIZE_def NBUF_def FSSIZE_def

lemmas fs_param_defs =
  ROOTINO_def BSIZE_def NDIRECT_def NINDIRECT_def MAXFILE_def BPB_def DIRSIZ_def

definition PGROUNDUP :: "u32 \<Rightarrow> u32" where
  "PGROUNDUP sz = (sz + PGSIZE - 1) AND NOT (PGSIZE - 1)"

definition PGROUNDDOWN :: "u32 \<Rightarrow> u32" where
  "PGROUNDDOWN a = a AND NOT (PGSIZE - 1)"

definition V2P :: "addr \<Rightarrow> u32" where "V2P a = a - KERNBASE"

definition P2V :: "u32 \<Rightarrow> addr" where "P2V a = a + KERNBASE"

section \<open>Kernel objects\<close>

text \<open>
  Sleep channels are addresses of kernel objects. Distinct objects have distinct addresses, so
  a channel is the name of the object: a process-table slot, a buffer, the sleep lock inside a
  buffer or an inode, the log, the tick counter, the two counters of a pipe, the console input.
\<close>

datatype chan =
    ChProc nat
  | ChBuf nat
  | ChBufLock nat
  | ChInodeLock nat
  | ChLog
  | ChTicks
  | ChPipeRead addr
  | ChPipeWrite addr
  | ChInput

text \<open>The spinlocks of the kernel; \<open>SleepLk c\<close> is the spinlock inside the sleep lock at \<open>c\<close>.\<close>

datatype lockid =
    KmemLock
  | PtableLock
  | BcacheLock
  | LogLock
  | IcacheLock
  | FtableLock
  | TicksLock
  | ConsLock
  | IdeLock
  | PipeLock addr
  | SleepLk chan

section \<open>Scanning loops\<close>

text \<open>
  Many kernel loops scan a table for the first entry with some property. \<open>first_idx\<close> is such
  a loop: the index of the first entry at or after the start, \<open>None\<close> when the loop runs off
  the end.
\<close>

fun first_idx :: "('a \<Rightarrow> bool) \<Rightarrow> 'a list \<Rightarrow> nat option" where
  "first_idx p [] = None"
| "first_idx p (x # xs) = (if p x then Some 0 else map_option Suc (first_idx p xs))"

lemma first_idx_None: "first_idx p xs = None \<longleftrightarrow> (\<forall>x\<in>set xs. \<not> p x)"
  by (induction xs) auto

lemma first_idx_Some:
  "first_idx p xs = Some i \<longleftrightarrow> i < length xs \<and> p (xs ! i) \<and> (\<forall>j<i. \<not> p (xs ! j))"
proof (induction xs arbitrary: i)
  case Nil
  then show ?case by simp
next
  case (Cons x xs)
  show ?case
    by (cases i) (auto simp: Cons.IH less_Suc_eq_0_disj)
qed

lemma first_idx_lt: "first_idx p xs = Some i \<Longrightarrow> i < length xs"
  by (simp add: first_idx_Some)

lemma first_idx_sat: "first_idx p xs = Some i \<Longrightarrow> p (xs ! i)"
  by (simp add: first_idx_Some)

lemma first_idx_ex: "i < length xs \<Longrightarrow> p (xs ! i) \<Longrightarrow> \<exists>j. first_idx p xs = Some j"
  by (metis first_idx_None not_Some_eq nth_mem)

text \<open>A counting loop whose body may fail.\<close>

fun for_each :: "('i \<Rightarrow> 's \<Rightarrow> 's res) \<Rightarrow> 'i list \<Rightarrow> 's \<Rightarrow> 's res" where
  "for_each f [] s = Ok s"
| "for_each f (x # xs) s = bindr (f x s) (for_each f xs)"

lemma for_each_append: "for_each f (xs @ ys) s = bindr (for_each f xs s) (for_each f ys)"
  by (induction xs arbitrary: s) (simp_all add: bindr_assoc cong: bindr_cong)

text \<open>The standard rule: an invariant indexed by the number of turns done.\<close>

lemma for_each_rule:
  assumes "I 0 s" "\<And>i t. i < n \<Longrightarrow> I i t \<Longrightarrow> outcome E (f i t) (I (Suc i))"
  shows "outcome E (for_each f [0..<n] s) (I n)"
  using assms(2)
proof (induction n)
  case 0
  then show ?case using assms(1) by simp
next
  case (Suc n)
  then have "outcome E (for_each f [0..<n] s) (I n)" by simp
  then have "outcome E (for_each f [0..<n] s) (\<lambda>t. outcome E (f n t) (I (Suc n)))"
    by (rule outcome_mono) (use Suc.prems in auto)
  then show ?case by (simp add: for_each_append)
qed

lemma for_each_succeeds:
  assumes "I 0 s" "\<And>i t. i < n \<Longrightarrow> I i t \<Longrightarrow> succeeds (f i t) (I (Suc i))"
  shows "succeeds (for_each f [0..<n] s) (I n)"
  using for_each_rule [of I s n "{}" f] assms by simp

text \<open>Several updates of a function, the last one winning.\<close>

fun upd_all :: "('k \<Rightarrow> 'v) \<Rightarrow> ('k \<times> 'v) list \<Rightarrow> 'k \<Rightarrow> 'v" where
  "upd_all f [] = f"
| "upd_all f ((k, v) # kvs) = upd_all (f(k := v)) kvs"

lemma upd_all_append [simp]: "upd_all f (xs @ ys) = upd_all (upd_all f xs) ys"
  by (induction f xs rule: upd_all.induct) (simp_all del: fun_upd_apply)

lemma upd_all_notin: "k \<notin> fst ` set kvs \<Longrightarrow> upd_all f kvs k = f k"
  by (induction f kvs rule: upd_all.induct) auto

lemma upd_all_in: "distinct (map fst kvs) \<Longrightarrow> (k, v) \<in> set kvs \<Longrightarrow> upd_all f kvs k = v"
  by (induction f kvs rule: upd_all.induct) (auto simp: upd_all_notin image_iff)

section \<open>Lists\<close>

lemma find_SomeD: "find P xs = Some x \<Longrightarrow> x \<in> set xs \<and> P x"
  by (induction xs) (auto split: if_splits)

lemma nth_list_update_if: "i < length xs \<Longrightarrow> xs[i := v] ! j = (if i = j then v else xs ! j)"
  by simp

lemma map_upt_nth: "length xs = n \<Longrightarrow> map (\<lambda>i. xs ! i) [0..<n] = xs"
  by (auto intro: nth_equalityI)

end
