(* ===== verification/Xv6_Spinlock.thy ===== *)
theory Xv6_Spinlock
  imports Xv6_Prelude
begin

text \<open>
  \<^verbatim>\<open>spinlock.c\<close> and the per-CPU state of \<^verbatim>\<open>proc.h\<close>.

  The first part is the model that all other components build on: the root \<open>kst\<close> of the
  kernel state, extended by later theories, holds the CPUs, the interrupt flag of the
  executing CPU and all spinlocks; \<open>acquire\<close>, \<open>release\<close>, \<open>holding\<close>, \<open>pushcli\<close> and
  \<open>popcli\<close> are the calls as one CPU executes them. The debugging fields \<^verbatim>\<open>name\<close> and \<^verbatim>\<open>pcs\<close> of
  \<^verbatim>\<open>struct spinlock\<close> are left out. The second part is the lock as several CPUs execute it, one
  memory access per step, with mutual exclusion.
\<close>

section \<open>State\<close>

text \<open>\<^verbatim>\<open>struct cpu\<close> without the segment tables and the saved scheduler context.\<close>

record cpu =
  apicid :: u8
  ncli :: int
  intena :: bool
  cproc :: "nat option"

text \<open>\<^verbatim>\<open>struct spinlock\<close>: the flag and the index of the CPU that holds it.\<close>

record spinlock =
  locked :: bool
  lcpu :: "nat option"

text \<open>
  \<open>lapicid\<close> is what the local APIC of the executing CPU answers, \<open>fl_if\<close> the interrupt flag
  of its \<^verbatim>\<open>eflags\<close>.
\<close>

record kst =
  lapicid :: u8
  fl_if :: bool
  ncpu :: nat
  cpus :: "nat \<Rightarrow> cpu"
  locks :: "lockid \<Rightarrow> spinlock"

section \<open>Operations\<close>

definition initlock :: "lockid \<Rightarrow> 'a kst_scheme \<Rightarrow> 'a kst_scheme" where
  "initlock l s = s\<lparr>locks := (locks s)(l := \<lparr>locked = False, lcpu = None\<rparr>)\<rparr>"

definition cpu_index :: "'a kst_scheme \<Rightarrow> nat option" where
  "cpu_index s = find (\<lambda>i. apicid (cpus s i) = lapicid s) [0..<ncpu s]"

definition mycpu :: "'a kst_scheme \<Rightarrow> nat res" where
  "mycpu s =
     (if fl_if s then Panic ''mycpu called with interrupts enabled''
      else case cpu_index s of None \<Rightarrow> Panic ''unknown apicid'' | Some i \<Rightarrow> Ok i)"

definition set_cpu :: "nat \<Rightarrow> (cpu \<Rightarrow> cpu) \<Rightarrow> 'a kst_scheme \<Rightarrow> 'a kst_scheme" where
  "set_cpu i f s = s\<lparr>cpus := (cpus s)(i := f (cpus s i))\<rparr>"

definition pushcli :: "'a kst_scheme \<Rightarrow> 'a kst_scheme res" where
  "pushcli s =
     (let eflags = fl_if s; s = s\<lparr>fl_if := False\<rparr>
      in bindr (mycpu s) (\<lambda>i.
         let s = (if ncli (cpus s i) = 0 then set_cpu i (\<lambda>c. c\<lparr>intena := eflags\<rparr>) s else s)
         in Ok (set_cpu i (\<lambda>c. c\<lparr>ncli := ncli c + 1\<rparr>) s)))"

definition popcli :: "'a kst_scheme \<Rightarrow> 'a kst_scheme res" where
  "popcli s =
     (if fl_if s then Panic ''popcli - interruptible''
      else bindr (mycpu s) (\<lambda>i.
        let s = set_cpu i (\<lambda>c. c\<lparr>ncli := ncli c - 1\<rparr>) s
        in if ncli (cpus s i) < 0 then Panic ''popcli''
           else if ncli (cpus s i) = 0 \<and> intena (cpus s i) then Ok (s\<lparr>fl_if := True\<rparr>)
           else Ok s))"

definition holding :: "lockid \<Rightarrow> 'a kst_scheme \<Rightarrow> (bool \<times> 'a kst_scheme) res" where
  "holding l s =
     bindr (pushcli s) (\<lambda>s.
     bindr (mycpu s) (\<lambda>i.
     let r = (locked (locks s l) \<and> lcpu (locks s l) = Some i)
     in bindr (popcli s) (\<lambda>s. Ok (r, s))))"

text \<open>
  The \<^verbatim>\<open>xchg\<close> loop ends at once when the lock is free; when another CPU holds it, the
  executing CPU spins.
\<close>

definition acquire :: "lockid \<Rightarrow> 'a kst_scheme \<Rightarrow> 'a kst_scheme res" where
  "acquire l s =
     bindr (pushcli s) (\<lambda>s.
     bindr (holding l s) (\<lambda>(h, s).
     if h then Panic ''acquire''
     else if locked (locks s l) then Blocks
     else let s = s\<lparr>locks := (locks s)(l := (locks s l)\<lparr>locked := True\<rparr>)\<rparr>
          in bindr (mycpu s) (\<lambda>i.
             Ok (s\<lparr>locks := (locks s)(l := (locks s l)\<lparr>lcpu := Some i\<rparr>)\<rparr>))))"

definition release :: "lockid \<Rightarrow> 'a kst_scheme \<Rightarrow> 'a kst_scheme res" where
  "release l s =
     bindr (holding l s) (\<lambda>(h, s).
     if \<not> h then Panic ''release''
     else let s = s\<lparr>locks := (locks s)(l := (locks s l)\<lparr>lcpu := None\<rparr>)\<rparr>;
              s = s\<lparr>locks := (locks s)(l := (locks s l)\<lparr>locked := False\<rparr>)\<rparr>
          in popcli s)"

text \<open>\<^verbatim>\<open>myproc\<close> of \<^verbatim>\<open>proc.c\<close>: the process of the executing CPU.\<close>

definition myproc :: "'a kst_scheme \<Rightarrow> (nat option \<times> 'a kst_scheme) res" where
  "myproc s =
     bindr (pushcli s) (\<lambda>s.
     bindr (mycpu s) (\<lambda>i.
     let p = cproc (cpus s i)
     in bindr (popcli s) (\<lambda>s. Ok (p, s))))"

section \<open>Critical sections of one CPU\<close>

text \<open>
  \<open>cpu_ok\<close>: the executing CPU is one of the table, its nesting depth is not negative, and it
  is 0 while interrupts are on. \<open>settle\<close> is the only trace a balanced \<open>pushcli\<close>/\<open>popcli\<close>
  pair leaves: at depth 0 it records the interrupt flag. \<open>enter l\<close> is the state inside the
  critical section of lock \<open>l\<close>.
\<close>

definition unlocked :: spinlock where
  "unlocked = \<lparr>locked = False, lcpu = None\<rparr>"

definition cpu_ok :: "'a kst_scheme \<Rightarrow> bool" where
  "cpu_ok s \<longleftrightarrow>
     (case cpu_index s of None \<Rightarrow> False
      | Some i \<Rightarrow> 0 \<le> ncli (cpus s i) \<and> (fl_if s \<longrightarrow> ncli (cpus s i) = 0))"

definition quiet :: "'a kst_scheme \<Rightarrow> bool" where
  "quiet s \<longleftrightarrow> cpu_ok s \<and> (\<forall>l. locks s l = unlocked)"

definition settle :: "'a kst_scheme \<Rightarrow> 'a kst_scheme" where
  "settle s =
     (case cpu_index s of None \<Rightarrow> s
      | Some i \<Rightarrow> if ncli (cpus s i) = 0 then set_cpu i (\<lambda>c. c\<lparr>intena := fl_if s\<rparr>) s else s)"

definition enter :: "lockid \<Rightarrow> 'a kst_scheme \<Rightarrow> 'a kst_scheme" where
  "enter l s =
     (case cpu_index s of None \<Rightarrow> s
      | Some i \<Rightarrow> (set_cpu i (\<lambda>c. c\<lparr>ncli := ncli c + 1\<rparr>) (settle s))
          \<lparr>fl_if := False, locks := (locks s)(l := \<lparr>locked = True, lcpu = Some i\<rparr>)\<rparr>)"

lemma cpu_index_set_cpu:
  "apicid (f (cpus s i)) = apicid (cpus s i) \<Longrightarrow> cpu_index (set_cpu i f s) = cpu_index s"
  by (simp add: cpu_index_def set_cpu_def if_distrib cong: if_cong) (metis (mono_tags, lifting))

lemma cpu_index_simps [simp]:
  "cpu_index (s\<lparr>fl_if := b\<rparr>) = cpu_index s"
  "cpu_index (s\<lparr>locks := L\<rparr>) = cpu_index s"
  "cpu_index (set_cpu i (\<lambda>c. c\<lparr>ncli := n c\<rparr>) s) = cpu_index s"
  "cpu_index (set_cpu i (\<lambda>c. c\<lparr>intena := e\<rparr>) s) = cpu_index s"
  by (simp_all add: cpu_index_set_cpu) (simp_all add: cpu_index_def)

lemma set_cpu_sel [simp]:
  "lapicid (set_cpu i f s) = lapicid s" "fl_if (set_cpu i f s) = fl_if s"
  "ncpu (set_cpu i f s) = ncpu s" "locks (set_cpu i f s) = locks s"
  "cpus (set_cpu i f s) j = (if j = i then f (cpus s i) else cpus s j)"
  by (simp_all add: set_cpu_def)

lemma set_cpu_set_cpu [simp]: "set_cpu i f (set_cpu i g s) = set_cpu i (\<lambda>c. f (g c)) s"
  by (simp add: set_cpu_def)

lemma set_cpu_commutes [simp]:
  "set_cpu i f (s\<lparr>fl_if := b\<rparr>) = (set_cpu i f s)\<lparr>fl_if := b\<rparr>"
  "set_cpu i f (s\<lparr>locks := L\<rparr>) = (set_cpu i f s)\<lparr>locks := L\<rparr>"
  by (simp_all add: set_cpu_def)

lemma set_cpu_id: "f (cpus s i) = cpus s i \<Longrightarrow> set_cpu i f s = s"
  by (simp add: set_cpu_def)

lemma fl_if_same: "fl_if s = b \<Longrightarrow> s\<lparr>fl_if := b\<rparr> = s"
  by auto

lemma cpu_okE:
  assumes "cpu_ok s"
  obtains i where "cpu_index s = Some i" "0 \<le> ncli (cpus s i)" "fl_if s \<Longrightarrow> ncli (cpus s i) = 0"
  using assms by (auto simp: cpu_ok_def split: option.splits)

lemma cpu_index_settle [simp]: "cpu_index (settle s) = cpu_index s"
  by (simp add: settle_def split: option.split)

lemma settle_sel [simp]:
  "lapicid (settle s) = lapicid s" "fl_if (settle s) = fl_if s"
  "ncpu (settle s) = ncpu s" "locks (settle s) = locks s"
  "ncli (cpus (settle s) j) = ncli (cpus s j)" "cproc (cpus (settle s) j) = cproc (cpus s j)"
  by (simp_all add: settle_def split: option.split)

lemma settle_settle [simp]: "settle (settle s) = settle s"
  by (simp add: settle_def split: option.split)

lemma pushcli_eq:
  "cpu_index s = Some i \<Longrightarrow>
    pushcli s = Ok ((set_cpu i (\<lambda>c. c\<lparr>ncli := ncli c + 1\<rparr>) (settle s))\<lparr>fl_if := False\<rparr>)"
  by (simp add: pushcli_def mycpu_def settle_def Let_def)

lemma popcli_pushed:
  assumes "cpu_ok s" and i: "cpu_index s = Some i"
  shows "popcli ((set_cpu i (\<lambda>c. c\<lparr>ncli := ncli c + 1\<rparr>) (settle s))\<lparr>fl_if := False\<rparr>) = Ok (settle s)"
proof -
  have n: "0 \<le> ncli (cpus s i)" and f: "fl_if s \<longrightarrow> ncli (cpus s i) = 0"
    using assms by (auto simp: cpu_ok_def)
  have e: "ncli (cpus s i) = 0 \<longrightarrow> intena (cpus (settle s) i) = fl_if s"
    using i by (simp add: settle_def)
  have c: "set_cpu i (\<lambda>c. c\<lparr>ncli := ncli c\<rparr>) (settle s) = settle s"
    by (rule set_cpu_id) simp
  show ?thesis
  proof (cases "ncli (cpus s i) = 0 \<and> fl_if s")
    case True
    then show ?thesis
      using i e c fl_if_same [of "settle s" True] by (simp add: popcli_def mycpu_def Let_def)
  next
    case False
    then have "\<not> fl_if s" using f by blast
    then have "(settle s)\<lparr>fl_if := False\<rparr> = settle s" by (intro fl_if_same) simp
    then show ?thesis
      using False i n e c by (auto simp: popcli_def mycpu_def Let_def)
  qed
qed

lemma holding_eq:
  assumes "cpu_ok s"
  shows "holding l s = Ok (locked (locks s l) \<and> lcpu (locks s l) = cpu_index s, settle s)"
proof -
  from assms obtain i where i: "cpu_index s = Some i" by (rule cpu_okE)
  show ?thesis
    using popcli_pushed [OF assms i] by (simp add: holding_def pushcli_eq [OF i] mycpu_def i)
qed

lemma myproc_eq:
  assumes "cpu_ok s"
  shows "myproc s = Ok (cproc (cpus s (the (cpu_index s))), settle s)"
proof -
  from assms obtain i where i: "cpu_index s = Some i" by (rule cpu_okE)
  show ?thesis
    using popcli_pushed [OF assms i] by (simp add: myproc_def pushcli_eq [OF i] mycpu_def i)
qed

lemma cpu_ok_settle [simp]: "cpu_ok (settle s) = cpu_ok s"
  by (simp add: cpu_ok_def split: option.split)

lemma enter_sel [simp]:
  "lapicid (enter l s) = lapicid s" "ncpu (enter l s) = ncpu s"
  "cpu_index (enter l s) = cpu_index s"
  "cproc (cpus (enter l s) j) = cproc (cpus s j)"
  by (simp_all add: enter_def split: option.split)

lemma cpu_ok_enter [simp]: "cpu_ok s \<Longrightarrow> cpu_ok (enter l s)"
  by (auto simp: cpu_ok_def enter_def split: option.splits)

lemma fl_if_enter [simp]: "cpu_ok s \<Longrightarrow> \<not> fl_if (enter l s)"
  by (auto simp: cpu_ok_def enter_def split: option.splits)

lemma locks_enter:
  "cpu_ok s \<Longrightarrow> locks (enter l s) = (locks s)(l := \<lparr>locked = True, lcpu = cpu_index s\<rparr>)"
  by (auto simp: cpu_ok_def enter_def split: option.splits)

lemma locks_enter_other [simp]: "l' \<noteq> l \<Longrightarrow> locks (enter l s) l' = locks s l'"
  by (simp add: enter_def split: option.split)

lemma settle_enter [simp]: "cpu_ok s \<Longrightarrow> settle (enter l s) = enter l s"
  by (auto simp: cpu_ok_def enter_def settle_def split: option.splits)

lemma enter_settle [simp]: "enter l (settle s) = enter l s"
  by (cases "cpu_index s") (simp_all add: enter_def, simp add: settle_def)

text \<open>Acquiring a free lock enters its critical section; releasing it leaves only \<open>settle\<close>.\<close>

lemma acquire_free:
  assumes "cpu_ok s" and "locks s l = unlocked"
  shows "acquire l s = Ok (enter l s)"
proof -
  from assms(1) obtain i where i: "cpu_index s = Some i" and n: "0 \<le> ncli (cpus s i)" by (rule cpu_okE)
  let ?p = "(set_cpu i (\<lambda>c. c\<lparr>ncli := ncli c + 1\<rparr>) (settle s))\<lparr>fl_if := False\<rparr>"
  have "cpu_ok ?p" using i n by (simp add: cpu_ok_def)
  moreover have "settle ?p = ?p" using i n by (simp add: settle_def [of ?p])
  ultimately have "holding l ?p = Ok (False, ?p)"
    using assms(2) by (simp add: holding_eq unlocked_def)
  then show ?thesis
    using assms(2) i by (simp add: acquire_def pushcli_eq [OF i] unlocked_def mycpu_def enter_def)
qed

lemma acquire_held_by_self:
  assumes "cpu_ok s" and "locked (locks s l)" and "lcpu (locks s l) = cpu_index s"
  shows "acquire l s = Panic ''acquire''"
proof -
  from assms(1) obtain i where i: "cpu_index s = Some i" and n: "0 \<le> ncli (cpus s i)" by (rule cpu_okE)
  let ?p = "(set_cpu i (\<lambda>c. c\<lparr>ncli := ncli c + 1\<rparr>) (settle s))\<lparr>fl_if := False\<rparr>"
  have "cpu_ok ?p" using i n by (simp add: cpu_ok_def)
  then show ?thesis
    using assms i by (simp add: acquire_def pushcli_eq [OF i] holding_eq)
qed

lemma release_enter:
  assumes "cpu_ok s" and "locks s l = unlocked"
  shows "release l (enter l s) = Ok (settle s)"
proof -
  from assms(1) obtain i where i: "cpu_index s = Some i" by (rule cpu_okE)
  have h: "holding l (enter l s) = Ok (True, enter l s)"
    using assms(1) by (simp add: holding_eq locks_enter)
  have "(enter l s)\<lparr>locks := locks s\<rparr> =
    (set_cpu i (\<lambda>c. c\<lparr>ncli := ncli c + 1\<rparr>) (settle s))\<lparr>fl_if := False\<rparr>"
    using i by (simp add: enter_def set_cpu_def)
  moreover have "(locks s)(l := \<lparr>locked = False, lcpu = None\<rparr>) = locks s"
    using assms(2) by (simp add: unlocked_def fun_upd_idem)
  ultimately show ?thesis
    using popcli_pushed [OF assms(1) i] assms(1) by (simp add: release_def h locks_enter)
qed

lemma quietD [dest]: "quiet s \<Longrightarrow> cpu_ok s"
  by (simp add: quiet_def)

lemma quiet_lock: "quiet s \<Longrightarrow> locks s l = unlocked"
  by (simp add: quiet_def)

lemma quiet_settle [simp]: "quiet (settle s) = quiet s"
  by (simp add: quiet_def)

lemmas crit_simps = acquire_free release_enter holding_eq myproc_eq

section \<open>The lock executed by several CPUs\<close>

text \<open>
  One spinlock in shared memory and the program counter of every CPU inside \<open>acquire\<close> and
  \<open>release\<close>; one step is one access to the lock. The flag of the \<open>holding\<close> steps records
  whether the CPU owned the lock when it made the call, so that misuse (acquiring twice,
  releasing a lock not held) is part of the system.
\<close>

datatype lpc =
    Out
  | Acq_locked bool   \<comment> \<open>\<open>holding\<close> in \<open>acquire\<close>: read \<open>locked\<close>\<close>
  | Acq_cpu bool      \<comment> \<open>\<open>holding\<close> in \<open>acquire\<close>: read \<open>cpu\<close>\<close>
  | Xchg              \<comment> \<open>the \<open>xchg\<close> loop\<close>
  | Set_cpu           \<comment> \<open>\<open>lk->cpu = mycpu()\<close>\<close>
  | Crit
  | Rel_locked bool   \<comment> \<open>\<open>holding\<close> in \<open>release\<close>: read \<open>locked\<close>\<close>
  | Rel_cpu bool      \<comment> \<open>\<open>holding\<close> in \<open>release\<close>: read \<open>cpu\<close>\<close>
  | Clear_cpu         \<comment> \<open>\<open>lk->cpu = 0\<close>\<close>
  | Clear_locked      \<comment> \<open>\<open>movl $0\<close> to \<open>lk->locked\<close>\<close>
  | Panic_acquire bool
  | Panic_release bool

record smp =
  mlocked :: bool
  mcpu :: "nat option"
  pcs :: "nat \<Rightarrow> lpc"

definition goto :: "nat \<Rightarrow> lpc \<Rightarrow> smp \<Rightarrow> smp" where
  "goto c p s = s\<lparr>pcs := (pcs s)(c := p)\<rparr>"

inductive lstep :: "smp \<Rightarrow> smp \<Rightarrow> bool" where
  call_acquire: "pcs s c = Out \<Longrightarrow> lstep s (goto c (Acq_locked False) s)"
| call_acquire_again: "pcs s c = Crit \<Longrightarrow> lstep s (goto c (Acq_locked True) s)"
| acq_locked: "pcs s c = Acq_locked w \<Longrightarrow> lstep s (goto c (if mlocked s then Acq_cpu w else Xchg) s)"
| acq_cpu: "pcs s c = Acq_cpu w \<Longrightarrow>
    lstep s (goto c (if mcpu s = Some c then Panic_acquire w else Xchg) s)"
| xchg_busy: "pcs s c = Xchg \<Longrightarrow> mlocked s \<Longrightarrow> lstep s s"
| xchg_free: "pcs s c = Xchg \<Longrightarrow> \<not> mlocked s \<Longrightarrow> lstep s (goto c Set_cpu (s\<lparr>mlocked := True\<rparr>))"
| set_cpu: "pcs s c = Set_cpu \<Longrightarrow> lstep s (goto c Crit (s\<lparr>mcpu := Some c\<rparr>))"
| call_release: "pcs s c = Crit \<Longrightarrow> lstep s (goto c (Rel_locked True) s)"
| call_release_unheld: "pcs s c = Out \<Longrightarrow> lstep s (goto c (Rel_locked False) s)"
| rel_locked: "pcs s c = Rel_locked w \<Longrightarrow>
    lstep s (goto c (if mlocked s then Rel_cpu w else Panic_release w) s)"
| rel_cpu: "pcs s c = Rel_cpu w \<Longrightarrow>
    lstep s (goto c (if mcpu s = Some c then Clear_cpu else Panic_release w) s)"
| clear_cpu: "pcs s c = Clear_cpu \<Longrightarrow> lstep s (goto c Clear_locked (s\<lparr>mcpu := None\<rparr>))"
| clear_locked: "pcs s c = Clear_locked \<Longrightarrow> lstep s (goto c Out (s\<lparr>mlocked := False\<rparr>))"

definition smp_init :: smp where
  "smp_init = \<lparr>mlocked = False, mcpu = None, pcs = (\<lambda>_. Out)\<rparr>"

inductive lreach :: "smp \<Rightarrow> bool" where
  lreach_init: "lreach smp_init"
| lreach_step: "lreach s \<Longrightarrow> lstep s t \<Longrightarrow> lreach t"

text \<open>The program points at which a CPU owns the lock, and those where its name is recorded.\<close>

fun owns :: "lpc \<Rightarrow> bool" where
  "owns (Acq_locked w) = w" | "owns (Acq_cpu w) = w" | "owns Set_cpu = True" | "owns Crit = True"
| "owns (Rel_locked w) = w" | "owns (Rel_cpu w) = w" | "owns Clear_cpu = True"
| "owns Clear_locked = True" | "owns (Panic_acquire w) = w" | "owns (Panic_release w) = w"
| "owns Out = False" | "owns Xchg = False"

definition named :: "lpc \<Rightarrow> bool" where
  "named p \<longleftrightarrow> owns p \<and> p \<noteq> Set_cpu \<and> p \<noteq> Clear_locked"

definition lock_inv :: "smp \<Rightarrow> bool" where
  "lock_inv s \<longleftrightarrow>
     (\<forall>c d. owns (pcs s c) \<longrightarrow> owns (pcs s d) \<longrightarrow> c = d) \<and>
     (mlocked s \<longleftrightarrow> (\<exists>c. owns (pcs s c))) \<and>
     (\<forall>c. mcpu s = Some c \<longleftrightarrow> named (pcs s c)) \<and>
     (\<forall>c. pcs s c \<noteq> Panic_acquire False \<and> pcs s c \<noteq> Panic_release True)"

lemma goto_sel [simp]:
  "mlocked (goto c p s) = mlocked s" "mcpu (goto c p s) = mcpu s"
  "pcs (goto c p s) d = (if d = c then p else pcs s d)"
  by (simp_all add: goto_def)

lemma lstep_inv: "lstep s t \<Longrightarrow> lock_inv s \<Longrightarrow> lock_inv t"
proof (induction rule: lstep.induct)
  case (xchg_busy s c)
  then show ?case by simp
qed (auto simp: lock_inv_def named_def; metis owns.simps)+

lemma lreach_inv: "lreach s \<Longrightarrow> lock_inv s"
proof (induction rule: lreach.induct)
  case lreach_init
  then show ?case by (simp add: lock_inv_def smp_init_def named_def)
next
  case (lreach_step s t)
  then show ?case by (blast intro: lstep_inv)
qed

section \<open>Properties\<close>

text \<open>
  C8: mutual exclusion of the spinlock for any number of CPUs and every interleaving of their
  accesses to it, misuse included: two CPUs are never both between the successful \<^verbatim>\<open>xchg\<close> and
  the final store of \<^verbatim>\<open>release\<close>; the lock is marked taken exactly while one is; and the panics
  are exact: \<^verbatim>\<open>acquire\<close> panics only on a CPU that already owns the lock and \<^verbatim>\<open>release\<close> only on
  one that does not.
\<close>

theorem spinlock_mutual_exclusion:
  assumes "lreach s"
  shows "(owns (pcs s c) \<and> owns (pcs s d) \<longrightarrow> c = d) \<and>
    (mlocked s \<longleftrightarrow> (\<exists>e. owns (pcs s e))) \<and>
    pcs s c \<noteq> Panic_acquire False \<and> pcs s c \<noteq> Panic_release True"
  using lreach_inv [OF assms] unfolding lock_inv_def by blast

theorem spinlock_mutual_exclusion_witness:
  "mlocked (goto 0 Set_cpu ((goto 0 Xchg (goto 0 (Acq_locked False) smp_init))\<lparr>mlocked := True\<rparr>)) \<longleftrightarrow>
   (\<exists>e. owns (pcs (goto 0 Set_cpu ((goto 0 Xchg (goto 0 (Acq_locked False) smp_init))\<lparr>mlocked := True\<rparr>)) e))"
proof -
  let ?a = "goto 0 (Acq_locked False) smp_init"
  let ?b = "goto 0 Xchg ?a"
  let ?c = "goto 0 Set_cpu (?b\<lparr>mlocked := True\<rparr>)"
  have "lstep smp_init ?a" by (rule lstep.call_acquire) (simp add: smp_init_def)
  moreover have "lstep ?a ?b" using lstep.acq_locked [of ?a 0 False] by (simp add: smp_init_def)
  moreover have "lstep ?b ?c" by (rule lstep.xchg_free) (simp_all add: smp_init_def)
  ultimately have "lreach ?c" by (blast intro: lreach.intros)
  then show ?thesis using spinlock_mutual_exclusion [of ?c 0 0] by blast
qed

text \<open>
  C14: a critical section brings the CPU back: acquiring a free lock turns interrupts off and
  marks the lock as held by this CPU, acquiring it again inside panics, and releasing it
  restores the interrupt flag, the nesting depth and the lock, for any nesting depth at entry.
\<close>

theorem critical_section_restores:
  assumes "cpu_ok s" and "locks s l = unlocked"
  shows "succeeds (acquire l s) (\<lambda>t. \<not> fl_if t \<and> locked (locks t l) \<and> lcpu (locks t l) = cpu_index s \<and>
    acquire l t = Panic ''acquire'' \<and>
    succeeds (release l t) (\<lambda>u. fl_if u = fl_if s \<and> locks u = locks s \<and>
      (\<forall>c. ncli (cpus u c) = ncli (cpus s c) \<and> cproc (cpus u c) = cproc (cpus s c)) \<and>
      kst.more u = kst.more s))"
proof -
  have "kst.more (settle s) = kst.more s"
    by (simp add: settle_def set_cpu_def split: option.split)
  moreover have "acquire l (enter l s) = Panic ''acquire''"
    using assms by (intro acquire_held_by_self) (simp_all add: locks_enter)
  ultimately show ?thesis
    using assms by (simp add: acquire_free release_enter locks_enter)
qed

definition boot_cpu :: cpu where
  "boot_cpu = \<lparr>apicid = 0, ncli = 0, intena = False, cproc = None\<rparr>"

definition boot_kst :: kst where
  "boot_kst = \<lparr>lapicid = 0, fl_if = True, ncpu = 1, cpus = (\<lambda>_. boot_cpu), locks = (\<lambda>_. unlocked)\<rparr>"

lemma boot_kst_ok: "cpu_ok boot_kst" "locks boot_kst l = unlocked"
  by (simp_all add: boot_kst_def boot_cpu_def cpu_ok_def cpu_index_def)

theorem critical_section_restores_witness:
  "\<exists>t. acquire KmemLock boot_kst = Ok t \<and> \<not> fl_if t \<and> acquire KmemLock t = Panic ''acquire''"
  using critical_section_restores [OF boot_kst_ok, of KmemLock] by (auto simp: succeeds_iff)

end
