(* ===== verification/Xv6_Bytes.thy ===== *)
theory Xv6_Bytes
  imports Xv6_Prelude
begin

text \<open>
  Byte-level representation of C integers on the little-endian x86: byte memory, 16- and
  32-bit loads and stores, and the same encodings as byte lists for the structures that live
  in disk blocks. The lemmas are the round trips and the frame facts the components use.
\<close>

section \<open>Encoding of integers as bytes\<close>

definition byte_of :: "nat \<Rightarrow> u32 \<Rightarrow> u8" where
  "byte_of i v = ucast (drop_bit (8 * i) v)"

definition le32 :: "u32 \<Rightarrow> u8 list" where
  "le32 v = [byte_of 0 v, byte_of 1 v, byte_of 2 v, byte_of 3 v]"

definition join32 :: "u8 \<Rightarrow> u8 \<Rightarrow> u8 \<Rightarrow> u8 \<Rightarrow> u32" where
  "join32 a b c d =
     ucast a OR push_bit 8 (ucast b) OR push_bit 16 (ucast c) OR push_bit 24 (ucast d)"

definition le16 :: "u16 \<Rightarrow> u8 list" where
  "le16 v = [ucast v, ucast (drop_bit 8 v)]"

definition join16 :: "u8 \<Rightarrow> u8 \<Rightarrow> u16" where
  "join16 a b = ucast a OR push_bit 8 (ucast b)"

lemma join32_byte_of [simp]: "join32 (byte_of 0 v) (byte_of 1 v) (byte_of 2 v) (byte_of 3 v) = v"
proof (rule bit_word_eqI)
  fix n assume n: "n < LENGTH(32)"
  consider "n < 8" | "8 \<le> n \<and> n < 16" | "16 \<le> n \<and> n < 24" | "24 \<le> n" by linarith
  then show "bit (join32 (byte_of 0 v) (byte_of 1 v) (byte_of 2 v) (byte_of 3 v)) n = bit v n"
    using n by cases (auto simp: join32_def byte_of_def bit_simps)
qed

lemma byte_of_join32 [simp]:
  "byte_of 0 (join32 a b c d) = a" "byte_of 1 (join32 a b c d) = b"
  "byte_of 2 (join32 a b c d) = c" "byte_of 3 (join32 a b c d) = d"
proof -
  show "byte_of 0 (join32 a b c d) = a"
    by (rule bit_word_eqI) (auto simp: join32_def byte_of_def bit_simps dest: bit_imp_le_length)
  show "byte_of 1 (join32 a b c d) = b"
    by (rule bit_word_eqI) (auto simp: join32_def byte_of_def bit_simps dest: bit_imp_le_length)
  show "byte_of 2 (join32 a b c d) = c"
    by (rule bit_word_eqI) (auto simp: join32_def byte_of_def bit_simps dest: bit_imp_le_length)
  show "byte_of 3 (join32 a b c d) = d"
    by (rule bit_word_eqI) (auto simp: join32_def byte_of_def bit_simps dest: bit_imp_le_length)
qed

lemma join16_split [simp]: "join16 (ucast v) (ucast (drop_bit 8 v)) = v"
proof (rule bit_word_eqI)
  fix n assume "n < LENGTH(16)"
  then show "bit (join16 (ucast v) (ucast (drop_bit 8 v))) n = bit v n"
    by (auto simp: join16_def bit_simps)
qed

lemma split_join16 [simp]:
  "ucast (join16 a b) = a" "ucast (drop_bit 8 (join16 a b)) = b"
proof -
  show "ucast (join16 a b) = a"
    by (rule bit_word_eqI) (auto simp: join16_def bit_simps dest: bit_imp_le_length)
  show "ucast (drop_bit 8 (join16 a b)) = b"
    by (rule bit_word_eqI) (auto simp: join16_def bit_simps dest: bit_imp_le_length)
qed

section \<open>Integers inside byte lists\<close>

definition get32 :: "u8 list \<Rightarrow> nat \<Rightarrow> u32" where
  "get32 bs i = join32 (bs ! i) (bs ! (i + 1)) (bs ! (i + 2)) (bs ! (i + 3))"

definition put32 :: "u8 list \<Rightarrow> nat \<Rightarrow> u32 \<Rightarrow> u8 list" where
  "put32 bs i v =
     bs[i := byte_of 0 v, i + 1 := byte_of 1 v, i + 2 := byte_of 2 v, i + 3 := byte_of 3 v]"

definition get16 :: "u8 list \<Rightarrow> nat \<Rightarrow> u16" where
  "get16 bs i = join16 (bs ! i) (bs ! (i + 1))"

definition put16 :: "u8 list \<Rightarrow> nat \<Rightarrow> u16 \<Rightarrow> u8 list" where
  "put16 bs i v = bs[i := ucast v, i + 1 := ucast (drop_bit 8 v)]"

lemma length_put32 [simp]: "length (put32 bs i v) = length bs"
  by (simp add: put32_def)

lemma length_put16 [simp]: "length (put16 bs i v) = length bs"
  by (simp add: put16_def)

lemma get32_put32_same [simp]: "i + 3 < length bs \<Longrightarrow> get32 (put32 bs i v) i = v"
  by (simp add: get32_def put32_def del: One_nat_def)

lemma get32_put32_other [simp]:
  "i + 4 \<le> j \<or> j + 4 \<le> i \<Longrightarrow> get32 (put32 bs i v) j = get32 bs j"
  by (auto simp: get32_def put32_def)

lemma get16_put16_same [simp]: "i + 1 < length bs \<Longrightarrow> get16 (put16 bs i v) i = v"
  by (simp add: get16_def put16_def)

lemma get16_put16_other [simp]:
  "i + 2 \<le> j \<or> j + 2 \<le> i \<Longrightarrow> get16 (put16 bs i v) j = get16 bs j"
  by (auto simp: get16_def put16_def)

lemma get16_put32_other [simp]:
  "i + 4 \<le> j \<or> j + 2 \<le> i \<Longrightarrow> get16 (put32 bs i v) j = get16 bs j"
  by (auto simp: get16_def put32_def)

lemma get32_put16_other [simp]:
  "i + 2 \<le> j \<or> j + 4 \<le> i \<Longrightarrow> get32 (put16 bs i v) j = get32 bs j"
  by (auto simp: get32_def put16_def)

lemma nth_put32_other [simp]: "j < i \<or> i + 4 \<le> j \<Longrightarrow> put32 bs i v ! j = bs ! j"
  by (auto simp: put32_def)

lemma nth_put16_other [simp]: "j < i \<or> i + 2 \<le> j \<Longrightarrow> put16 bs i v ! j = bs ! j"
  by (auto simp: put16_def)

section \<open>Byte memory\<close>

type_synonym memory = "addr \<Rightarrow> u8"

definition load32 :: "memory \<Rightarrow> addr \<Rightarrow> u32" where
  "load32 m a = join32 (m a) (m (a + 1)) (m (a + 2)) (m (a + 3))"

definition store32 :: "memory \<Rightarrow> addr \<Rightarrow> u32 \<Rightarrow> memory" where
  "store32 m a v =
     m(a := byte_of 0 v, a + 1 := byte_of 1 v, a + 2 := byte_of 2 v, a + 3 := byte_of 3 v)"

text \<open>Modular distance: \<open>x\<close> is one of the \<open>n\<close> bytes from \<open>a\<close> on.\<close>

definition in_region :: "addr \<Rightarrow> nat \<Rightarrow> addr \<Rightarrow> bool" where
  "in_region a n x \<longleftrightarrow> unat (x - a) < n"

lemma load32_store32_same [simp]: "load32 (store32 m a v) a = v"
  by (simp add: load32_def store32_def del: One_nat_def)

lemma in_region_4: "in_region a 4 x \<longleftrightarrow> x = a \<or> x = a + 1 \<or> x = a + 2 \<or> x = a + 3"
proof -
  have "unat y < 4 \<longleftrightarrow> y = 0 \<or> y = 1 \<or> y = 2 \<or> y = 3" for y :: u32
    by (auto simp: word_unat_eq_iff)
  then show ?thesis
    by (simp add: in_region_def diff_eq_eq add.commute)
qed

lemma store32_outside: "\<not> in_region a 4 x \<Longrightarrow> store32 m a v x = m x"
  by (auto simp: in_region_4 store32_def)

end
