(* ===== verification/Xv6_String.thy ===== *)
theory Xv6_String
  imports Xv6_Bytes
begin

text \<open>
  \<^verbatim>\<open>string.c\<close> over byte memory, with the string instructions \<^verbatim>\<open>stosb\<close> and \<^verbatim>\<open>stosl\<close> of
  \<^verbatim>\<open>x86.h\<close>. Pointers are 32-bit words, so pointer arithmetic wraps. The theorems give each
  routine's effect on every byte of memory.
\<close>

section \<open>Definitions\<close>

fun stosb :: "memory \<Rightarrow> addr \<Rightarrow> u8 \<Rightarrow> nat \<Rightarrow> memory" where
  "stosb m a c 0 = m"
| "stosb m a c (Suc n) = stosb (m(a := c)) (a + 1) c n"

fun stosl :: "memory \<Rightarrow> addr \<Rightarrow> u32 \<Rightarrow> nat \<Rightarrow> memory" where
  "stosl m a v 0 = m"
| "stosl m a v (Suc n) = stosl (store32 m a v) (a + 4) v n"

definition memset :: "memory \<Rightarrow> addr \<Rightarrow> u32 \<Rightarrow> u32 \<Rightarrow> memory" where
  "memset m dst c n =
     (if dst mod 4 = 0 \<and> n mod 4 = 0
      then let c = c AND 0xFF
           in stosl m dst (push_bit 24 c OR push_bit 16 c OR push_bit 8 c OR c) (unat (n div 4))
      else stosb m dst (ucast c) (unat n))"

fun memcmp_loop :: "memory \<Rightarrow> addr \<Rightarrow> addr \<Rightarrow> nat \<Rightarrow> int" where
  "memcmp_loop m s1 s2 0 = 0"
| "memcmp_loop m s1 s2 (Suc n) =
     (if m s1 \<noteq> m s2 then uint (m s1) - uint (m s2)
      else memcmp_loop m (s1 + 1) (s2 + 1) n)"

definition memcmp :: "memory \<Rightarrow> addr \<Rightarrow> addr \<Rightarrow> u32 \<Rightarrow> int" where
  "memcmp m v1 v2 n = memcmp_loop m v1 v2 (unat n)"

fun move_up :: "memory \<Rightarrow> addr \<Rightarrow> addr \<Rightarrow> nat \<Rightarrow> memory" where
  "move_up m d s 0 = m"
| "move_up m d s (Suc n) = move_up (m(d := m s)) (d + 1) (s + 1) n"

fun move_down :: "memory \<Rightarrow> addr \<Rightarrow> addr \<Rightarrow> nat \<Rightarrow> memory" where
  "move_down m d s 0 = m"
| "move_down m d s (Suc n) = move_down (m(d - 1 := m (s - 1))) (d - 1) (s - 1) n"

definition memmove :: "memory \<Rightarrow> addr \<Rightarrow> addr \<Rightarrow> u32 \<Rightarrow> memory" where
  "memmove m dst src n =
     (if src < dst \<and> src + n > dst
      then move_down m (dst + n) (src + n) (unat n)
      else move_up m dst src (unat n))"

definition memcpy :: "memory \<Rightarrow> addr \<Rightarrow> addr \<Rightarrow> u32 \<Rightarrow> memory" where
  "memcpy m dst src n = memmove m dst src n"

fun strncmp_loop :: "memory \<Rightarrow> addr \<Rightarrow> addr \<Rightarrow> nat \<Rightarrow> int" where
  "strncmp_loop m p q 0 = 0"
| "strncmp_loop m p q (Suc n) =
     (if m p \<noteq> 0 \<and> m p = m q then strncmp_loop m (p + 1) (q + 1) n
      else uint (m p) - uint (m q))"

definition strncmp :: "memory \<Rightarrow> addr \<Rightarrow> addr \<Rightarrow> u32 \<Rightarrow> int" where
  "strncmp m p q n = strncmp_loop m p q (unat n)"

fun zero_rest :: "memory \<Rightarrow> addr \<Rightarrow> nat \<Rightarrow> memory" where
  "zero_rest m s 0 = m"
| "zero_rest m s (Suc n) = zero_rest (m(s := 0)) (s + 1) n"

fun strncpy_loop :: "memory \<Rightarrow> addr \<Rightarrow> addr \<Rightarrow> nat \<Rightarrow> memory" where
  "strncpy_loop m s t 0 = m"
| "strncpy_loop m s t (Suc n) =
     (let m' = m(s := m t)
      in if m t \<noteq> 0 then strncpy_loop m' (s + 1) (t + 1) n
         else zero_rest m' (s + 1) n)"

definition strncpy :: "memory \<Rightarrow> addr \<Rightarrow> addr \<Rightarrow> int \<Rightarrow> memory" where
  "strncpy m s t n = strncpy_loop m s t (nat n)"

text \<open>
  \<^verbatim>\<open>while(--n > 0 && (*s++ = *t++) != 0); *s = 0;\<close>: when the NUL itself is copied, \<^verbatim>\<open>s\<close> has
  moved past it and a second NUL follows.
\<close>

fun safestrcpy_loop :: "memory \<Rightarrow> addr \<Rightarrow> addr \<Rightarrow> nat \<Rightarrow> memory" where
  "safestrcpy_loop m s t 0 = m(s := 0)"
| "safestrcpy_loop m s t (Suc n) =
     (let m' = m(s := m t)
      in if m t \<noteq> 0 then safestrcpy_loop m' (s + 1) (t + 1) n else m'(s + 1 := 0))"

definition safestrcpy :: "memory \<Rightarrow> addr \<Rightarrow> addr \<Rightarrow> int \<Rightarrow> memory" where
  "safestrcpy m s t n = (if n \<le> 0 then m else safestrcpy_loop m s t (nat (n - 1)))"

text \<open>The scan for the terminating NUL does not end in a memory without one.\<close>

partial_function (option) strlen_from :: "memory \<Rightarrow> addr \<Rightarrow> nat \<Rightarrow> nat option" where
  "strlen_from m s n = (if m (s + of_nat n) = 0 then Some n else strlen_from m s (Suc n))"

definition strlen :: "memory \<Rightarrow> addr \<Rightarrow> nat option" where
  "strlen m s = strlen_from m s 0"

text \<open>The C string at \<open>s\<close> has length \<open>k\<close>.\<close>

definition cstr_len :: "memory \<Rightarrow> addr \<Rightarrow> nat \<Rightarrow> bool" where
  "cstr_len m s k \<longleftrightarrow> m (s + of_nat k) = 0 \<and> (\<forall>j<k. m (s + of_nat j) \<noteq> 0)"

section \<open>Filling memory\<close>

lemma unat_lt32: "unat (n :: u32) < 2 ^ 32"
  using unsigned_less [of n] by simp

lemma in_region_Suc:
  assumes n: "n < 2 ^ 32"
  shows "in_region a (Suc n) x \<longleftrightarrow> x = a \<or> in_region (a + 1) n x"
proof (cases "x = a")
  case True
  then show ?thesis by (simp add: in_region_def)
next
  case False
  have "x - (a + 1) = (x - a) - 1" by simp
  moreover have "unat ((x - a) - 1) = unat (x - a) - 1"
    using False by (intro unat_minus_one) auto
  moreover have "0 < unat (x - a)"
    using False by (simp add: unat_gt_0)
  ultimately show ?thesis
    using False by (auto simp only: in_region_def)
qed

lemma in_region_0 [simp]: "\<not> in_region a 0 x"
  by (simp add: in_region_def)

lemma stosb_apply: "n \<le> 2 ^ 32 \<Longrightarrow> stosb m a c n x = (if in_region a n x then c else m x)"
  by (induction n arbitrary: m a) (auto simp: in_region_Suc)

lemma in_region_add4:
  "4 * n + 4 \<le> 2 ^ 32 \<Longrightarrow> in_region a (4 * n + 4) x \<longleftrightarrow> in_region a 4 x \<or> in_region (a + 4) (4 * n) x"
proof -
  assume n: "4 * n + 4 \<le> 2 ^ 32"
  have "in_region a (Suc (4 * n + 3)) x \<longleftrightarrow> x = a \<or> in_region (a + 1) (4 * n + 3) x"
    "in_region (a + 1) (Suc (4 * n + 2)) x \<longleftrightarrow> x = a + 1 \<or> in_region (a + 1 + 1) (4 * n + 2) x"
    "in_region (a + 2) (Suc (4 * n + 1)) x \<longleftrightarrow> x = a + 2 \<or> in_region (a + 2 + 1) (4 * n + 1) x"
    "in_region (a + 3) (Suc (4 * n)) x \<longleftrightarrow> x = a + 3 \<or> in_region (a + 3 + 1) (4 * n) x"
    by (rule in_region_Suc; use n in simp)+
  moreover have "Suc (4 * n + 3) = 4 * n + 4" "Suc (4 * n + 2) = 4 * n + 3"
    "Suc (4 * n + 1) = 4 * n + 2" "Suc (4 * n) = 4 * n + 1"
    "a + 1 + 1 = a + 2" "a + 2 + 1 = a + 3" "a + 3 + 1 = a + 4"
    by simp_all
  ultimately have "in_region a (4 * n + 4) x \<longleftrightarrow>
    x = a \<or> x = a + 1 \<or> x = a + 2 \<or> x = a + 3 \<or> in_region (a + 4) (4 * n) x"
    by metis
  then show ?thesis by (auto simp: in_region_4)
qed

lemma store32_bytes:
  "\<forall>i<4. byte_of i v = c \<Longrightarrow> store32 m a v x = (if in_region a 4 x then c else m x)"
  by (auto simp: in_region_4 store32_def)

lemma stosl_apply:
  "4 * n \<le> 2 ^ 32 \<Longrightarrow> \<forall>i<4. byte_of i v = c \<Longrightarrow>
    stosl m a v n x = (if in_region a (4 * n) x then c else m x)"
proof (induction n arbitrary: m a)
  case 0
  then show ?case by simp
next
  case (Suc n)
  then show ?case
    using in_region_add4 [of n a x] store32_bytes [OF Suc.prems(2), of m a x]
    by (auto simp: add.commute)
qed

lemma splat_bytes:
  fixes c :: u32
  assumes "i < 4"
  shows "byte_of i (push_bit 24 (c AND 0xFF) OR push_bit 16 (c AND 0xFF) OR
    push_bit 8 (c AND 0xFF) OR (c AND 0xFF)) = ucast c"
proof (rule bit_word_eqI)
  fix n assume n: "n < LENGTH(8)"
  have mask: "(0xFF :: u32) = mask 8" by (simp add: mask_eq_exp_minus_1)
  from assms consider "i = 0" | "i = 1" | "i = 2" | "i = 3" by linarith
  then show "bit (byte_of i (push_bit 24 (c AND 0xFF) OR push_bit 16 (c AND 0xFF) OR
    push_bit 8 (c AND 0xFF) OR (c AND 0xFF))) n = bit (ucast c :: u8) n"
    using n by cases (auto simp: byte_of_def bit_simps mask)
qed

text \<open>The word-wise and the byte-wise branch of \<open>memset\<close> agree: every byte of the region.\<close>

lemma memset_apply: "memset m dst c n x = (if in_region dst (unat n) x then ucast c else m x)"
proof (cases "dst mod 4 = 0 \<and> n mod 4 = 0")
  case True
  then have "unat (n mod 4) = 0" by simp
  then have "unat n mod 4 = 0" by (simp add: unat_mod)
  then have "4 * unat (n div 4) = unat n" by (auto simp: unat_div)
  moreover have "unat n \<le> 2 ^ 32" by (rule less_imp_le) (rule unat_lt32)
  ultimately show ?thesis
    using True stosl_apply [of "unat (n div 4)" _ "ucast c" m dst x] splat_bytes [of _ c]
    by (simp add: memset_def Let_def)
next
  case False
  have "unat n \<le> 2 ^ 32" by (rule less_imp_le) (rule unat_lt32)
  then show ?thesis using False by (auto simp: memset_def stosb_apply)
qed

section \<open>Copying memory\<close>

lemma in_region_snoc:
  assumes "n < 2 ^ 32"
  shows "in_region d (Suc n) x \<longleftrightarrow> in_region d n x \<or> x = d + of_nat n"
proof -
  have "unat (x - d) = n \<longleftrightarrow> x - d = of_nat n"
    using assms by (auto simp: word_unat_eq_iff unat_of_nat)
  then show ?thesis
    by (auto simp: in_region_def less_Suc_eq diff_eq_eq add.commute)
qed

lemma in_regionE:
  assumes "in_region d n x"
  obtains k where "k < n" and "x = d + of_nat k"
  using assms by (intro that [of "unat (x - d)"]) (auto simp: in_region_def)

lemma in_region_offset:
  "k < n \<Longrightarrow> n \<le> 2 ^ 32 \<Longrightarrow> in_region d n (d + of_nat k)"
  by (simp add: in_region_def unat_of_nat)

lemma move_up_apply:
  assumes "n \<le> 2 ^ 32" and "\<forall>i<n. \<forall>j<i. s + of_nat i \<noteq> d + of_nat j"
  shows "move_up m d s n x = (if in_region d n x then m (s + (x - d)) else m x)"
  using assms
proof (induction n arbitrary: m d s)
  case 0
  then show ?case by simp
next
  case (Suc n)
  have "(s + 1) + of_nat i \<noteq> (d + 1) + of_nat j" if "i < n" "j < i" for i j
    using Suc.prems(2) [rule_format, of "Suc i" "Suc j"] that by (simp add: algebra_simps)
  then have IH: "move_up (m(d := m s)) (d + 1) (s + 1) n x =
    (if in_region (d + 1) n x then (m(d := m s)) (s + 1 + (x - (d + 1))) else (m(d := m s)) x)"
    using Suc.prems(1) by (intro Suc.IH) simp_all
  have "s + (x - d) \<noteq> d" if "in_region (d + 1) n x"
  proof -
    from that obtain k where "k < n" and "x = (d + 1) + of_nat k" by (rule in_regionE)
    then show ?thesis
      using Suc.prems(2) [rule_format, of "Suc k" 0] by (simp add: algebra_simps)
  qed
  moreover have "\<not> in_region (d + 1) n d"
    using Suc.prems(1) by (simp add: in_region_def unsigned_minus_1_eq_mask mask_eq_exp_minus_1)
  ultimately show ?case
    using IH in_region_Suc [of n d x] Suc.prems(1) by auto
qed

lemma move_down_apply:
  assumes "n \<le> 2 ^ 32" and "\<forall>i<n. \<forall>j<i. s + of_nat j \<noteq> d + of_nat i"
  shows "move_down m (d + of_nat n) (s + of_nat n) n x =
    (if in_region d n x then m (s + (x - d)) else m x)"
  using assms
proof (induction n arbitrary: m)
  case 0
  then show ?case by simp
next
  case (Suc n)
  let ?m = "m(d + of_nat n := m (s + of_nat n))"
  have "move_down ?m (d + of_nat n) (s + of_nat n) n x =
    (if in_region d n x then ?m (s + (x - d)) else ?m x)"
    using Suc.prems by (intro Suc.IH) auto
  moreover have "s + (x - d) \<noteq> d + of_nat n" if "in_region d n x"
    using that Suc.prems(2) by (auto elim!: in_regionE)
  ultimately show ?case
    using Suc.prems(1) by (auto simp: in_region_snoc)
qed

lemma unat_plus_of_nat:
  fixes a :: u32
  shows "unat a + k < 2 ^ 32 \<Longrightarrow> unat (a + of_nat k) = unat a + k"
  by (simp add: unat_word_ariths unat_of_nat)

text \<open>
  Overlapping regions are handled by the choice of direction: every byte of the destination
  gets the byte the source held before the call, and nothing else changes.
\<close>

lemma memmove_apply:
  assumes s: "unat src + unat n < 2 ^ 32" and d: "unat dst + unat n \<le> 2 ^ 32"
  shows "memmove m dst src n x =
    (if in_region dst (unat n) x then m (src + (x - dst)) else m x)"
proof (cases "src < dst \<and> src + n > dst")
  case True
  have "src + of_nat j \<noteq> dst + of_nat i" if "i < unat n" "j < i" for i j
  proof
    assume "src + of_nat j = dst + of_nat i"
    then have "unat src + j = unat dst + i"
      using s d that unat_plus_of_nat [of src j] unat_plus_of_nat [of dst i] by simp
    with True that show False by (simp add: word_less_nat_alt)
  qed
  then have "move_down m (dst + of_nat (unat n)) (src + of_nat (unat n)) (unat n) x =
    (if in_region dst (unat n) x then m (src + (x - dst)) else m x)"
    using unat_lt32 [of n] by (intro move_down_apply) auto
  with True show ?thesis by (simp add: memmove_def)
next
  case False
  have "unat (src + n) = unat src + unat n"
    using s by (simp add: unat_word_ariths)
  then have order: "unat dst \<le> unat src \<or> unat src + unat n \<le> unat dst"
    using False by (auto simp: word_less_nat_alt)
  have "src + of_nat i \<noteq> dst + of_nat j" if "i < unat n" "j < i" for i j
  proof
    assume "src + of_nat i = dst + of_nat j"
    then have "unat src + i = unat dst + j"
      using s d that unat_plus_of_nat [of src i] unat_plus_of_nat [of dst j] by simp
    with order that show False by linarith
  qed
  then show ?thesis
    using False unat_lt32 [of n] move_up_apply [of "unat n" src dst m x] by (auto simp: memmove_def)
qed

section \<open>Comparing memory and strings\<close>

lemma memcmp_eq_0:
  "memcmp m v1 v2 n = 0 \<longleftrightarrow> (\<forall>i<unat n. m (v1 + of_nat i) = m (v2 + of_nat i))"
proof -
  have "memcmp_loop m v1 v2 k = 0 \<longleftrightarrow> (\<forall>i<k. m (v1 + of_nat i) = m (v2 + of_nat i))" for k
  proof (induction k arbitrary: v1 v2)
    case (Suc k)
    have "(\<forall>i<Suc k. m (v1 + of_nat i) = m (v2 + of_nat i)) \<longleftrightarrow>
      m v1 = m v2 \<and> (\<forall>i<k. m (v1 + 1 + of_nat i) = m (v2 + 1 + of_nat i))"
      by (simp add: All_less_Suc2 add.assoc)
    then show ?case by (auto simp: Suc.IH word_uint_eq_iff [of "m v1" "m v2"])
  qed simp
  then show ?thesis by (simp add: memcmp_def)
qed

lemma strncmp_eq_0:
  "strncmp m p q n = 0 \<longleftrightarrow>
    (\<forall>i<unat n. (\<forall>j<i. m (p + of_nat j) \<noteq> 0) \<longrightarrow> m (p + of_nat i) = m (q + of_nat i))"
proof -
  have "strncmp_loop m p q k = 0 \<longleftrightarrow>
    (\<forall>i<k. (\<forall>j<i. m (p + of_nat j) \<noteq> 0) \<longrightarrow> m (p + of_nat i) = m (q + of_nat i))" for k
  proof (induction k arbitrary: p q)
    case (Suc k)
    have "(\<forall>i<Suc k. (\<forall>j<i. m (p + of_nat j) \<noteq> 0) \<longrightarrow> m (p + of_nat i) = m (q + of_nat i)) \<longleftrightarrow>
      m p = m q \<and> (m p \<noteq> 0 \<longrightarrow>
        (\<forall>i<k. (\<forall>j<i. m (p + 1 + of_nat j) \<noteq> 0) \<longrightarrow> m (p + 1 + of_nat i) = m (q + 1 + of_nat i)))"
      by (auto simp add: All_less_Suc2 add.assoc)
    then show ?case by (auto simp: Suc.IH word_uint_eq_iff [of "m p" "m q"])
  qed simp
  then show ?thesis by (simp add: strncmp_def)
qed

section \<open>Copying strings\<close>

text \<open>The \<open>n\<close> bytes at \<open>s\<close> and the \<open>n\<close> bytes at \<open>t\<close> do not overlap.\<close>

definition separate :: "addr \<Rightarrow> addr \<Rightarrow> nat \<Rightarrow> bool" where
  "separate s t n \<longleftrightarrow> (\<forall>i<n. \<forall>j<n. s + of_nat i \<noteq> t + of_nat j)"

lemma separate_Suc: "separate s t (Suc n) \<Longrightarrow> separate (s + 1) (t + 1) n"
  unfolding separate_def
proof (intro allI impI)
  fix i j
  assume "\<forall>i<Suc n. \<forall>j<Suc n. s + of_nat i \<noteq> t + of_nat j" and "i < n" and "j < n"
  then have "s + of_nat (Suc i) \<noteq> t + of_nat (Suc j)" by blast
  then show "s + 1 + of_nat i \<noteq> t + 1 + of_nat j" by (simp add: algebra_simps)
qed

lemma separate_src:
  assumes "separate s t (Suc n)" and "j < n"
  shows "t + 1 + of_nat j \<noteq> s"
proof -
  have "s + of_nat 0 \<noteq> t + of_nat (Suc j)"
    using assms unfolding separate_def by blast
  then show ?thesis by (simp add: add.assoc)
qed

lemma offset_Suc: "t + of_nat (Suc j) = t + 1 + of_nat j" for t :: u32
  by simp

lemma zero_rest_apply: "n \<le> 2 ^ 32 \<Longrightarrow> zero_rest m s n x = (if in_region s n x then 0 else m x)"
  by (induction n arbitrary: m s) (auto simp: in_region_Suc)

lemma first_not_in_rest: "n < 2 ^ 32 \<Longrightarrow> \<not> in_region (s + 1) n s"
  by (simp add: in_region_def unsigned_minus_1_eq_mask mask_eq_exp_minus_1)

lemma strncpy_loop_outside:
  "n \<le> 2 ^ 32 \<Longrightarrow> \<not> in_region s n x \<Longrightarrow> strncpy_loop m s t n x = m x"
  by (induction n arbitrary: m s t) (auto simp: in_region_Suc zero_rest_apply Let_def)

lemma strncpy_loop_inside:
  "n \<le> 2 ^ 32 \<Longrightarrow> separate s t n \<Longrightarrow> k < n \<Longrightarrow>
    strncpy_loop m s t n (s + of_nat k) =
      (if \<exists>j<k. m (t + of_nat j) = 0 then 0 else m (t + of_nat k))"
proof (induction n arbitrary: m s t k)
  case 0
  then show ?case by simp
next
  case (Suc n)
  let ?m = "m(s := m t)"
  show ?case
  proof (cases k)
    case 0
    then show ?thesis
      using Suc.prems(1) first_not_in_rest [of n s]
      by (auto simp: Let_def strncpy_loop_outside zero_rest_apply)
  next
    case (Suc k')
    have k': "k' < n" using Suc Suc.prems by simp
    have src: "?m (t + 1 + of_nat j) = m (t + 1 + of_nat j)" if "j < n" for j
      using separate_src [OF Suc.prems(2) that] by simp
    have step: "(\<exists>j<Suc k'. m (t + of_nat j) = 0) \<longleftrightarrow> m t = 0 \<or> (\<exists>j<k'. m (t + 1 + of_nat j) = 0)"
      by (simp add: Ex_less_Suc2 add.assoc)
    have "strncpy_loop ?m (s + 1) (t + 1) n (s + 1 + of_nat k') =
      (if \<exists>j<k'. ?m (t + 1 + of_nat j) = 0 then 0 else ?m (t + 1 + of_nat k'))"
      using Suc.prems k' by (intro Suc.IH separate_Suc) simp_all
    also have "\<dots> = (if \<exists>j<k'. m (t + 1 + of_nat j) = 0 then 0 else m (t + 1 + of_nat k'))"
      using k' by (simp add: src del: fun_upd_apply cong: conj_cong)
    finally show ?thesis
      unfolding Suc offset_Suc step
      using Suc.prems(1) k' in_region_offset [of k' n "s + 1"]
      by (auto simp: Let_def zero_rest_apply)
  qed
qed

lemma strncpy_apply:
  assumes "n \<le> 2 ^ 32" and "separate s t (nat n)"
  shows "k < nat n \<Longrightarrow> strncpy m s t n (s + of_nat k) =
      (if \<exists>j<k. m (t + of_nat j) = 0 then 0 else m (t + of_nat k))"
    and "\<not> in_region s (nat n) x \<Longrightarrow> strncpy m s t n x = m x"
proof -
  have n: "nat n \<le> 2 ^ 32" using assms(1) by simp
  show "k < nat n \<Longrightarrow> strncpy m s t n (s + of_nat k) =
      (if \<exists>j<k. m (t + of_nat j) = 0 then 0 else m (t + of_nat k))"
    using strncpy_loop_inside [OF n assms(2)] by (simp add: strncpy_def)
  show "\<not> in_region s (nat n) x \<Longrightarrow> strncpy m s t n x = m x"
    using strncpy_loop_outside [OF n] by (simp add: strncpy_def)
qed

lemma safestrcpy_loop_outside:
  "n < 2 ^ 32 \<Longrightarrow> \<not> in_region s (Suc n) x \<Longrightarrow> safestrcpy_loop m s t n x = m x"
proof (induction n arbitrary: m s t)
  case (Suc n)
  have out: "\<not> in_region (s + 1) (Suc n) x" and ne: "x \<noteq> s"
    using Suc.prems in_region_Suc [of "Suc n" s x] by auto
  then have "x \<noteq> s + 1"
    using Suc.prems(1) in_region_Suc [of n "s + 1" x] by auto
  moreover have "safestrcpy_loop (m(s := m t)) (s + 1) (t + 1) n x = (m(s := m t)) x"
    using Suc.prems(1) out by (intro Suc.IH) simp_all
  ultimately show ?case using ne by (simp add: Let_def)
qed (simp add: in_region_Suc)

text \<open>The copied length: the source string, cut to the room left for the NUL.\<close>

lemma safestrcpy_loop_copies:
  "n < 2 ^ 32 \<Longrightarrow> separate s t (Suc n) \<Longrightarrow>
    k \<le> n \<Longrightarrow> \<forall>j<k. m (t + of_nat j) \<noteq> 0 \<Longrightarrow> k = n \<or> m (t + of_nat k) = 0 \<Longrightarrow>
    safestrcpy_loop m s t n (s + of_nat k) = 0 \<and>
    (\<forall>j<k. safestrcpy_loop m s t n (s + of_nat j) = m (t + of_nat j))"
proof (induction n arbitrary: m s t k)
  case 0
  then show ?case by simp
next
  case (Suc n)
  let ?m = "m(s := m t)"
  have src: "?m (t + 1 + of_nat j) = m (t + 1 + of_nat j)" if "j < Suc n" for j
    using separate_src [OF Suc.prems(2) that] by simp
  show ?case
  proof (cases k)
    case 0
    then show ?thesis using Suc.prems by (simp add: Let_def)
  next
    case (Suc k')
    have k': "k' \<le> n" using Suc Suc.prems(3) by simp
    have nz: "m t \<noteq> 0" and nzs: "\<forall>j<k'. m (t + 1 + of_nat j) \<noteq> 0"
      using Suc Suc.prems(4) by (simp_all add: All_less_Suc2 add.assoc)
    have IH: "safestrcpy_loop ?m (s + 1) (t + 1) n (s + 1 + of_nat k') = 0 \<and>
      (\<forall>j<k'. safestrcpy_loop ?m (s + 1) (t + 1) n (s + 1 + of_nat j) = ?m (t + 1 + of_nat j))"
    proof (rule Suc.IH)
      show "\<forall>j<k'. ?m (t + 1 + of_nat j) \<noteq> 0"
        using nzs k' by (simp add: src del: fun_upd_apply)
      show "k' = n \<or> ?m (t + 1 + of_nat k') = 0"
        using Suc Suc.prems(5) k' by (simp add: src del: fun_upd_apply) (simp add: add.assoc)
    qed (use k' Suc.prems separate_Suc in auto)
    have "\<not> in_region (s + 1) (Suc n) s"
      using Suc.prems(1) first_not_in_rest [of "Suc n" s] by simp
    then have first: "safestrcpy_loop ?m (s + 1) (t + 1) n s = m t"
      using Suc.prems(1) by (subst safestrcpy_loop_outside) auto
    have rest: "\<forall>j<k'. safestrcpy_loop ?m (s + 1) (t + 1) n (s + 1 + of_nat j) = m (t + 1 + of_nat j)"
      using IH k' by (simp add: src del: fun_upd_apply)
    show ?thesis
      using IH first rest nz Suc by (simp add: Let_def All_less_Suc2 add.assoc)
  qed
qed

section \<open>String length\<close>

lemma strlen_from_finds:
  "cstr_len m s (n + k) \<Longrightarrow> strlen_from m s n = Some (n + k)"
proof (induction k arbitrary: n)
  case 0
  then show ?case by (simp add: strlen_from.simps cstr_len_def)
next
  case (Suc k)
  then have "m (s + of_nat n) \<noteq> 0" by (simp add: cstr_len_def)
  then show ?case
    using Suc.IH [of "Suc n"] Suc.prems by (simp add: strlen_from.simps [of m s n])
qed

lemma strlen_finds: "cstr_len m s k \<Longrightarrow> strlen m s = Some k"
  using strlen_from_finds [of m s 0 k] by (simp add: strlen_def)

section \<open>Parts of a region\<close>

lemma in_region_part:
  assumes "in_region (k + of_nat i) n x" and "i + n \<le> N" and "N \<le> 2 ^ 32"
  shows "in_region k N x"
proof -
  from assms(1) obtain a where "a < n" "x = k + of_nat i + of_nat a" by (rule in_regionE)
  then have "x = k + of_nat (i + a)" "i + a < N" using assms(2) by (simp_all add: add.assoc)
  then show ?thesis using assms(3) by (simp only: in_region_offset)
qed

lemma in_region_apart:
  assumes "in_region (k + of_nat i) n x" and "in_region (k + of_nat j) n' x"
    and "i + n \<le> 2 ^ 32" and "j + n' \<le> 2 ^ 32"
  shows "i < j + n' \<and> j < i + n"
proof -
  from assms(1) obtain a where a: "a < n" "x = k + of_nat i + of_nat a" by (rule in_regionE)
  from assms(2) obtain b where b: "b < n'" "x = k + of_nat j + of_nat b" by (rule in_regionE)
  have "(of_nat (i + a) :: u32) = of_nat (j + b)" using a b by (simp add: add.assoc)
  then have "unat (of_nat (i + a) :: u32) = unat (of_nat (j + b) :: u32)" by simp
  moreover have "i + a < 2 ^ 32" "j + b < 2 ^ 32" using a b assms(3,4) by linarith+
  ultimately have "i + a = j + b" by (simp add: unat_of_nat del: of_nat_add)
  then show ?thesis using a(1) b(1) by linarith
qed

lemma load32_cong: "(\<And>x. in_region a 4 x \<Longrightarrow> m x = m' x) \<Longrightarrow> load32 m a = load32 m' a"
  by (simp add: load32_def in_region_4)

lemma load32_store32_other:
  assumes "i + 4 \<le> j \<or> j + 4 \<le> i" and "i + 4 \<le> 2 ^ 32" and "j + 4 \<le> 2 ^ 32"
  shows "load32 (store32 m (k + of_nat i) v) (k + of_nat j) = load32 m (k + of_nat j)"
proof (rule load32_cong)
  fix x assume "in_region (k + of_nat j) 4 x"
  with assms have "\<not> in_region (k + of_nat i) 4 x"
    using in_region_apart [of k j 4 x i 4] by linarith
  then show "store32 m (k + of_nat i) v x = m x" by (rule store32_outside)
qed

lemma load32_memset_other:
  assumes "i + unat n \<le> j \<or> j + 4 \<le> i" and "i + unat n \<le> 2 ^ 32" and "j + 4 \<le> 2 ^ 32"
  shows "load32 (memset m (k + of_nat i) c n) (k + of_nat j) = load32 m (k + of_nat j)"
proof (rule load32_cong)
  fix x assume "in_region (k + of_nat j) 4 x"
  with assms have "\<not> in_region (k + of_nat i) (unat n) x"
    using in_region_apart [of k j 4 x i "unat n"] by linarith
  then show "memset m (k + of_nat i) c n x = m x" by (simp add: memset_apply)
qed

section \<open>Properties\<close>

text \<open>
  C16: \<^verbatim>\<open>memmove\<close> copies \<open>n\<close> bytes correctly even when source and destination overlap: every
  byte of the destination is the byte the source had before the call, and no other byte of
  memory changes, as long as neither range wraps around the address space.
\<close>

theorem memmove_correct:
  assumes "unat src + unat n < 2 ^ 32" and "unat dst + unat n \<le> 2 ^ 32"
  shows "memmove m dst src n x = (if in_region dst (unat n) x then m (src + (x - dst)) else m x)"
  using assms by (rule memmove_apply)

theorem memmove_correct_witness:
  "memmove (\<lambda>a. ucast a) 0x1002 0x1000 4 0x1005 = 3"
  using memmove_correct [of "0x1000" 4 "0x1002" "\<lambda>a. ucast a" "0x1005"]
  by (simp add: in_region_def)

text \<open>
  C17: \<^verbatim>\<open>safestrcpy\<close> always leaves a NUL-terminated string: the copy holds the longest prefix of
  the source that fits into \<open>n - 1\<close> bytes, then a NUL, and nothing outside the \<open>n\<close> bytes of the
  destination changes.
\<close>

theorem safestrcpy_correct:
  assumes "0 < n" "n \<le> 2 ^ 32" "separate s t (nat n)"
    and "\<forall>j<k. m (t + of_nat j) \<noteq> 0" "k = nat n - 1 \<or> k < nat n - 1 \<and> m (t + of_nat k) = 0"
  shows "safestrcpy m s t n (s + of_nat k) = 0 \<and>
    (\<forall>j<k. safestrcpy m s t n (s + of_nat j) = m (t + of_nat j)) \<and>
    (\<forall>x. \<not> in_region s (nat n) x \<longrightarrow> safestrcpy m s t n x = m x)"
proof -
  have n: "nat (n - 1) < 2 ^ 32" "Suc (nat (n - 1)) = nat n" "nat (n - 1) = nat n - 1"
    using assms(1,2) by simp_all
  show ?thesis
    using assms n safestrcpy_loop_copies [of "nat (n - 1)" s t k m]
      safestrcpy_loop_outside [of "nat (n - 1)" s _ m t]
    by (auto simp: safestrcpy_def)
qed

lemma separate_below:
  assumes "unat s + n \<le> unat t" "unat t + n \<le> 2 ^ 32"
  shows "separate s t n"
  unfolding separate_def
proof (intro allI impI)
  fix i j assume "i < n" "j < n"
  then have "unat (s + of_nat i) = unat s + i" "unat (t + of_nat j) = unat t + j"
    using assms by (simp_all add: unat_plus_of_nat)
  then show "s + of_nat i \<noteq> t + of_nat j" using assms \<open>i < n\<close> by auto
qed

theorem safestrcpy_correct_witness:
  "safestrcpy ((\<lambda>_. 0)(0x20 := 104, 0x21 := 105)) 0x10 0x20 16 (0x10 + 2) = 0"
proof -
  have "separate (0x10 :: addr) 0x20 16" by (rule separate_below) simp_all
  moreover have "\<forall>j<2. ((\<lambda>_. 0 :: u8)(0x20 := 104, 0x21 := 105)) (0x20 + of_nat j :: addr) \<noteq> 0"
    by (auto simp: less_2_cases_iff)
  ultimately show ?thesis
    using safestrcpy_correct [of 16 "0x10" "0x20" 2 "(\<lambda>_. 0)(0x20 := 104, 0x21 := 105)"] by simp
qed

end
