(* ===== verification/Xv6_Kalloc.thy ===== *)
theory Xv6_Kalloc
  imports Xv6_Spinlock Xv6_String
begin

text \<open>
  \<^verbatim>\<open>kalloc.c\<close>: the physical page allocator. The free pages form a singly linked list threaded
  through the pages themselves; the model keeps the list in byte memory as the code does.
  \<open>free_list\<close> abstracts it to the list of free pages, and the allocator is shown to implement
  the interface \<open>page_allocator\<close>, which the clients of \<^verbatim>\<open>kalloc\<close>/\<^verbatim>\<open>kfree\<close> rely on.
\<close>

section \<open>State and operations\<close>

text \<open>
  \<open>kend\<close> is the linker symbol \<^verbatim>\<open>end\<close>: the first address after the kernel image.
\<close>

record kmem_st = kst +
  mem :: memory
  kend :: addr
  use_lock :: bool
  freelist :: addr

definition kfree :: "addr \<Rightarrow> 'a kmem_st_scheme \<Rightarrow> 'a kmem_st_scheme res" where
  "kfree v s =
     (if v mod PGSIZE \<noteq> 0 \<or> v < kend s \<or> V2P v \<ge> PHYSTOP then Panic ''kfree''
      else let s = s\<lparr>mem := memset (mem s) v 1 PGSIZE\<rparr>
           in bindr (if use_lock s then acquire KmemLock s else Ok s) (\<lambda>s.
              let s = s\<lparr>mem := store32 (mem s) v (freelist s)\<rparr>;
                  s = s\<lparr>freelist := v\<rparr>
              in if use_lock s then release KmemLock s else Ok s))"

definition kalloc :: "'a kmem_st_scheme \<Rightarrow> (addr \<times> 'a kmem_st_scheme) res" where
  "kalloc s =
     bindr (if use_lock s then acquire KmemLock s else Ok s) (\<lambda>s.
     let r = freelist s;
         s = (if r \<noteq> 0 then s\<lparr>freelist := load32 (mem s) r\<rparr> else s)
     in bindr (if use_lock s then release KmemLock s else Ok s) (\<lambda>s. Ok (r, s)))"

lemma V2P_in_range: "V2P v < PHYSTOP \<longleftrightarrow> 0x80000000 \<le> unat v \<and> unat v < 0x8E000000"
  by (auto simp: V2P_def PHYSTOP_def KERNBASE_def word_less_nat_alt unat_sub_if')

lemma kfree_range: "kfree v s = Ok s' \<Longrightarrow> unat v < 0x8E000000"
  using V2P_in_range [of v] by (auto simp: kfree_def split: if_splits)

lemma unat_plus_PGSIZE: "unat p < 0x8E000000 \<Longrightarrow> unat (p + PGSIZE) = unat p + 4096"
  by (simp add: PGSIZE_def unat_word_ariths)

function freerange_loop :: "addr \<Rightarrow> addr \<Rightarrow> 'a kmem_st_scheme \<Rightarrow> 'a kmem_st_scheme res" where
  "freerange_loop p vend s =
     (if p + PGSIZE \<le> vend then bindr (kfree p s) (\<lambda>s. freerange_loop (p + PGSIZE) vend s) else Ok s)"
  by pat_completeness auto
termination
proof (relation "measure (\<lambda>(p, vend, s). 2 ^ 32 - unat p)", goal_cases)
  case (2 p vend s s')
  from 2(2) have "unat p < 0x8E000000" by (rule kfree_range)
  then show ?case by (simp add: unat_plus_PGSIZE)
qed simp

declare freerange_loop.simps [simp del]

definition freerange :: "addr \<Rightarrow> addr \<Rightarrow> 'a kmem_st_scheme \<Rightarrow> 'a kmem_st_scheme res" where
  "freerange vstart vend s = freerange_loop (PGROUNDUP vstart) vend s"

definition kinit1 :: "addr \<Rightarrow> addr \<Rightarrow> 'a kmem_st_scheme \<Rightarrow> 'a kmem_st_scheme res" where
  "kinit1 vstart vend s =
     (let s = initlock KmemLock s; s = s\<lparr>use_lock := False\<rparr> in freerange vstart vend s)"

definition kinit2 :: "addr \<Rightarrow> addr \<Rightarrow> 'a kmem_st_scheme \<Rightarrow> 'a kmem_st_scheme res" where
  "kinit2 vstart vend s = bindr (freerange vstart vend s) (\<lambda>s. Ok (s\<lparr>use_lock := True\<rparr>))"

section \<open>The locks do not interfere with the allocator's fields\<close>

lemma kmem_crit [simp]:
  "mem (enter l s) = mem s" "freelist (enter l s) = freelist s"
  "kend (enter l s) = kend s" "use_lock (enter l s) = use_lock s"
  "mem (settle s) = mem s" "freelist (settle s) = freelist s"
  "kend (settle s) = kend s" "use_lock (settle s) = use_lock s"
  by (simp_all add: enter_def settle_def set_cpu_def split: option.split)

lemma kmem_crit_upd [simp]:
  "(enter l s)\<lparr>mem := m\<rparr> = enter l (s\<lparr>mem := m\<rparr>)"
  "(enter l s)\<lparr>freelist := f\<rparr> = enter l (s\<lparr>freelist := f\<rparr>)"
  "(settle s)\<lparr>mem := m\<rparr> = settle (s\<lparr>mem := m\<rparr>)"
  "(settle s)\<lparr>freelist := f\<rparr> = settle (s\<lparr>freelist := f\<rparr>)"
  by (simp_all add: enter_def settle_def set_cpu_def cpu_index_def split: option.split)

lemma kmem_cpu_ok [simp]:
  "cpu_ok (s\<lparr>mem := m\<rparr>) = cpu_ok s" "cpu_ok (s\<lparr>freelist := f\<rparr>) = cpu_ok s"
  by (simp_all add: cpu_ok_def cpu_index_def split: option.split)

text \<open>\<open>lock_cycle\<close>: what \<open>kalloc\<close> and \<open>kfree\<close> leave on the CPU, with and without \<open>use_lock\<close>.\<close>

definition lock_cycle :: "'a kmem_st_scheme \<Rightarrow> 'a kmem_st_scheme" where
  "lock_cycle s = (if use_lock s then settle s else s)"

definition kmem_ready :: "'a kmem_st_scheme \<Rightarrow> bool" where
  "kmem_ready s \<longleftrightarrow> (use_lock s \<longrightarrow> cpu_ok s \<and> locks s KmemLock = unlocked)"

lemma kfree_eq:
  assumes "kmem_ready s" and "v mod PGSIZE = 0" "kend s \<le> v" "V2P v < PHYSTOP"
  shows "kfree v s = Ok (lock_cycle (s\<lparr>mem := store32 (memset (mem s) v 1 PGSIZE) v (freelist s), freelist := v\<rparr>))"
  using assms by (auto simp: kfree_def kmem_ready_def Let_def crit_simps lock_cycle_def)

lemma kalloc_eq:
  assumes "kmem_ready s"
  shows "kalloc s = Ok (freelist s,
    lock_cycle (if freelist s \<noteq> 0 then s\<lparr>freelist := load32 (mem s) (freelist s)\<rparr> else s))"
  using assms by (auto simp: kalloc_def kmem_ready_def Let_def crit_simps lock_cycle_def)

section \<open>The free list\<close>

text \<open>\<open>free_list m p xs\<close>: following the \<^verbatim>\<open>next\<close> pointers from \<open>p\<close> visits exactly the pages \<open>xs\<close>.\<close>

primrec free_list :: "memory \<Rightarrow> addr \<Rightarrow> addr list \<Rightarrow> bool" where
  "free_list m p [] \<longleftrightarrow> p = 0"
| "free_list m p (x # xs) \<longleftrightarrow> p = x \<and> x \<noteq> 0 \<and> free_list m (load32 m x) xs"

definition page_ok :: "'a kmem_st_scheme \<Rightarrow> addr \<Rightarrow> bool" where
  "page_ok s v \<longleftrightarrow> v mod PGSIZE = 0 \<and> kend s \<le> v \<and> V2P v < PHYSTOP"

definition kmem_inv :: "'a kmem_st_scheme \<Rightarrow> addr list \<Rightarrow> bool" where
  "kmem_inv s xs \<longleftrightarrow> kmem_ready s \<and> free_list (mem s) (freelist s) xs \<and> distinct xs \<and>
     (\<forall>x\<in>set xs. page_ok s x)"

definition page_bytes :: "addr \<Rightarrow> addr set" where
  "page_bytes v = {x. in_region v 4096 x}"

lemma page_mod: "v mod PGSIZE = 0 \<longleftrightarrow> 4096 dvd unat v"
  by (simp add: PGSIZE_def word_unat_eq_iff unat_mod dvd_eq_mod_eq_0)

text \<open>Distinct pages have no byte in common.\<close>

lemma pages_disjoint:
  assumes "v mod PGSIZE = 0" "w mod PGSIZE = 0" "v \<noteq> w"
  shows "page_bytes v \<inter> page_bytes w = {}"
proof (rule ccontr)
  assume "page_bytes v \<inter> page_bytes w \<noteq> {}"
  then obtain x where x: "in_region v 4096 x" "in_region w 4096 x"
    by (auto simp: page_bytes_def)
  obtain a b where ab: "unat v = 4096 * a" "unat w = 4096 * b"
    using assms(1,2) by (auto simp: page_mod elim!: dvdE)
  have lt: "4096 * a < 2 ^ 32" "4096 * b < 2 ^ 32"
    using unat_lt32 [of v] unat_lt32 [of w] ab by simp_all
  have "in_region u 4096 x \<Longrightarrow> unat u = 4096 * k \<Longrightarrow> unat x div 4096 = k" for u k
  proof -
    assume u: "in_region u 4096 x" "unat u = 4096 * k"
    from u(1) obtain j where j: "j < 4096" "x = u + of_nat j" by (rule in_regionE)
    have "4096 * k + 4096 \<le> 2 ^ 32" using unat_lt32 [of u] u(2) by simp
    then have "unat x = 4096 * k + j" using j u(2) unat_plus_of_nat [of u j] by simp
    then show "unat x div 4096 = k" using j(1) by simp
  qed
  then have "a = b" using x ab by metis
  then show False using ab assms(3) by (simp add: word_unat_eq_iff)
qed

lemma in_region_mono: "in_region a n x \<Longrightarrow> n \<le> n' \<Longrightarrow> in_region a n' x"
  by (simp add: in_region_def)

lemma free_list_cong:
  "(\<And>x a. x \<in> set xs \<Longrightarrow> in_region x 4 a \<Longrightarrow> m a = m' a) \<Longrightarrow> free_list m p xs = free_list m' p xs"
proof (induction xs arbitrary: p)
  case (Cons x xs)
  have "load32 m x = load32 m' x" by (rule load32_cong) (rule Cons.prems, simp_all)
  moreover have "free_list m q xs = free_list m' q xs" for q
    by (rule Cons.IH) (rule Cons.prems, simp_all)
  ultimately show ?case by simp
qed simp

lemma page_ok_cong: "kend s' = kend s \<Longrightarrow> page_ok s' = page_ok s"
  by (simp add: page_ok_def fun_eq_iff)

lemma page_ok_nonzero: "page_ok s v \<Longrightarrow> v \<noteq> 0"
  by (auto simp: page_ok_def V2P_in_range)

lemma lock_cycle_sel [simp]:
  "mem (lock_cycle s) = mem s" "freelist (lock_cycle s) = freelist s"
  "kend (lock_cycle s) = kend s" "use_lock (lock_cycle s) = use_lock s"
  "kmem_ready (lock_cycle s) = kmem_ready s" "page_ok (lock_cycle s) = page_ok s"
  by (auto simp: lock_cycle_def kmem_ready_def page_ok_def fun_eq_iff)

lemma kmem_ready_upd [simp]:
  "kmem_ready (s\<lparr>mem := m\<rparr>) = kmem_ready s" "kmem_ready (s\<lparr>freelist := f\<rparr>) = kmem_ready s"
  by (simp_all add: kmem_ready_def)

lemma page_ok_upd [simp]:
  "page_ok (s\<lparr>mem := m\<rparr>) = page_ok s" "page_ok (s\<lparr>freelist := f\<rparr>) = page_ok s"
  by (simp_all add: page_ok_def fun_eq_iff)

lemma kmem_inv_lock_cycle [simp]: "kmem_inv (lock_cycle s) xs = kmem_inv s xs"
  by (simp add: kmem_inv_def)

lemma kmem_inv_cong:
  "mem s = mem t \<Longrightarrow> freelist s = freelist t \<Longrightarrow> kend s = kend t \<Longrightarrow> use_lock s = use_lock t \<Longrightarrow>
    cpu_ok s = cpu_ok t \<Longrightarrow> locks s KmemLock = locks t KmemLock \<Longrightarrow> kmem_inv s xs = kmem_inv t xs"
  using page_ok_cong [of s t] by (simp add: kmem_inv_def kmem_ready_def)

text \<open>Writing into an allocated page does not disturb the free list.\<close>

lemma kmem_inv_write:
  assumes inv: "kmem_inv s xs" and k: "page_ok s k" "k \<notin> set xs"
    and m: "\<And>a. a \<notin> page_bytes k \<Longrightarrow> m a = mem s a"
  shows "kmem_inv (s\<lparr>mem := m\<rparr>) xs"
proof -
  have "m a = mem s a" if "x \<in> set xs" "in_region x 4 a" for x a
  proof (rule m)
    have "page_bytes k \<inter> page_bytes x = {}"
      using that inv k by (intro pages_disjoint) (auto simp: kmem_inv_def page_ok_def)
    moreover have "a \<in> page_bytes x" using that(2) by (auto simp: page_bytes_def in_region_mono)
    ultimately show "a \<notin> page_bytes k" by blast
  qed
  then have "free_list m (freelist s) xs = free_list (mem s) (freelist s) xs"
    by (rule free_list_cong)
  then show ?thesis using inv by (simp add: kmem_inv_def)
qed

lemma kfree_memory:
  "store32 (memset m v 1 PGSIZE) v w a =
    (if in_region v 4 a then store32 m v w a else if in_region v 4096 a then 1 else m a)"
  by (auto simp: store32_outside memset_apply PGSIZE_def) (auto simp: in_region_4 store32_def)

lemma kfree_spec:
  assumes inv: "kmem_inv s xs" and v: "page_ok s v" and new: "v \<notin> set xs"
  shows "succeeds (kfree v s) (\<lambda>s'. kmem_inv s' (v # xs) \<and> kend s' = kend s \<and>
    use_lock s' = use_lock s \<and> (\<forall>a. a \<notin> page_bytes v \<longrightarrow> mem s' a = mem s a))"
proof -
  let ?m = "store32 (memset (mem s) v 1 PGSIZE) v (freelist s)"
  have other: "?m a = mem s a" if "a \<notin> page_bytes v" for a
    using that in_region_mono [of v 4 a 4096] by (auto simp: kfree_memory page_bytes_def)
  have "free_list ?m (freelist s) xs"
    using kmem_inv_write [OF inv v new other] by (simp add: kmem_inv_def)
  then have "kmem_inv (s\<lparr>mem := ?m, freelist := v\<rparr>) (v # xs)"
    using inv v new page_ok_nonzero [OF v] by (simp add: kmem_inv_def)
  moreover have "kmem_ready s" using inv by (simp add: kmem_inv_def)
  ultimately show ?thesis
    using v other by (simp add: kfree_eq page_ok_def)
qed

lemma kalloc_spec:
  assumes inv: "kmem_inv s xs"
  shows "succeeds (kalloc s) (\<lambda>(r, s'). mem s' = mem s \<and> kend s' = kend s \<and> use_lock s' = use_lock s \<and>
    (case xs of [] \<Rightarrow> r = 0 \<and> kmem_inv s' [] | x # ys \<Rightarrow> r = x \<and> kmem_inv s' ys))"
proof -
  have "kmem_ready s" using inv by (simp add: kmem_inv_def)
  then show ?thesis
    using inv by (cases xs) (auto simp: kalloc_eq kmem_inv_def page_ok_nonzero)
qed

section \<open>The allocator as an interface\<close>

text \<open>
  What the users of the allocator rely on: \<open>pages s xs\<close> says that exactly the pages \<open>xs\<close> are
  free in \<open>s\<close>, \<open>usable\<close> which pages may be freed, \<open>bytes\<close> the memory.
\<close>

locale page_allocator =
  fixes alloc :: "'s \<Rightarrow> (addr \<times> 's) res"
    and free :: "addr \<Rightarrow> 's \<Rightarrow> 's res"
    and pages :: "'s \<Rightarrow> addr list \<Rightarrow> bool"
    and usable :: "'s \<Rightarrow> addr \<Rightarrow> bool"
    and bytes :: "'s \<Rightarrow> memory"
  assumes alloc_some: "pages s (x # xs) \<Longrightarrow>
      succeeds (alloc s) (\<lambda>(r, s'). r = x \<and> pages s' xs \<and> bytes s' = bytes s \<and> usable s' = usable s)"
    and alloc_none: "pages s [] \<Longrightarrow>
      succeeds (alloc s) (\<lambda>(r, s'). r = 0 \<and> pages s' [] \<and> bytes s' = bytes s \<and> usable s' = usable s)"
    and free_page: "pages s xs \<Longrightarrow> usable s v \<Longrightarrow> v \<notin> set xs \<Longrightarrow>
      succeeds (free v s) (\<lambda>s'. pages s' (v # xs) \<and> usable s' = usable s \<and>
        (\<forall>a. a \<notin> page_bytes v \<longrightarrow> bytes s' a = bytes s a))"
    and pages_distinct: "pages s xs \<Longrightarrow> distinct xs"
    and pages_usable: "pages s xs \<Longrightarrow> x \<in> set xs \<Longrightarrow> usable s x \<and> x \<noteq> 0"

text \<open>A client that takes \<open>n\<close> pages, one call after the other.\<close>

fun alloc_n :: "('s \<Rightarrow> (addr \<times> 's) res) \<Rightarrow> nat \<Rightarrow> 's \<Rightarrow> (addr list \<times> 's) res" where
  "alloc_n f 0 s = Ok ([], s)"
| "alloc_n f (Suc n) s =
     bindr (f s) (\<lambda>(p, s). bindr (alloc_n f n s) (\<lambda>(ps, s). Ok (p # ps, s)))"

context page_allocator
begin

lemma alloc_n_pages:
  "pages s xs \<Longrightarrow> succeeds (alloc_n alloc n s) (\<lambda>(ps, s').
    ps = take n xs @ replicate (n - length xs) 0 \<and> pages s' (drop n xs) \<and>
    bytes s' = bytes s \<and> usable s' = usable s)"
proof (induction n arbitrary: s xs)
  case 0
  then show ?case by simp
next
  case (Suc n)
  show ?case
  proof (cases xs)
    case Nil
    have "succeeds (alloc s) (\<lambda>(r, s'). r = 0 \<and> pages s' [] \<and> bytes s' = bytes s \<and> usable s' = usable s)"
      using Suc.prems Nil by (intro alloc_none) simp
    then obtain s' where "alloc s = Ok (0, s')" "pages s' []" "bytes s' = bytes s" "usable s' = usable s"
      by (auto simp: succeeds_iff)
    with Suc.IH [of s' "[]"] Nil show ?thesis by (auto simp: succeeds_iff)
  next
    case (Cons x ys)
    have "succeeds (alloc s) (\<lambda>(r, s'). r = x \<and> pages s' ys \<and> bytes s' = bytes s \<and> usable s' = usable s)"
      using Suc.prems Cons by (intro alloc_some) simp
    then obtain s' where "alloc s = Ok (x, s')" "pages s' ys" "bytes s' = bytes s" "usable s' = usable s"
      by (auto simp: succeeds_iff)
    with Suc.IH [of s' ys] Cons show ?thesis by (auto simp: succeeds_iff)
  qed
qed

text \<open>Pages handed out are pairwise different, different from every page still free, and usable.\<close>

lemma alloc_n_fresh:
  assumes "pages s xs" and "n \<le> length xs"
  shows "succeeds (alloc_n alloc n s) (\<lambda>(ps, s'). \<exists>ys. pages s' ys \<and> length ps = n \<and> distinct (ps @ ys) \<and>
    set ps \<union> set ys = set xs \<and> (\<forall>p\<in>set ps. usable s p \<and> p \<noteq> 0))"
proof (rule succeeds_mono [OF alloc_n_pages [OF assms(1)]])
  fix r :: "addr list \<times> 's"
  assume "case r of (ps, s') \<Rightarrow> ps = take n xs @ replicate (n - length xs) 0 \<and> pages s' (drop n xs) \<and>
    bytes s' = bytes s \<and> usable s' = usable s"
  then obtain s' where r: "r = (take n xs, s')" and s': "pages s' (drop n xs)"
    using assms(2) by (cases r) auto
  have "distinct xs" by (rule pages_distinct [OF assms(1)])
  moreover from this have "set (take n xs) \<inter> set (drop n xs) = {}"
    by (intro set_take_disj_set_drop_if_distinct) simp_all
  moreover have "set (take n xs) \<union> set (drop n xs) = set xs"
    by (metis append_take_drop_id set_append)
  moreover have "\<forall>p\<in>set (take n xs). usable s p \<and> p \<noteq> 0"
    using pages_usable [OF assms(1)] in_set_takeD by metis
  ultimately show "case r of (ps, s') \<Rightarrow> \<exists>ys. pages s' ys \<and> length ps = n \<and> distinct (ps @ ys) \<and>
    set ps \<union> set ys = set xs \<and> (\<forall>p\<in>set ps. usable s p \<and> p \<noteq> 0)"
    unfolding r using s' assms(2) by (auto intro!: exI [of _ "drop n xs"])
qed

text \<open>A page freed is the next one allocated, and the free pages are as before.\<close>

lemma free_then_alloc:
  assumes "pages s xs" "usable s v" "v \<notin> set xs"
  shows "succeeds (bindr (free v s) alloc) (\<lambda>(r, s'). r = v \<and> pages s' xs)"
  using free_page [OF assms] by (auto simp: succeeds_iff dest!: alloc_some)

end

interpretation kmem: page_allocator kalloc kfree kmem_inv page_ok mem
proof unfold_locales
  fix s :: "'a kmem_st_scheme" and x xs
  assume "kmem_inv s (x # xs)"
  from kalloc_spec [OF this]
  show "succeeds (kalloc s) (\<lambda>(r, s'). r = x \<and> kmem_inv s' xs \<and> mem s' = mem s \<and> page_ok s' = page_ok s)"
    by (rule succeeds_mono) (auto intro: page_ok_cong)
next
  fix s :: "'a kmem_st_scheme"
  assume "kmem_inv s []"
  from kalloc_spec [OF this]
  show "succeeds (kalloc s) (\<lambda>(r, s'). r = 0 \<and> kmem_inv s' [] \<and> mem s' = mem s \<and> page_ok s' = page_ok s)"
    by (rule succeeds_mono) (auto intro: page_ok_cong)
next
  fix s :: "'a kmem_st_scheme" and xs v
  assume "kmem_inv s xs" "page_ok s v" "v \<notin> set xs"
  from kfree_spec [OF this]
  show "succeeds (kfree v s) (\<lambda>s'. kmem_inv s' (v # xs) \<and> page_ok s' = page_ok s \<and>
    (\<forall>a. a \<notin> page_bytes v \<longrightarrow> mem s' a = mem s a))"
    by (rule succeeds_mono) (auto intro: page_ok_cong)
qed (auto simp: kmem_inv_def dest: page_ok_nonzero)

section \<open>Initialisation\<close>

definition range_pages :: "addr \<Rightarrow> addr \<Rightarrow> addr list" where
  "range_pages p vend = map (\<lambda>i. p + of_nat (4096 * i)) [0..<(unat vend - unat p) div 4096]"

lemma range_pages_Cons:
  assumes "unat p + 4096 \<le> unat vend"
  shows "range_pages p vend = p # range_pages (p + PGSIZE) vend"
proof -
  let ?n = "(unat vend - (unat p + 4096)) div 4096"
  have "unat (p + PGSIZE) = unat p + 4096"
    using assms unat_lt32 [of vend] by (simp add: PGSIZE_def unat_word_ariths)
  moreover have "unat vend - unat p = unat vend - (unat p + 4096) + 4096"
    using assms by simp
  then have "(unat vend - unat p) div 4096 = Suc ?n"
    by (simp only: div_add_self2)
  moreover have "[0..<Suc ?n] = 0 # map Suc [0..<?n]"
    by (simp add: map_Suc_upt upt_conv_Cons del: upt_Suc)
  moreover have "p + of_nat (4096 * Suc i) = p + PGSIZE + of_nat (4096 * i)" for i
    by (simp add: PGSIZE_def algebra_simps)
  ultimately show ?thesis
    by (simp add: range_pages_def o_def del: of_nat_mult upt_Suc)
qed

lemma range_pages_Nil: "unat vend < unat p + 4096 \<Longrightarrow> range_pages p vend = []"
  by (simp add: range_pages_def)

text \<open>\<open>freerange\<close> puts every whole page of the range on the free list, and only those.\<close>

lemma freerange_loop_spec:
  assumes "kmem_inv s xs" and "\<forall>p\<in>set (range_pages p vend). page_ok s p"
    and "set (range_pages p vend) \<inter> set xs = {}" and "distinct (range_pages p vend)"
    and "unat p + 4096 < 2 ^ 32"
  shows "succeeds (freerange_loop p vend s) (\<lambda>s'. kmem_inv s' (rev (range_pages p vend) @ xs) \<and>
    kend s' = kend s \<and> use_lock s' = use_lock s)"
  using assms
proof (induction p vend s arbitrary: xs rule: freerange_loop.induct)
  case (1 p vend s)
  have next_p: "unat (p + PGSIZE) = unat p + 4096"
    using 1(6) by (simp add: PGSIZE_def unat_word_ariths)
  show ?case
  proof (cases "p + PGSIZE \<le> vend")
    case True
    then have "unat p + 4096 \<le> unat vend" using next_p by (simp add: word_le_nat_alt)
    then have rp: "range_pages p vend = p # range_pages (p + PGSIZE) vend" by (rule range_pages_Cons)
    have "page_ok s p" "p \<notin> set xs" using 1(3,4) by (auto simp: rp)
    from kfree_spec [OF 1(2) this] obtain s' where s': "kfree p s = Ok s'" "kmem_inv s' (p # xs)"
      "kend s' = kend s" "use_lock s' = use_lock s" by (auto simp: succeeds_iff)
    have ok: "page_ok s' = page_ok s" by (rule page_ok_cong) (rule s'(3))
    have "unat (p + PGSIZE) + 4096 < 2 ^ 32" using kfree_range [OF s'(1)] next_p by simp
    then have "succeeds (freerange_loop (p + PGSIZE) vend s') (\<lambda>t.
      kmem_inv t (rev (range_pages (p + PGSIZE) vend) @ p # xs) \<and> kend t = kend s' \<and> use_lock t = use_lock s')"
      using 1(3-5) True s'(1,2) ok by (intro 1(1)) (auto simp: rp)
    then show ?thesis using True s' by (simp add: freerange_loop.simps [of p] rp)
  next
    case False
    then have "unat vend < unat p + 4096" using next_p by (simp add: word_le_nat_alt)
    then show ?thesis using False 1(2) by (simp add: freerange_loop.simps [of p] range_pages_Nil)
  qed
qed

section \<open>Properties\<close>

text \<open>
  C9: pages handed out by a sequence of \<^verbatim>\<open>kalloc\<close> calls are pairwise different, page-aligned
  pages between the kernel's end and \<^verbatim>\<open>PHYSTOP\<close>; none of them is on the free list any more; free
  and allocated pages together are the pages that were free before; when the list runs out
  (\<open>n\<close> larger than the number of free pages) the remaining calls return 0.
\<close>

theorem kalloc_pages_fresh:
  assumes "kmem_inv s xs"
  shows "succeeds (alloc_n kalloc n s) (\<lambda>(ps, s'). ps = take n xs @ replicate (n - length xs) 0 \<and>
    kmem_inv s' (drop n xs) \<and> mem s' = mem s) \<and>
    (n \<le> length xs \<longrightarrow> succeeds (alloc_n kalloc n s) (\<lambda>(ps, s'). \<exists>ys. kmem_inv s' ys \<and> length ps = n \<and>
      distinct (ps @ ys) \<and> set ps \<union> set ys = set xs \<and> (\<forall>p\<in>set ps. page_ok s p \<and> p \<noteq> 0)))"
proof (intro conjI impI)
  show "succeeds (alloc_n kalloc n s) (\<lambda>(ps, s'). ps = take n xs @ replicate (n - length xs) 0 \<and>
    kmem_inv s' (drop n xs) \<and> mem s' = mem s)"
    by (rule succeeds_mono [OF kmem.alloc_n_pages [OF assms]]) auto
qed (rule kmem.alloc_n_fresh [OF assms])

definition boot_kmem :: kmem_st where
  "boot_kmem = kst.extend boot_kst \<lparr>mem = (\<lambda>_. 0), kend = 0x80120000, use_lock = True, freelist = 0x80130000\<rparr>"

lemma boot_kmem_inv: "kmem_inv boot_kmem [0x80130000]"
  by (simp add: kmem_inv_def kmem_ready_def boot_kmem_def boot_kst_def boot_cpu_def kst.defs cpu_ok_def
      cpu_index_def page_ok_def PGSIZE_def V2P_def KERNBASE_def PHYSTOP_def load32_def join32_def)

theorem kalloc_pages_fresh_witness:
  "\<exists>s'. alloc_n kalloc 2 boot_kmem = Ok ([0x80130000, 0], s') \<and> kmem_inv s' []"
  using kalloc_pages_fresh [OF boot_kmem_inv, of 2] by (auto simp: succeeds_iff)

text \<open>
  C10: \<^verbatim>\<open>kfree\<close> accepts exactly the pages of physical memory above the kernel: for such a page
  that is not already free it puts the page at the head of the free list, touches no byte
  outside that page, and the next \<^verbatim>\<open>kalloc\<close> returns it; for any other address it panics.
\<close>

theorem kfree_correct:
  assumes "kmem_inv s xs" and "v \<notin> set xs"
  shows "if page_ok s v
    then succeeds (kfree v s) (\<lambda>s'. kmem_inv s' (v # xs) \<and> (\<forall>a. a \<notin> page_bytes v \<longrightarrow> mem s' a = mem s a)) \<and>
      succeeds (bindr (kfree v s) kalloc) (\<lambda>(r, s'). r = v \<and> kmem_inv s' xs)
    else kfree v s = Panic ''kfree''"
proof (cases "page_ok s v")
  case True
  then show ?thesis
    using kmem.free_then_alloc [OF assms(1) True assms(2)] succeeds_mono [OF kmem.free_page [OF assms(1) True assms(2)]]
    by auto
next
  case False
  then have "v mod PGSIZE \<noteq> 0 \<or> v < kend s \<or> V2P v \<ge> PHYSTOP"
    unfolding page_ok_def by (meson not_less)
  then have "kfree v s = Panic ''kfree''" by (simp only: kfree_def if_True)
  with False show ?thesis by simp
qed

theorem kfree_correct_witness:
  "\<exists>s'. bindr (kfree 0x80131000 boot_kmem) kalloc = Ok (0x80131000, s') \<and> kmem_inv s' [0x80130000]"
proof -
  have "page_ok boot_kmem 0x80131000"
    by (simp add: page_ok_def boot_kmem_def kst.defs PGSIZE_def V2P_def KERNBASE_def PHYSTOP_def)
  then show ?thesis
    using kfree_correct [OF boot_kmem_inv, of "0x80131000"] by (auto simp: succeeds_iff)
qed

end
