(* ===== verification/Xv6_Proc.thy ===== *)
theory Xv6_Proc
  imports Xv6_Kalloc
begin

text \<open>
  The process table of \<^verbatim>\<open>proc.c\<close>: allocation of a slot and its kernel stack, sleep and wakeup,
  kill, and the switches between a process and the per-CPU scheduler. A process is named by
  its index in the table; trap frame and context are byte ranges of its kernel stack in
  memory. The functions that also need the file system (\<^verbatim>\<open>fork\<close>, \<^verbatim>\<open>exit\<close>, \<^verbatim>\<open>wait\<close>) come later.
\<close>

section \<open>State\<close>

datatype procstate = UNUSED | EMBRYO | SLEEPING | RUNNABLE | RUNNING | ZOMBIE

record proc =
  psz :: u32
  pgdir :: addr
  kstack :: addr
  pstate :: procstate
  pid :: int
  parent :: "nat option"
  ptf :: addr
  pcontext :: addr
  pchan :: "chan option"
  killed :: bool
  ofile :: "nat option list"
  cwd :: "nat option"
  pname :: "u8 list"

text \<open>
  \<open>trapret\<close> and \<open>forkret\<close> are the addresses of that code; \<open>cr3\<close> and \<open>esp0\<close> are the page
  table register and the kernel stack pointer in the task segment of the executing CPU.
\<close>

record proc_st = kmem_st +
  procs :: "proc list"
  nextpid :: int
  initproc :: "nat option"
  trapret :: addr
  forkret :: addr
  kpgdir :: addr
  cr3 :: u32
  esp0 :: u32

definition set_proc :: "nat \<Rightarrow> (proc \<Rightarrow> proc) \<Rightarrow> 'a proc_st_scheme \<Rightarrow> 'a proc_st_scheme" where
  "set_proc i f s = s\<lparr>procs := (procs s)[i := f (procs s ! i)]\<rparr>"

definition pinit :: "'a proc_st_scheme \<Rightarrow> 'a proc_st_scheme" where
  "pinit s = initlock PtableLock s"

section \<open>Allocating a process\<close>

text \<open>Sizes of \<^verbatim>\<open>struct trapframe\<close> (\<^verbatim>\<open>x86.h\<close>) and \<^verbatim>\<open>struct context\<close> (\<^verbatim>\<open>proc.h\<close>), offsets of their fields.\<close>

definition sizeof_trapframe :: u32 where "sizeof_trapframe = 76"
definition sizeof_context :: u32 where "sizeof_context = 20"
definition tf_eax :: u32 where "tf_eax = 28"
definition tf_eip :: u32 where "tf_eip = 56"
definition tf_esp :: u32 where "tf_esp = 68"
definition context_eip :: u32 where "context_eip = 16"

definition allocproc :: "'a proc_st_scheme \<Rightarrow> (nat option \<times> 'a proc_st_scheme) res" where
  "allocproc s =
     bindr (acquire PtableLock s) (\<lambda>s.
     case first_idx (\<lambda>p. pstate p = UNUSED) (procs s) of
       None \<Rightarrow> bindr (release PtableLock s) (\<lambda>s. Ok (None, s))
     | Some i \<Rightarrow>
         let s = set_proc i (\<lambda>p. p\<lparr>pstate := EMBRYO\<rparr>) s;
             n = nextpid s;
             s = set_proc i (\<lambda>p. p\<lparr>pid := n\<rparr>) s;
             s = s\<lparr>nextpid := n + 1\<rparr>
         in bindr (release PtableLock s) (\<lambda>s.
            bindr (kalloc s) (\<lambda>(k, s).
            let s = set_proc i (\<lambda>p. p\<lparr>kstack := k\<rparr>) s
            in if k = 0 then Ok (None, set_proc i (\<lambda>p. p\<lparr>pstate := UNUSED\<rparr>) s)
               else let sp = k + KSTACKSIZE;
                        sp = sp - sizeof_trapframe;
                        s = set_proc i (\<lambda>p. p\<lparr>ptf := sp\<rparr>) s;
                        sp = sp - 4;
                        s = s\<lparr>mem := store32 (mem s) sp (trapret s)\<rparr>;
                        sp = sp - sizeof_context;
                        s = set_proc i (\<lambda>p. p\<lparr>pcontext := sp\<rparr>) s;
                        s = s\<lparr>mem := memset (mem s) sp 0 sizeof_context\<rparr>;
                        s = s\<lparr>mem := store32 (mem s) (sp + context_eip) (forkret s)\<rparr>
                    in Ok (Some i, s))))"

section \<open>Wakeup and kill\<close>

definition wake :: "chan option \<Rightarrow> proc \<Rightarrow> proc" where
  "wake c p = (if pstate p = SLEEPING \<and> pchan p = c then p\<lparr>pstate := RUNNABLE\<rparr> else p)"

definition wakeup1 :: "chan option \<Rightarrow> 'a proc_st_scheme \<Rightarrow> 'a proc_st_scheme" where
  "wakeup1 c s = s\<lparr>procs := map (wake c) (procs s)\<rparr>"

definition wakeup :: "chan \<Rightarrow> 'a proc_st_scheme \<Rightarrow> 'a proc_st_scheme res" where
  "wakeup c s = bindr (acquire PtableLock s) (\<lambda>s. release PtableLock (wakeup1 (Some c) s))"

definition kill :: "int \<Rightarrow> 'a proc_st_scheme \<Rightarrow> (int \<times> 'a proc_st_scheme) res" where
  "kill n s =
     bindr (acquire PtableLock s) (\<lambda>s.
     case first_idx (\<lambda>p. pid p = n) (procs s) of
       Some i \<Rightarrow>
         let s = set_proc i (\<lambda>p. p\<lparr>killed := True\<rparr>) s;
             s = (if pstate (procs s ! i) = SLEEPING then set_proc i (\<lambda>p. p\<lparr>pstate := RUNNABLE\<rparr>) s else s)
         in bindr (release PtableLock s) (\<lambda>s. Ok (0, s))
     | None \<Rightarrow> bindr (release PtableLock s) (\<lambda>s. Ok (- 1, s)))"

section \<open>Switching between processes and the scheduler\<close>

definition switchkvm :: "'a proc_st_scheme \<Rightarrow> 'a proc_st_scheme" where
  "switchkvm s = s\<lparr>cr3 := V2P (kpgdir s)\<rparr>"

text \<open>The descriptor of the task segment and its fixed fields are left out.\<close>

definition switchuvm :: "nat option \<Rightarrow> 'a proc_st_scheme \<Rightarrow> 'a proc_st_scheme res" where
  "switchuvm po s =
     (case po of None \<Rightarrow> Panic ''switchuvm: no process''
      | Some i \<Rightarrow>
          let p = procs s ! i
          in if kstack p = 0 then Panic ''switchuvm: no kstack''
             else if pgdir p = 0 then Panic ''switchuvm: no pgdir''
             else bindr (pushcli s) (\<lambda>s.
                  let s = s\<lparr>esp0 := kstack p + KSTACKSIZE\<rparr>;
                      s = s\<lparr>cr3 := V2P (pgdir p)\<rparr>
                  in popcli s))"

text \<open>
  One turn of the scheduler's loop over the table, up to the \<^verbatim>\<open>swtch\<close> into the process: \<open>None\<close>
  when slot \<open>i\<close> is not runnable and the loop goes on.
\<close>

definition scheduler_visit :: "nat \<Rightarrow> 'a proc_st_scheme \<Rightarrow> (nat option \<times> 'a proc_st_scheme) res" where
  "scheduler_visit i s =
     (if pstate (procs s ! i) \<noteq> RUNNABLE then Ok (None, s)
      else bindr (mycpu s) (\<lambda>c.
           let s = set_cpu c (\<lambda>x. x\<lparr>cproc := Some i\<rparr>) s
           in bindr (switchuvm (Some i) s) (\<lambda>s.
              Ok (Some i, set_proc i (\<lambda>p. p\<lparr>pstate := RUNNING\<rparr>) s))))"

text \<open>
  \<open>sched\<close> up to and including the switch: the checks, the \<^verbatim>\<open>swtch\<close> to the scheduler, and the two
  statements the scheduler executes when it gets the CPU back. The value is the saved
  \<^verbatim>\<open>intena\<close>, which \<open>sched_resume\<close> restores when the process runs again.
\<close>

definition sched :: "'a proc_st_scheme \<Rightarrow> (bool \<times> 'a proc_st_scheme) res" where
  "sched s =
     bindr (myproc s) (\<lambda>(po, s).
     case po of None \<Rightarrow> Panic ''sched: no process''
     | Some p \<Rightarrow>
       bindr (holding PtableLock s) (\<lambda>(h, s).
       if \<not> h then Panic ''sched ptable.lock''
       else bindr (mycpu s) (\<lambda>c.
         if ncli (cpus s c) \<noteq> 1 then Panic ''sched locks''
         else if pstate (procs s ! p) = RUNNING then Panic ''sched running''
         else if fl_if s then Panic ''sched interruptible''
         else let s = switchkvm s
              in Ok (intena (cpus s c), set_cpu c (\<lambda>x. x\<lparr>cproc := None\<rparr>) s))))"

definition sched_resume :: "bool \<Rightarrow> 'a proc_st_scheme \<Rightarrow> 'a proc_st_scheme res" where
  "sched_resume e s = bindr (mycpu s) (\<lambda>c. Ok (set_cpu c (\<lambda>x. x\<lparr>intena := e\<rparr>) s))"

text \<open>\<open>yield\<close> and \<open>sleep\<close>: the part before the switch, and the part after it.\<close>

definition yield_out :: "'a proc_st_scheme \<Rightarrow> (bool \<times> 'a proc_st_scheme) res" where
  "yield_out s =
     bindr (acquire PtableLock s) (\<lambda>s.
     bindr (myproc s) (\<lambda>(po, s).
     case po of None \<Rightarrow> Panic ''yield: no process''
     | Some p \<Rightarrow> sched (set_proc p (\<lambda>x. x\<lparr>pstate := RUNNABLE\<rparr>) s)))"

definition yield_in :: "bool \<Rightarrow> 'a proc_st_scheme \<Rightarrow> 'a proc_st_scheme res" where
  "yield_in e s = bindr (sched_resume e s) (release PtableLock)"

definition sleep_out :: "chan \<Rightarrow> lockid option \<Rightarrow> 'a proc_st_scheme \<Rightarrow> (bool \<times> 'a proc_st_scheme) res" where
  "sleep_out c lk s =
     bindr (myproc s) (\<lambda>(po, s).
     case po of None \<Rightarrow> Panic ''sleep''
     | Some p \<Rightarrow>
       (case lk of None \<Rightarrow> Panic ''sleep without lk''
        | Some l \<Rightarrow>
          bindr (if l \<noteq> PtableLock then bindr (acquire PtableLock s) (release l) else Ok s) (\<lambda>s.
          let s = set_proc p (\<lambda>x. x\<lparr>pchan := Some c\<rparr>) s;
              s = set_proc p (\<lambda>x. x\<lparr>pstate := SLEEPING\<rparr>) s
          in sched s)))"

definition sleep_in :: "nat \<Rightarrow> lockid \<Rightarrow> bool \<Rightarrow> 'a proc_st_scheme \<Rightarrow> 'a proc_st_scheme res" where
  "sleep_in p l e s =
     bindr (sched_resume e s) (\<lambda>s.
     let s = set_proc p (\<lambda>x. x\<lparr>pchan := None\<rparr>) s
     in if l \<noteq> PtableLock then bindr (release PtableLock s) (acquire l) else Ok s)"

section \<open>Locks and the process table\<close>

lemma proc_crit [simp]:
  "procs (enter l s) = procs s" "procs (settle s) = procs s" "procs (lock_cycle s) = procs s"
  "nextpid (enter l s) = nextpid s" "nextpid (settle s) = nextpid s" "nextpid (lock_cycle s) = nextpid s"
  "trapret (enter l s) = trapret s" "trapret (settle s) = trapret s" "trapret (lock_cycle s) = trapret s"
  "forkret (enter l s) = forkret s" "forkret (settle s) = forkret s" "forkret (lock_cycle s) = forkret s"
  "initproc (enter l s) = initproc s" "initproc (settle s) = initproc s" "initproc (lock_cycle s) = initproc s"
  "kpgdir (enter l s) = kpgdir s" "kpgdir (settle s) = kpgdir s" "kpgdir (lock_cycle s) = kpgdir s"
  by (simp_all add: lock_cycle_def enter_def settle_def set_cpu_def split: option.split)

lemma proc_crit_upd [simp]:
  "(enter l s)\<lparr>procs := x\<rparr> = enter l (s\<lparr>procs := x\<rparr>)"
  "(settle s)\<lparr>procs := x\<rparr> = settle (s\<lparr>procs := x\<rparr>)"
  "(lock_cycle s)\<lparr>procs := x\<rparr> = lock_cycle (s\<lparr>procs := x\<rparr>)"
  "(enter l s)\<lparr>nextpid := n\<rparr> = enter l (s\<lparr>nextpid := n\<rparr>)"
  "(settle s)\<lparr>nextpid := n\<rparr> = settle (s\<lparr>nextpid := n\<rparr>)"
  "(lock_cycle s)\<lparr>mem := m\<rparr> = lock_cycle (s\<lparr>mem := m\<rparr>)"
  by (simp_all add: lock_cycle_def enter_def settle_def set_cpu_def cpu_index_def split: option.split)

lemma proc_cpu_ok [simp]:
  "cpu_ok (s\<lparr>procs := x\<rparr>) = cpu_ok s" "cpu_ok (s\<lparr>nextpid := n\<rparr>) = cpu_ok s"
  by (simp_all add: cpu_ok_def cpu_index_def split: option.split)

lemma proc_cpu_index [simp]:
  "cpu_index (s\<lparr>procs := x\<rparr>) = cpu_index s" "cpu_index (set_proc i f s) = cpu_index s"
  by (simp_all add: cpu_index_def set_proc_def)

lemma proc_kmem_inv [simp]:
  "kmem_inv (s\<lparr>procs := x\<rparr>) xs = kmem_inv s xs" "kmem_inv (s\<lparr>nextpid := n\<rparr>) xs = kmem_inv s xs"
  "kmem_inv (settle s) xs = kmem_inv s xs"
  by (simp_all add: kmem_inv_def kmem_ready_def page_ok_def)

lemma wakeup_eq:
  assumes "cpu_ok s" and "locks s PtableLock = unlocked"
  shows "wakeup c s = Ok (settle (wakeup1 (Some c) s))"
  using assms by (simp add: wakeup_def wakeup1_def crit_simps)

lemma kill_eq:
  assumes "cpu_ok s" and "locks s PtableLock = unlocked"
  shows "kill n s =
    (case first_idx (\<lambda>p. pid p = n) (procs s) of
       None \<Rightarrow> Ok (- 1, settle s)
     | Some i \<Rightarrow> Ok (0, settle (s\<lparr>procs := (procs s)[i := (procs s ! i)\<lparr>killed := True,
         pstate := (if pstate (procs s ! i) = SLEEPING then RUNNABLE else pstate (procs s ! i))\<rparr>]\<rparr>)))"
  using assms first_idx_lt [of "\<lambda>p. pid p = n" "procs s"]
  by (auto simp: kill_def crit_simps set_proc_def Let_def split: option.split)

section \<open>Allocation of a process\<close>

text \<open>The kernel stack as \<open>allocproc\<close> lays it out below the top of page \<open>k\<close>.\<close>

definition stack_ready :: "'a proc_st_scheme \<Rightarrow> nat \<Rightarrow> bool" where
  "stack_ready s i \<longleftrightarrow>
     (let p = procs s ! i; k = kstack p
      in ptf p = k + KSTACKSIZE - sizeof_trapframe \<and>
         load32 (mem s) (ptf p - 4) = trapret s \<and>
         pcontext p = ptf p - 4 - sizeof_context \<and>
         load32 (mem s) (pcontext p + context_eip) = forkret s \<and>
         (\<forall>j<4. load32 (mem s) (pcontext p + of_nat (4 * j)) = 0))"

lemma load32_zero: "(\<And>x. in_region a 4 x \<Longrightarrow> m x = 0) \<Longrightarrow> load32 m a = 0"
  by (simp add: load32_def in_region_4 join32_def)

lemma stack_frame:
  fixes k :: addr and m :: memory and tr fr :: u32
  defines "m1 \<equiv> store32 m (k + 4016) tr"
  defines "m2 \<equiv> memset m1 (k + 3996) 0 sizeof_context"
  defines "m3 \<equiv> store32 m2 (k + 4012) fr"
  shows "load32 m3 (k + 4016) = tr" and "load32 m3 (k + 4012) = fr"
    and "j < 4 \<Longrightarrow> load32 m3 (k + 3996 + of_nat (4 * j)) = 0"
    and "a \<notin> page_bytes k \<Longrightarrow> m3 a = m a"
proof -
  have "load32 m3 (k + of_nat 4016) = load32 m2 (k + of_nat 4016)"
    unfolding m3_def using load32_store32_other [of 4012 4016 m2 k fr] by simp
  also have "\<dots> = load32 m1 (k + of_nat 4016)"
    unfolding m2_def using load32_memset_other [of 3996 sizeof_context 4016 m1 k 0]
    by (simp add: sizeof_context_def)
  finally show "load32 m3 (k + 4016) = tr" by (simp add: m1_def)
  show "load32 m3 (k + 4012) = fr" by (simp add: m3_def)
  show "load32 m3 (k + 3996 + of_nat (4 * j)) = 0" if j: "j < 4"
  proof -
    have "load32 m3 (k + of_nat (3996 + 4 * j)) = load32 m2 (k + of_nat (3996 + 4 * j))"
      unfolding m3_def using load32_store32_other [of 4012 "3996 + 4 * j" m2 k fr] j by simp
    also have "\<dots> = 0"
    proof (rule load32_zero)
      fix x assume "in_region (k + of_nat (3996 + 4 * j)) 4 x"
      then have "in_region (k + 3996 + of_nat (4 * j)) 4 x" by (simp add: add.assoc)
      then have "in_region (k + 3996) 20 x" by (rule in_region_part) (use j in simp_all)
      then show "m2 x = 0" by (simp add: m2_def memset_apply sizeof_context_def)
    qed
    finally show ?thesis by (simp add: add.assoc)
  qed
  show "m3 a = m a" if a: "a \<notin> page_bytes k"
  proof -
    have "\<not> in_region (k + of_nat 4016) 4 a" "\<not> in_region (k + of_nat 3996) 20 a"
      "\<not> in_region (k + of_nat 4012) 4 a"
      using a in_region_part [of k 4016 4 a 4096] in_region_part [of k 3996 20 a 4096]
        in_region_part [of k 4012 4 a 4096] by (auto simp: page_bytes_def)
    then show ?thesis
      by (simp add: m3_def m2_def m1_def store32_outside memset_apply sizeof_context_def)
  qed
qed

lemma stack_frame_top:
  "k + KSTACKSIZE - sizeof_trapframe = k + 4020" "k + 4020 - 4 = k + 4016"
  "k + 4016 - sizeof_context = k + 3996" "k + 3996 + context_eip = k + 4012"
  by (simp_all add: KSTACKSIZE_def sizeof_trapframe_def sizeof_context_def context_eip_def)

lemma allocproc_none:
  assumes "cpu_ok s" "locks s PtableLock = unlocked" "\<forall>p\<in>set (procs s). pstate p \<noteq> UNUSED"
  shows "allocproc s = Ok (None, settle s)"
proof -
  have "first_idx (\<lambda>p. pstate p = UNUSED) (procs s) = None" using assms(3) by (simp add: first_idx_None)
  then show ?thesis using assms(1,2) by (simp add: allocproc_def crit_simps)
qed

lemma allocproc_no_memory:
  assumes "cpu_ok s" "locks s PtableLock = unlocked" "first_idx (\<lambda>p. pstate p = UNUSED) (procs s) = Some i"
    and "kmem_inv s []"
  shows "succeeds (allocproc s) (\<lambda>(r, s'). r = None \<and> kmem_inv s' [] \<and> mem s' = mem s \<and>
    nextpid s' = nextpid s + 1 \<and>
    procs s' = (procs s)[i := (procs s ! i)\<lparr>pid := nextpid s, kstack := 0, pstate := UNUSED\<rparr>])"
proof -
  have "i < length (procs s)" using assms(3) by (rule first_idx_lt)
  moreover have "kmem_ready s" "freelist s = 0" using assms(4) by (auto simp: kmem_inv_def)
  ultimately show ?thesis
    using assms
    by (simp add: allocproc_def crit_simps Let_def set_proc_def kalloc_eq kmem_ready_def)
qed

lemma allocproc_some:
  assumes "cpu_ok s" "locks s PtableLock = unlocked" "first_idx (\<lambda>p. pstate p = UNUSED) (procs s) = Some i"
    and inv: "kmem_inv s (k # ks)"
  shows "succeeds (allocproc s) (\<lambda>(r, s'). r = Some i \<and> kmem_inv s' ks \<and>
    nextpid s' = nextpid s + 1 \<and>
    procs s' = (procs s)[i := (procs s ! i)\<lparr>pstate := EMBRYO, pid := nextpid s, kstack := k,
      ptf := k + KSTACKSIZE - sizeof_trapframe,
      pcontext := k + KSTACKSIZE - sizeof_trapframe - 4 - sizeof_context\<rparr>] \<and>
    stack_ready s' i \<and> (\<forall>a. a \<notin> page_bytes k \<longrightarrow> mem s' a = mem s a))"
proof -
  have i: "i < length (procs s)" using assms(3) by (rule first_idx_lt)
  have r: "kmem_ready s" "freelist s = k" "k \<noteq> 0" using inv by (auto simp: kmem_inv_def)
  let ?m = "store32 (memset (store32 (mem s) (k + 4016) (trapret s)) (k + 3996) 0 sizeof_context)
    (k + 4012) (forkret s)"
  let ?p = "(procs s ! i)\<lparr>pstate := EMBRYO, pid := nextpid s, kstack := k, ptf := k + 4020,
    pcontext := k + 3996\<rparr>"
  let ?s = "s\<lparr>nextpid := nextpid s + 1, freelist := load32 (mem s) k, procs := (procs s)[i := ?p], mem := ?m\<rparr>"
  have "kmem_inv (s\<lparr>freelist := load32 (mem s) k\<rparr>) ks"
    using inv by (auto simp: kmem_inv_def)
  then have "kmem_inv (s\<lparr>freelist := load32 (mem s) k, mem := ?m\<rparr>) ks"
    by (rule kmem_inv_write [of _ _ k]) (use inv in \<open>auto simp: kmem_inv_def stack_frame(4)\<close>)
  then have "kmem_inv ?s ks"
    by (rule kmem_inv_cong [THEN iffD1, rotated -1]) simp_all
  moreover have "allocproc s = Ok (Some i, lock_cycle (settle ?s))"
    using assms i r by (simp add: allocproc_def crit_simps Let_def set_proc_def kalloc_eq kmem_ready_def stack_frame_top)
  ultimately show ?thesis
    using i stack_frame [where m = "mem s" and k = k and tr = "trapret s" and fr = "forkret s"]
    by (simp add: stack_ready_def stack_frame_top)
qed

section \<open>The life of a process as a state machine\<close>

text \<open>
  The abstract view of the table: the state of each slot and what each CPU runs. The steps are
  the transitions the code may make; \<open>leave\<close> is a process giving up its CPU by \<^verbatim>\<open>yield\<close>,
  \<^verbatim>\<open>sleep\<close> or \<^verbatim>\<open>exit\<close>.
\<close>

record pview =
  pv_state :: "nat \<Rightarrow> procstate"
  pv_run :: "nat \<Rightarrow> nat option"

definition pset :: "nat \<Rightarrow> procstate \<Rightarrow> pview \<Rightarrow> pview" where
  "pset p t v = v\<lparr>pv_state := (pv_state v)(p := t)\<rparr>"

definition prun :: "nat \<Rightarrow> nat option \<Rightarrow> pview \<Rightarrow> pview" where
  "prun c r v = v\<lparr>pv_run := (pv_run v)(c := r)\<rparr>"

inductive sched_step :: "pview \<Rightarrow> pview \<Rightarrow> bool" where
  alloc: "pv_state v p = UNUSED \<Longrightarrow> sched_step v (pset p EMBRYO v)"
| abandon: "pv_state v p = EMBRYO \<Longrightarrow> sched_step v (pset p UNUSED v)"
| start: "pv_state v p = EMBRYO \<Longrightarrow> sched_step v (pset p RUNNABLE v)"
| dispatch: "pv_state v p = RUNNABLE \<Longrightarrow> pv_run v c = None \<Longrightarrow>
    sched_step v (prun c (Some p) (pset p RUNNING v))"
| leave: "pv_run v c = Some p \<Longrightarrow> t = RUNNABLE \<or> t = SLEEPING \<or> t = ZOMBIE \<Longrightarrow>
    sched_step v (prun c None (pset p t v))"
| wake: "pv_state v p = SLEEPING \<Longrightarrow> sched_step v (pset p RUNNABLE v)"
| reap: "pv_state v p = ZOMBIE \<Longrightarrow> sched_step v (pset p UNUSED v)"

text \<open>A slot is \<open>RUNNING\<close> exactly when one CPU runs it, and then only one does.\<close>

definition run_inv :: "pview \<Rightarrow> bool" where
  "run_inv v \<longleftrightarrow>
     (\<forall>c p. pv_run v c = Some p \<longrightarrow> pv_state v p = RUNNING) \<and>
     (\<forall>p. pv_state v p = RUNNING \<longrightarrow> (\<exists>c. pv_run v c = Some p)) \<and>
     (\<forall>c d p. pv_run v c = Some p \<longrightarrow> pv_run v d = Some p \<longrightarrow> c = d)"

lemma pview_sel [simp]:
  "pv_state (pset p t v) q = (if q = p then t else pv_state v q)" "pv_run (pset p t v) = pv_run v"
  "pv_run (prun c r v) d = (if d = c then r else pv_run v d)" "pv_state (prun c r v) = pv_state v"
  by (simp_all add: pset_def prun_def)

lemma run_inv_pset:
  assumes "run_inv v" "pv_state v p \<noteq> RUNNING" "t \<noteq> RUNNING"
  shows "run_inv (pset p t v)"
  using assms by (auto simp: run_inv_def)

lemma run_inv_dispatch:
  assumes "run_inv v" "pv_state v p = RUNNABLE" "pv_run v c = None"
  shows "run_inv (prun c (Some p) (pset p RUNNING v))"
proof -
  have free: "pv_run v d \<noteq> Some p" for d using assms(1,2) by (auto simp: run_inv_def)
  have other: "\<exists>d. d \<noteq> c \<and> pv_run v d = Some q" if q: "pv_state v q = RUNNING" for q
    using q assms(1,3) unfolding run_inv_def by (metis option.distinct(1))
  show ?thesis using assms(1) free other by (fastforce simp: run_inv_def)
qed

lemma run_inv_leave:
  assumes "run_inv v" "pv_run v c = Some p" "t \<noteq> RUNNING"
  shows "run_inv (prun c None (pset p t v))"
proof -
  have only: "pv_run v d = Some p \<Longrightarrow> d = c" for d using assms(1,2) by (auto simp: run_inv_def)
  have other: "\<exists>d. d \<noteq> c \<and> pv_run v d = Some q" if q: "q \<noteq> p" "pv_state v q = RUNNING" for q
    using q assms(1,2) unfolding run_inv_def by (metis option.inject)
  show ?thesis using assms(1,3) only other by (fastforce simp: run_inv_def)
qed

lemma sched_step_run_inv: "sched_step v w \<Longrightarrow> run_inv v \<Longrightarrow> run_inv w"
proof (induction rule: sched_step.induct)
  case (leave v c p t)
  then show ?case by (intro run_inv_leave) auto
qed (simp_all add: run_inv_pset run_inv_dispatch)

definition view :: "'a proc_st_scheme \<Rightarrow> pview" where
  "view s = \<lparr>pv_state = (\<lambda>p. if p < length (procs s) then pstate (procs s ! p) else UNUSED),
     pv_run = (\<lambda>c. cproc (cpus s c))\<rparr>"

definition table_ok :: "'a proc_st_scheme \<Rightarrow> bool" where
  "table_ok s \<longleftrightarrow> length (procs s) = NPROC \<and> (\<forall>c p. cproc (cpus s c) = Some p \<longrightarrow> p < NPROC)"

lemma proc_set_cpu [simp]:
  "procs (set_cpu c f s) = procs s" "mem (set_cpu c f s) = mem s"
  by (simp_all add: set_cpu_def)

lemma sched_Ok:
  assumes "cpu_ok s" and "sched s = Ok (e, s')"
  obtains c p where "cpu_index s = Some c" "cproc (cpus s c) = Some p" "pstate (procs s ! p) \<noteq> RUNNING"
    "ncli (cpus s c) = 1" "locked (locks s PtableLock)" "lcpu (locks s PtableLock) = Some c"
    "e = intena (cpus (settle s) c)" "s' = set_cpu c (\<lambda>x. x\<lparr>cproc := None\<rparr>) (switchkvm (settle s))"
proof -
  from assms(1) obtain c where c: "cpu_index s = Some c" by (rule cpu_okE)
  show ?thesis
    using assms c that
    by (auto simp: sched_def myproc_eq holding_eq mycpu_def Let_def switchkvm_def
        split: option.splits if_splits)
qed

lemma view_settle [simp]: "view (settle s) = view s" "view (enter l s) = view s"
  by (simp_all add: view_def cong: if_cong)

lemma view_set_proc:
  "i < length (procs s) \<Longrightarrow> (\<And>p. pstate (f p) = t) \<Longrightarrow> view (set_proc i f s) = pset i t (view s)"
  by (auto simp: view_def set_proc_def pset_def nth_list_update fun_eq_iff)

lemma view_set_proc_same:
  "i < length (procs s) \<Longrightarrow> (\<And>p. pstate (f p) = pstate p) \<Longrightarrow> view (set_proc i f s) = view s"
  by (auto simp: view_def set_proc_def nth_list_update fun_eq_iff)

lemma view_switch [simp]:
  "view (switchkvm s) = view s"
  "view (set_cpu c (\<lambda>x. x\<lparr>cproc := r\<rparr>) s) = prun c r (view s)"
  by (auto simp: view_def switchkvm_def prun_def set_cpu_def fun_eq_iff cong: if_cong)

text \<open>\<open>yield\<close> and \<open>sleep\<close> are \<open>leave\<close> steps of the process the CPU runs.\<close>

lemma yield_out_step:
  assumes "cpu_ok s" "locks s PtableLock = unlocked" "table_ok s" "yield_out s = Ok (e, s')"
  shows "sched_step (view s) (view s')"
proof -
  from assms(1) obtain c where c: "cpu_index s = Some c" by (rule cpu_okE)
  let ?t = "enter PtableLock s"
  from assms(4) obtain p where p: "cproc (cpus s c) = Some p"
    and sched: "sched (set_proc p (\<lambda>x. x\<lparr>pstate := RUNNABLE\<rparr>) ?t) = Ok (e, s')"
    using assms(1,2) c by (auto simp: yield_out_def crit_simps res_simps split: option.splits)
  have "p < length (procs s)" using assms(3) p by (auto simp: table_ok_def)
  then have v: "view (set_proc p (\<lambda>x. x\<lparr>pstate := RUNNABLE\<rparr>) ?t) = pset p RUNNABLE (view s)"
    by (simp add: view_set_proc)
  have "cpu_ok (set_proc p (\<lambda>x. x\<lparr>pstate := RUNNABLE\<rparr>) ?t)" using assms(1) by (simp add: set_proc_def)
  then obtain d where "cpu_index (set_proc p (\<lambda>x. x\<lparr>pstate := RUNNABLE\<rparr>) ?t) = Some d"
    and "view s' = prun d None (pset p RUNNABLE (view s))"
    using sched by (rule sched_Ok) (auto simp: v)
  moreover from this have "d = c" using c by simp
  ultimately show ?thesis
    using p sched_step.leave [of "view s" c p RUNNABLE] by (simp add: view_def)
qed

lemma sleep_out_step:
  assumes "cpu_ok s" "table_ok s" "sleep_out ch (Some PtableLock) s = Ok (e, s')"
  shows "sched_step (view s) (view s')"
proof -
  from assms(1) obtain c where c: "cpu_index s = Some c" by (rule cpu_okE)
  let ?u = "\<lambda>p. set_proc p (\<lambda>x. x\<lparr>pstate := SLEEPING\<rparr>) (set_proc p (\<lambda>x. x\<lparr>pchan := Some ch\<rparr>) (settle s))"
  from assms(3) obtain p where p: "cproc (cpus s c) = Some p" and sched: "sched (?u p) = Ok (e, s')"
    using assms(1) c by (auto simp: sleep_out_def myproc_eq res_simps Let_def split: option.splits)
  have "p < length (procs s)" using assms(2) p by (auto simp: table_ok_def)
  then have v: "view (?u p) = pset p SLEEPING (view s)"
    using view_set_proc_same [of p s "\<lambda>x. x\<lparr>pchan := Some ch\<rparr>"]
    by (subst view_set_proc) (simp_all add: set_proc_def)
  have "cpu_ok (?u p)" using assms(1) by (simp add: set_proc_def)
  then obtain d where "cpu_index (?u p) = Some d" and "view s' = prun d None (pset p SLEEPING (view s))"
    using sched by (rule sched_Ok) (auto simp: v)
  moreover from this have "d = c" using c by simp
  ultimately show ?thesis
    using p sched_step.leave [of "view s" c p SLEEPING] by (simp add: view_def)
qed

lemma proc_reg [simp]:
  "(settle s)\<lparr>esp0 := a\<rparr> = settle (s\<lparr>esp0 := a\<rparr>)" "(settle s)\<lparr>cr3 := a\<rparr> = settle (s\<lparr>cr3 := a\<rparr>)"
  "set_cpu c f (s\<lparr>esp0 := a\<rparr>) = (set_cpu c f s)\<lparr>esp0 := a\<rparr>"
  "set_cpu c f (s\<lparr>cr3 := a\<rparr>) = (set_cpu c f s)\<lparr>cr3 := a\<rparr>"
  "cpu_ok (s\<lparr>esp0 := a\<rparr>) = cpu_ok s" "cpu_ok (s\<lparr>cr3 := a\<rparr>) = cpu_ok s"
  "cpu_index (s\<lparr>esp0 := a\<rparr>) = cpu_index s" "cpu_index (s\<lparr>cr3 := a\<rparr>) = cpu_index s"
  by (simp_all add: settle_def set_cpu_def cpu_index_def cpu_ok_def split: option.split)

lemma switchuvm_eq:
  assumes "cpu_ok s" "kstack (procs s ! i) \<noteq> 0" "pgdir (procs s ! i) \<noteq> 0"
  shows "switchuvm (Some i) s =
    Ok (settle (s\<lparr>esp0 := kstack (procs s ! i) + KSTACKSIZE, cr3 := V2P (pgdir (procs s ! i))\<rparr>))"
proof -
  from assms(1) obtain c where c: "cpu_index s = Some c" by (rule cpu_okE)
  let ?s = "s\<lparr>esp0 := kstack (procs s ! i) + KSTACKSIZE, cr3 := V2P (pgdir (procs s ! i))\<rparr>"
  let ?p = "(set_cpu c (\<lambda>c. c\<lparr>ncli := ncli c + 1\<rparr>) (settle ?s))\<lparr>fl_if := False\<rparr>"
  have "popcli ?p = Ok (settle ?s)" using assms(1) c by (intro popcli_pushed) simp_all
  moreover have "((set_cpu c (\<lambda>c. c\<lparr>ncli := ncli c + 1\<rparr>) (settle s))\<lparr>fl_if := False\<rparr>)
      \<lparr>esp0 := kstack (procs s ! i) + KSTACKSIZE, cr3 := V2P (pgdir (procs s ! i))\<rparr> = ?p"
    using c by (simp add: settle_def set_cpu_def)
  ultimately show ?thesis using assms(2,3) by (simp add: switchuvm_def pushcli_eq [OF c] Let_def)
qed

text \<open>The scheduler dispatches a runnable process on an idle CPU.\<close>

lemma scheduler_visit_step:
  assumes "cpu_ok s" "\<not> fl_if s" "i < length (procs s)" "cpu_index s = Some c" "cproc (cpus s c) = None"
    and "pstate (procs s ! i) = RUNNABLE" "kstack (procs s ! i) \<noteq> 0" "pgdir (procs s ! i) \<noteq> 0"
  shows "succeeds (scheduler_visit i s) (\<lambda>(r, s'). r = Some i \<and> sched_step (view s) (view s') \<and>
    cr3 s' = V2P (pgdir (procs s ! i)) \<and> esp0 s' = kstack (procs s ! i) + KSTACKSIZE)"
proof -
  let ?s1 = "set_cpu c (\<lambda>x. x\<lparr>cproc := Some i\<rparr>) s"
  have ok: "cpu_ok ?s1" using assms(1,4) by (simp add: cpu_ok_def cpu_index_set_cpu)
  let ?s2 = "settle (?s1\<lparr>esp0 := kstack (procs s ! i) + KSTACKSIZE, cr3 := V2P (pgdir (procs s ! i))\<rparr>)"
  let ?s3 = "set_proc i (\<lambda>p. p\<lparr>pstate := RUNNING\<rparr>) ?s2"
  have "scheduler_visit i s = Ok (Some i, ?s3)"
    using assms switchuvm_eq [OF ok, of i] by (simp add: scheduler_visit_def mycpu_def Let_def)
  moreover have "view ?s3 = prun c (Some i) (pset i RUNNING (view s))"
    using assms(3) by (subst view_set_proc [where t = RUNNING])
      (auto simp: pset_def prun_def view_def fun_eq_iff)
  moreover have "sched_step (view s) (prun c (Some i) (pset i RUNNING (view s)))"
    using assms by (intro sched_step.dispatch) (simp_all add: view_def)
  moreover have "cr3 ?s3 = V2P (pgdir (procs s ! i))" "esp0 ?s3 = kstack (procs s ! i) + KSTACKSIZE"
    by (simp_all add: set_proc_def settle_def split: option.split)
  ultimately show ?thesis by simp
qed

text \<open>Waking any set of sleepers is a sequence of \<open>wake\<close> steps.\<close>

lemma wake_many:
  assumes "finite A" "\<forall>p\<in>A. pv_state v p = SLEEPING"
  shows "sched_step\<^sup>*\<^sup>* v (v\<lparr>pv_state := (\<lambda>p. if p \<in> A then RUNNABLE else pv_state v p)\<rparr>)"
  using assms
proof (induction A arbitrary: v rule: finite_induct)
  case empty
  then show ?case by simp
next
  case (insert p A)
  have "sched_step v (pset p RUNNABLE v)" using insert.prems by (intro sched_step.wake) simp
  moreover have "sched_step\<^sup>*\<^sup>* (pset p RUNNABLE v)
    ((pset p RUNNABLE v)\<lparr>pv_state := (\<lambda>q. if q \<in> A then RUNNABLE else pv_state (pset p RUNNABLE v) q)\<rparr>)"
    using insert by (intro insert.IH) auto
  moreover have "(\<lambda>q. if q \<in> A then RUNNABLE else pv_state (pset p RUNNABLE v) q) =
    (\<lambda>q. if q \<in> insert p A then RUNNABLE else pv_state v q)" by auto
  ultimately show ?case
    by (simp add: pset_def converse_rtranclp_into_rtranclp)
qed

lemma wakeup1_steps: "sched_step\<^sup>*\<^sup>* (view s) (view (wakeup1 c s))"
proof -
  let ?A = "{p. p < length (procs s) \<and> pstate (procs s ! p) = SLEEPING \<and> pchan (procs s ! p) = c}"
  have "view (wakeup1 c s) = (view s)\<lparr>pv_state := (\<lambda>p. if p \<in> ?A then RUNNABLE else pv_state (view s) p)\<rparr>"
    by (auto simp: view_def wakeup1_def wake_def fun_eq_iff)
  moreover have "finite ?A" by simp
  moreover have "\<forall>p\<in>?A. pv_state (view s) p = SLEEPING" by (simp add: view_def)
  ultimately show ?thesis using wake_many [of ?A "view s"] by simp
qed

section \<open>Properties\<close>


definition free_proc :: proc where
  "free_proc = \<lparr>psz = 0, pgdir = 0, kstack = 0, pstate = UNUSED, pid = 0, parent = None, ptf = 0,
     pcontext = 0, pchan = None, killed = False, ofile = replicate 16 None, cwd = None, pname = []\<rparr>"

definition boot_proc :: proc_st where
  "boot_proc = kmem_st.extend boot_kmem \<lparr>procs = replicate NPROC free_proc, nextpid = 1, initproc = None,
     trapret = 0x80105000, forkret = 0x80104000, kpgdir = 0x80110000, cr3 = 0, esp0 = 0\<rparr>"

lemma boot_proc_ok: "cpu_ok boot_proc" "locks boot_proc l = unlocked" "kmem_inv boot_proc [0x80130000]"
proof -
  show "cpu_ok boot_proc" "locks boot_proc l = unlocked"
    by (simp_all add: boot_proc_def boot_kmem_def boot_kst_def boot_cpu_def kst.defs kmem_st.defs cpu_ok_def cpu_index_def)
  then show "kmem_inv boot_proc [0x80130000]"
    using boot_kmem_inv
    by (simp add: kmem_inv_def kmem_ready_def page_ok_def boot_proc_def boot_kmem_def boot_kst_def kst.defs kmem_st.defs)
qed






end
