(* ===== verification/Xv6_Sleeplock.thy ===== *)
theory Xv6_Sleeplock
  imports Xv6_Proc
begin

text \<open>
  \<^verbatim>\<open>sleeplock.c\<close>. A sleep lock is named by its address, used as sleep channel; the state maps
  the names to the locks. The code is run by one process: where it calls \<^verbatim>\<open>sleep\<close> because
  another process holds the lock, the result is \<open>Blocks\<close>.

  The second part fixes the setting in which the file system code is analysed: \<open>calm\<close> states,
  in which the executing process holds no spinlock, and the relation \<open>undisturbed\<close> between
  states that differ, below the file system, only by sleepers that have been woken.
\<close>

section \<open>State and operations\<close>

text \<open>\<^verbatim>\<open>struct sleeplock\<close>; its spinlock \<^verbatim>\<open>lk\<close> is \<open>SleepLk c\<close>, and the name is left out.\<close>

record sleeplock =
  slocked :: bool
  spid :: int

record slp_st = proc_st +
  slocks :: "chan \<Rightarrow> sleeplock"

definition set_slock :: "chan \<Rightarrow> (sleeplock \<Rightarrow> sleeplock) \<Rightarrow> 'a slp_st_scheme \<Rightarrow> 'a slp_st_scheme" where
  "set_slock c f s = s\<lparr>slocks := (slocks s)(c := f (slocks s c))\<rparr>"

definition initsleeplock :: "chan \<Rightarrow> 'a slp_st_scheme \<Rightarrow> 'a slp_st_scheme" where
  "initsleeplock c s =
     (let s = initlock (SleepLk c) s;
          s = set_slock c (\<lambda>k. k\<lparr>slocked := False\<rparr>) s
      in set_slock c (\<lambda>k. k\<lparr>spid := 0\<rparr>) s)"

text \<open>\<^verbatim>\<open>myproc()->pid\<close>; without a process the code dereferences a null pointer.\<close>

definition mypid :: "'a proc_st_scheme \<Rightarrow> (int \<times> 'a proc_st_scheme) res" where
  "mypid s =
     bindr (myproc s) (\<lambda>(po, s).
     case po of None \<Rightarrow> Panic ''null proc'' | Some p \<Rightarrow> Ok (pid (procs s ! p), s))"

definition acquiresleep :: "chan \<Rightarrow> 'a slp_st_scheme \<Rightarrow> 'a slp_st_scheme res" where
  "acquiresleep c s =
     bindr (acquire (SleepLk c) s) (\<lambda>s.
     if slocked (slocks s c) then Blocks
     else let s = set_slock c (\<lambda>k. k\<lparr>slocked := True\<rparr>) s
          in bindr (mypid s) (\<lambda>(n, s).
             release (SleepLk c) (set_slock c (\<lambda>k. k\<lparr>spid := n\<rparr>) s)))"

definition releasesleep :: "chan \<Rightarrow> 'a slp_st_scheme \<Rightarrow> 'a slp_st_scheme res" where
  "releasesleep c s =
     bindr (acquire (SleepLk c) s) (\<lambda>s.
     let s = set_slock c (\<lambda>k. k\<lparr>slocked := False\<rparr>) s;
         s = set_slock c (\<lambda>k. k\<lparr>spid := 0\<rparr>) s
     in bindr (wakeup c s) (release (SleepLk c)))"

definition holdingsleep :: "chan \<Rightarrow> 'a slp_st_scheme \<Rightarrow> (bool \<times> 'a slp_st_scheme) res" where
  "holdingsleep c s =
     bindr (acquire (SleepLk c) s) (\<lambda>s.
     bindr (if slocked (slocks s c)
            then bindr (mypid s) (\<lambda>(n, s). Ok (spid (slocks s c) = n, s))
            else Ok (False, s)) (\<lambda>(r, s).
     bindr (release (SleepLk c) s) (\<lambda>s. Ok (r, s))))"

section \<open>Calm states\<close>

definition cur :: "'a kst_scheme \<Rightarrow> nat" where
  "cur s = the (cproc (cpus s (the (cpu_index s))))"

definition cur_pid :: "'a proc_st_scheme \<Rightarrow> int" where
  "cur_pid s = pid (procs s ! cur s)"

text \<open>
  The executing CPU runs a process, no spinlock is taken, and the interrupt state is already
  recorded, so that a balanced pair of \<open>acquire\<close> and \<open>release\<close> changes nothing.
\<close>

definition settled :: "'a kst_scheme \<Rightarrow> bool" where
  "settled s \<longleftrightarrow> (\<forall>i. cpu_index s = Some i \<longrightarrow> ncli (cpus s i) = 0 \<longrightarrow> intena (cpus s i) = fl_if s)"

lemma settled_settle: "settled s \<Longrightarrow> settle s = s"
  by (simp add: settle_def settled_def set_cpu_id split: option.split)

definition calm :: "'a proc_st_scheme \<Rightarrow> bool" where
  "calm s \<longleftrightarrow> quiet s \<and> settled s \<and> cproc (cpus s (the (cpu_index s))) \<noteq> None \<and> cur s < length (procs s)"

lemma calm_cpu_ok [simp]: "calm s \<Longrightarrow> cpu_ok s"
  by (simp add: calm_def quiet_def)

lemma calm_lock [simp]: "calm s \<Longrightarrow> locks s l = unlocked"
  by (simp add: calm_def quiet_def)

lemma calm_settle [simp]: "calm s \<Longrightarrow> settle s = s"
  by (simp add: calm_def settled_settle)

lemma calm_acquire [simp]: "calm s \<Longrightarrow> acquire l s = Ok (enter l s)"
  by (simp add: acquire_free)

lemma calm_release [simp]: "calm s \<Longrightarrow> release l (enter l s) = Ok s"
  by (simp add: release_enter)

lemma calm_myproc [simp]: "calm s \<Longrightarrow> myproc s = Ok (Some (cur s), s)"
  by (auto simp: myproc_eq calm_def cur_def quietD)

lemma calm_mypid [simp]: "calm s \<Longrightarrow> mypid s = Ok (cur_pid s, s)"
  by (simp add: mypid_def cur_pid_def)

lemma calm_mypid_enter [simp]: "calm s \<Longrightarrow> mypid (enter l s) = Ok (cur_pid s, enter l s)"
  by (auto simp: mypid_def cur_pid_def myproc_eq calm_def cur_def quietD)

text \<open>
  \<open>same_cpu\<close>: the two states agree on the processor and the locks; \<open>calm\<close> depends on nothing
  else but the number of processes.
\<close>

definition same_cpu :: "'a kst_scheme \<Rightarrow> 'b kst_scheme \<Rightarrow> bool" where
  "same_cpu s t \<longleftrightarrow> lapicid t = lapicid s \<and> fl_if t = fl_if s \<and> ncpu t = ncpu s \<and> cpus t = cpus s \<and> locks t = locks s"

lemma same_cpu_index: "same_cpu s t \<Longrightarrow> cpu_index t = cpu_index s"
  by (simp add: same_cpu_def cpu_index_def)

lemma calm_cong:
  assumes "same_cpu s t" and "length (procs t) = length (procs s)"
  shows "calm t = calm s"
proof -
  have e: "cpus t = cpus s" "fl_if t = fl_if s" "locks t = locks s" "cpu_index t = cpu_index s"
    using assms(1) same_cpu_index [of s t] by (simp_all add: same_cpu_def)
  show ?thesis
    unfolding calm_def quiet_def settled_def cpu_ok_def cur_def e assms(2) ..
qed

text \<open>What \<^verbatim>\<open>wakeup\<close> calls may do to the process table.\<close>

definition woken :: "proc list \<Rightarrow> proc list \<Rightarrow> bool" where
  "woken ps qs \<longleftrightarrow> list_all2 (\<lambda>p q. q = p \<or> pstate p = SLEEPING \<and> q = p\<lparr>pstate := RUNNABLE\<rparr>) ps qs"

lemma woken_refl [simp]: "woken ps ps"
  by (simp add: woken_def list_all2_refl)

lemma woken_trans: "woken ps qs \<Longrightarrow> woken qs rs \<Longrightarrow> woken ps rs"
  unfolding woken_def by (rule list_all2_trans) auto

lemma woken_wake [simp]: "woken ps (map (wake c) ps)"
  by (auto simp: woken_def wake_def list_all2_conv_all_nth)

lemma woken_length: "woken ps qs \<Longrightarrow> length qs = length ps"
  by (simp add: woken_def list_all2_lengthD)

lemma woken_nth:
  "woken ps qs \<Longrightarrow> i < length ps \<Longrightarrow> qs ! i = ps ! i \<or> qs ! i = (ps ! i)\<lparr>pstate := RUNNABLE\<rparr>"
  by (auto simp: woken_def list_all2_conv_all_nth)

text \<open>
  \<open>undisturbed s t\<close>: from \<open>s\<close> to \<open>t\<close> nothing has changed below the file system but sleepers
  that have been woken.
\<close>

definition undisturbed :: "'a proc_st_scheme \<Rightarrow> 'b proc_st_scheme \<Rightarrow> bool" where
  "undisturbed s t \<longleftrightarrow> same_cpu s t \<and> mem t = mem s \<and> kend t = kend s \<and> use_lock t = use_lock s \<and>
     freelist t = freelist s \<and> nextpid t = nextpid s \<and> initproc t = initproc s \<and> trapret t = trapret s \<and>
     forkret t = forkret s \<and> kpgdir t = kpgdir s \<and> cr3 t = cr3 s \<and> esp0 t = esp0 s \<and>
     woken (procs s) (procs t)"

lemma undisturbed_refl [simp]: "undisturbed s s"
  by (simp add: undisturbed_def same_cpu_def)

lemma undisturbed_trans [trans]: "undisturbed s t \<Longrightarrow> undisturbed t u \<Longrightarrow> undisturbed s u"
  by (auto simp: undisturbed_def same_cpu_def intro: woken_trans)

lemma undisturbed_calm: "undisturbed s t \<Longrightarrow> calm t = calm s"
  by (auto simp: undisturbed_def dest: woken_length intro!: calm_cong)

lemma undisturbed_cur: "undisturbed s t \<Longrightarrow> cur t = cur s"
  using same_cpu_index [of s t] by (auto simp: undisturbed_def cur_def same_cpu_def)

lemma undisturbed_cur_pid: "undisturbed s t \<Longrightarrow> calm s \<Longrightarrow> cur_pid t = cur_pid s"
  using undisturbed_cur [of s t] woken_nth [of "procs s" "procs t" "cur s"]
  by (auto simp: cur_pid_def calm_def undisturbed_def)

section \<open>The sleep lock of a calm process\<close>

lemma slp_crit [simp]:
  "slocks (enter l s) = slocks s" "slocks (settle s) = slocks s"
  "(enter l s)\<lparr>slocks := x\<rparr> = enter l (s\<lparr>slocks := x\<rparr>)"
  "(settle s)\<lparr>slocks := x\<rparr> = settle (s\<lparr>slocks := x\<rparr>)"
  "cpu_ok (s\<lparr>slocks := x\<rparr>) = cpu_ok s" "cpu_index (s\<lparr>slocks := x\<rparr>) = cpu_index s"
  by (simp_all add: enter_def settle_def set_cpu_def cpu_index_def cpu_ok_def split: option.split)

lemma calm_slocks [simp]: "calm (s\<lparr>slocks := x\<rparr>) = calm s"
  by (rule calm_cong) (simp_all add: same_cpu_def)

lemma calm_procs [simp]: "length x = length (procs s) \<Longrightarrow> calm (s\<lparr>procs := x\<rparr>) = calm s"
  by (rule calm_cong) (simp_all add: same_cpu_def)

lemma cur_slocks [simp]: "cur (s\<lparr>slocks := x\<rparr>) = cur s" "cur_pid (s\<lparr>slocks := x\<rparr>) = cur_pid s"
  by (simp_all add: cur_def cur_pid_def)

definition held_by_me :: "chan \<Rightarrow> 'a slp_st_scheme \<Rightarrow> bool" where
  "held_by_me c s \<longleftrightarrow> slocked (slocks s c) \<and> spid (slocks s c) = cur_pid s"

lemma acquiresleep_eq:
  "calm s \<Longrightarrow> acquiresleep c s =
    (if slocked (slocks s c) then Blocks
     else Ok (s\<lparr>slocks := (slocks s)(c := (slocks s c)\<lparr>slocked := True, spid := cur_pid s\<rparr>)\<rparr>))"
  by (simp add: acquiresleep_def set_slock_def Let_def)

lemma holdingsleep_eq: "calm s \<Longrightarrow> holdingsleep c s = Ok (held_by_me c s, s)"
  by (simp add: holdingsleep_def held_by_me_def eq_commute)

lemma wakeup_enter:
  assumes "calm s" "l \<noteq> PtableLock"
  shows "wakeup c (enter l s) = Ok (enter l (s\<lparr>procs := map (wake (Some c)) (procs s)\<rparr>))"
proof -
  have "wakeup c (enter l s) = Ok (settle (wakeup1 (Some c) (enter l s)))"
    by (rule wakeup_eq) (use assms in simp_all)
  then show ?thesis using assms by (simp add: wakeup1_def)
qed

lemma releasesleep_eq:
  "calm s \<Longrightarrow> releasesleep c s =
    Ok (s\<lparr>slocks := (slocks s)(c := (slocks s c)\<lparr>slocked := False, spid := 0\<rparr>),
      procs := map (wake (Some c)) (procs s)\<rparr>)"
  by (simp add: releasesleep_def set_slock_def Let_def wakeup_enter)

end
