(* ===== verification/Xv6_Bio.thy ===== *)
theory Xv6_Bio
  imports Xv6_Sleeplock
begin

text \<open>
  The buffer cache \<^verbatim>\<open>bio.c\<close> on the disk driver \<^verbatim>\<open>memide.c\<close>. Buffers are named by their index
  in \<^verbatim>\<open>bcache.buf\<close>, \<open>NBUF\<close> names \<^verbatim>\<open>bcache.head\<close>; the list in the order of use is kept in the
  \<^verbatim>\<open>prev\<close> and \<^verbatim>\<open>next\<close> fields as in the code. The list of disk writes \<open>dtrace\<close> is a ghost field: no
  code reads it.

  The lemmas show that the pointer structure is always a cyclic list of all buffers in order
  of use, and that the cache implements the interface \<open>block_cache\<close>: \<^verbatim>\<open>bread\<close> returns the current
  contents of the block, whatever has been cached, recycled or pinned before.
\<close>

section \<open>State and operations\<close>

text \<open>
  \<^verbatim>\<open>struct buf\<close>: the flags \<^verbatim>\<open>B_VALID\<close> and \<^verbatim>\<open>B_DIRTY\<close> are two booleans, the sleep lock of buffer
  \<open>i\<close> is \<open>ChBufLock i\<close>.
\<close>

record buf =
  bvalid :: bool
  bdirty :: bool
  bdev :: u32
  bblockno :: u32
  brefcnt :: u32
  bprev :: nat
  bnext :: nat
  bdata :: "u8 list"

record bio_st = slp_st +
  bufs :: "nat \<Rightarrow> buf"
  disksize :: u32
  disk :: "u32 \<Rightarrow> u8 list"
  dtrace :: "(u32 \<times> u8 list) list"

definition set_buf :: "nat \<Rightarrow> (buf \<Rightarrow> buf) \<Rightarrow> 'a bio_st_scheme \<Rightarrow> 'a bio_st_scheme" where
  "set_buf i f s = s\<lparr>bufs := (bufs s)(i := f (bufs s i))\<rparr>"

text \<open>\<open>binit_step\<close> is one turn of the loop of \<^verbatim>\<open>binit\<close>.\<close>

definition binit_step :: "nat \<Rightarrow> 'a bio_st_scheme \<Rightarrow> 'a bio_st_scheme" where
  "binit_step b s =
     (let n = bnext (bufs s NBUF);
          s = set_buf b (\<lambda>x. x\<lparr>bnext := n\<rparr>) s;
          s = set_buf b (\<lambda>x. x\<lparr>bprev := NBUF\<rparr>) s;
          s = initsleeplock (ChBufLock b) s;
          s = set_buf n (\<lambda>x. x\<lparr>bprev := b\<rparr>) s
      in set_buf NBUF (\<lambda>h. h\<lparr>bnext := b\<rparr>) s)"

definition binit :: "'a bio_st_scheme \<Rightarrow> 'a bio_st_scheme" where
  "binit s =
     (let s = initlock BcacheLock s;
          s = set_buf NBUF (\<lambda>h. h\<lparr>bprev := NBUF\<rparr>) s;
          s = set_buf NBUF (\<lambda>h. h\<lparr>bnext := NBUF\<rparr>) s
      in fold binit_step [0..<NBUF] s)"

text \<open>\<^verbatim>\<open>iderw\<close> of \<^verbatim>\<open>memide.c\<close>: the disk is an array of blocks in memory.\<close>

definition iderw :: "nat \<Rightarrow> 'a bio_st_scheme \<Rightarrow> 'a bio_st_scheme res" where
  "iderw b s =
     bindr (holdingsleep (ChBufLock b) s) (\<lambda>(h, s).
     if \<not> h then Panic ''iderw: buf not locked''
     else if bvalid (bufs s b) \<and> \<not> bdirty (bufs s b) then Panic ''iderw: nothing to do''
     else if bdev (bufs s b) \<noteq> 1 then Panic ''iderw: request not for disk 1''
     else if bblockno (bufs s b) \<ge> disksize s then Panic ''iderw: block out of range''
     else let n = bblockno (bufs s b);
              s = (if bdirty (bufs s b)
                   then let s = set_buf b (\<lambda>x. x\<lparr>bdirty := False\<rparr>) s
                        in s\<lparr>disk := (disk s)(n := bdata (bufs s b)),
                             dtrace := dtrace s @ [(n, bdata (bufs s b))]\<rparr>
                   else set_buf b (\<lambda>x. x\<lparr>bdata := disk s n\<rparr>) s)
          in Ok (set_buf b (\<lambda>x. x\<lparr>bvalid := True\<rparr>) s))"

text \<open>
  The two scans of \<^verbatim>\<open>bget\<close> follow \<^verbatim>\<open>next\<close> or \<^verbatim>\<open>prev\<close> until they are back at the head. The list
  has \<open>NBUF\<close> buffers, so \<open>NBUF + 1\<close> steps are enough; a scan that does not come back to the
  head in this many steps never does.
\<close>

fun bscan :: "nat \<Rightarrow> (buf \<Rightarrow> nat) \<Rightarrow> (buf \<Rightarrow> bool) \<Rightarrow> (nat \<Rightarrow> buf) \<Rightarrow> nat \<Rightarrow> nat option res" where
  "bscan 0 link P bs b = Blocks"
| "bscan (Suc k) link P bs b =
     (if b = NBUF then Ok None
      else if P (bs b) then Ok (Some b)
      else bscan k link P bs (link (bs b)))"

definition bget :: "u32 \<Rightarrow> u32 \<Rightarrow> 'a bio_st_scheme \<Rightarrow> (nat \<times> 'a bio_st_scheme) res" where
  "bget dev blockno s =
     bindr (acquire BcacheLock s) (\<lambda>s.
     bindr (bscan (NBUF + 1) bnext (\<lambda>b. bdev b = dev \<and> bblockno b = blockno) (bufs s)
              (bnext (bufs s NBUF))) (\<lambda>r.
     case r of
       Some b \<Rightarrow>
         let s = set_buf b (\<lambda>x. x\<lparr>brefcnt := brefcnt x + 1\<rparr>) s
         in bindr (release BcacheLock s) (\<lambda>s.
            bindr (acquiresleep (ChBufLock b) s) (\<lambda>s. Ok (b, s)))
     | None \<Rightarrow>
         bindr (bscan (NBUF + 1) bprev (\<lambda>b. brefcnt b = 0 \<and> \<not> bdirty b) (bufs s)
                  (bprev (bufs s NBUF))) (\<lambda>r.
         case r of
           Some b \<Rightarrow>
             let s = set_buf b (\<lambda>x. x\<lparr>bdev := dev\<rparr>) s;
                 s = set_buf b (\<lambda>x. x\<lparr>bblockno := blockno\<rparr>) s;
                 s = set_buf b (\<lambda>x. x\<lparr>bvalid := False, bdirty := False\<rparr>) s;
                 s = set_buf b (\<lambda>x. x\<lparr>brefcnt := 1\<rparr>) s
             in bindr (release BcacheLock s) (\<lambda>s.
                bindr (acquiresleep (ChBufLock b) s) (\<lambda>s. Ok (b, s)))
         | None \<Rightarrow> Panic ''bget: no buffers'')))"

definition bread :: "u32 \<Rightarrow> u32 \<Rightarrow> 'a bio_st_scheme \<Rightarrow> (nat \<times> 'a bio_st_scheme) res" where
  "bread dev blockno s =
     bindr (bget dev blockno s) (\<lambda>(b, s).
     if \<not> bvalid (bufs s b) then bindr (iderw b s) (\<lambda>s. Ok (b, s)) else Ok (b, s))"

definition bwrite :: "nat \<Rightarrow> 'a bio_st_scheme \<Rightarrow> 'a bio_st_scheme res" where
  "bwrite b s =
     bindr (holdingsleep (ChBufLock b) s) (\<lambda>(h, s).
     if \<not> h then Panic ''bwrite''
     else iderw b (set_buf b (\<lambda>x. x\<lparr>bdirty := True\<rparr>) s))"

definition upd_buf :: "nat \<Rightarrow> (buf \<Rightarrow> buf) \<Rightarrow> (nat \<Rightarrow> buf) \<Rightarrow> nat \<Rightarrow> buf" where
  "upd_buf i f bs = bs(i := f (bs i))"

definition move_front :: "nat \<Rightarrow> (nat \<Rightarrow> buf) \<Rightarrow> nat \<Rightarrow> buf" where
  "move_front b bs =
     (let bs = upd_buf (bnext (bs b)) (\<lambda>x. x\<lparr>bprev := bprev (bs b)\<rparr>) bs;
          bs = upd_buf (bprev (bs b)) (\<lambda>x. x\<lparr>bnext := bnext (bs b)\<rparr>) bs;
          bs = upd_buf b (\<lambda>x. x\<lparr>bnext := bnext (bs NBUF)\<rparr>) bs;
          bs = upd_buf b (\<lambda>x. x\<lparr>bprev := NBUF\<rparr>) bs;
          bs = upd_buf (bnext (bs NBUF)) (\<lambda>x. x\<lparr>bprev := b\<rparr>) bs
      in upd_buf NBUF (\<lambda>x. x\<lparr>bnext := b\<rparr>) bs)"

definition brelse :: "nat \<Rightarrow> 'a bio_st_scheme \<Rightarrow> 'a bio_st_scheme res" where
  "brelse b s =
     bindr (holdingsleep (ChBufLock b) s) (\<lambda>(h, s).
     if \<not> h then Panic ''brelse''
     else bindr (releasesleep (ChBufLock b) s) (\<lambda>s.
          bindr (acquire BcacheLock s) (\<lambda>s.
          let s = set_buf b (\<lambda>x. x\<lparr>brefcnt := brefcnt x - 1\<rparr>) s;
              s = (if brefcnt (bufs s b) = 0 then s\<lparr>bufs := move_front b (bufs s)\<rparr> else s)
          in release BcacheLock s)))"

section \<open>The list in the order of use\<close>

text \<open>\<open>lru bs ord\<close>: from the head, \<^verbatim>\<open>next\<close> visits \<open>ord\<close> and comes back, \<^verbatim>\<open>prev\<close> the same backwards.\<close>

fun chain :: "(nat \<Rightarrow> nat) \<Rightarrow> nat list \<Rightarrow> bool" where
  "chain f (x # y # zs) \<longleftrightarrow> f x = y \<and> chain f (y # zs)"
| "chain f [x] \<longleftrightarrow> True"
| "chain f [] \<longleftrightarrow> True"

definition lru :: "(nat \<Rightarrow> buf) \<Rightarrow> nat list \<Rightarrow> bool" where
  "lru bs ord \<longleftrightarrow> distinct ord \<and> set ord = {..<NBUF} \<and>
     chain (\<lambda>i. bnext (bs i)) (NBUF # ord @ [NBUF]) \<and> chain (\<lambda>i. bprev (bs i)) (NBUF # rev ord @ [NBUF])"

lemma chain_append: "chain f (xs @ a # ys) \<longleftrightarrow> chain f (xs @ [a]) \<and> chain f (a # ys)"
  by (induction f xs rule: chain.induct) auto

lemma chain_upd_notin: "a \<notin> set (butlast xs) \<Longrightarrow> chain (f(a := b)) xs = chain f xs"
  by (induction f xs rule: chain.induct) auto

lemma chain_cong: "(\<And>x. x \<in> set (butlast xs) \<Longrightarrow> f x = g x) \<Longrightarrow> chain f xs = chain g xs"
  by (induction f xs rule: chain.induct) auto

lemma chain_bscan:
  "chain (\<lambda>i. link (bs i)) (xs @ [NBUF]) \<Longrightarrow> NBUF \<notin> set xs \<Longrightarrow> length xs < k \<Longrightarrow>
    b = hd (xs @ [NBUF]) \<Longrightarrow> bscan k link P bs b = Ok (find (\<lambda>i. P (bs i)) xs)"
proof (induction xs arbitrary: k b)
  case Nil
  then show ?case by (cases k) simp_all
next
  case (Cons x xs)
  then obtain j where k: "k = Suc j" by (cases k) auto
  have "chain (\<lambda>i. link (bs i)) (xs @ [NBUF]) \<and> link (bs x) = hd (xs @ [NBUF])"
    using Cons.prems(1) by (cases xs) auto
  then show ?case using Cons by (auto simp: k)
qed

declare bscan.simps [simp del]

lemma lru_scan:
  assumes "lru bs ord"
  shows "bscan (Suc NBUF) bnext P bs (bnext (bs NBUF)) = Ok (find (\<lambda>i. P (bs i)) ord)"
    and "bscan (Suc NBUF) bprev P bs (bprev (bs NBUF)) = Ok (find (\<lambda>i. P (bs i)) (rev ord))"
proof -
  have o: "distinct ord" "set ord = {..<NBUF}" using assms by (simp_all add: lru_def)
  then have l: "length ord = NBUF" by (metis card_lessThan distinct_card)
  have n: "NBUF \<notin> set ord" using o by simp
  have "chain (\<lambda>i. bnext (bs i)) (ord @ [NBUF]) \<and> bnext (bs NBUF) = hd (ord @ [NBUF])"
    using assms by (cases ord) (auto simp: lru_def)
  then show "bscan (Suc NBUF) bnext P bs (bnext (bs NBUF)) = Ok (find (\<lambda>i. P (bs i)) ord)"
    using l n by (intro chain_bscan) auto
  have "chain (\<lambda>i. bprev (bs i)) (rev ord @ [NBUF]) \<and> bprev (bs NBUF) = hd (rev ord @ [NBUF])"
    using assms by (cases "rev ord") (auto simp: lru_def)
  then show "bscan (Suc NBUF) bprev P bs (bprev (bs NBUF)) = Ok (find (\<lambda>i. P (bs i)) (rev ord))"
    using l n by (intro chain_bscan) auto
qed

lemma set_buf_sel [simp]:
  "bufs (set_buf i f s) = (bufs s)(i := f (bufs s i))" "disk (set_buf i f s) = disk s"
  "disksize (set_buf i f s) = disksize s" "dtrace (set_buf i f s) = dtrace s"
  "slocks (set_buf i f s) = slocks s"
  by (simp_all add: set_buf_def)

text \<open>The links after \<open>move_front\<close>, as functions of the links before.\<close>

lemma upd_buf_links:
  "bnext (upd_buf j (\<lambda>x. x\<lparr>bnext := v\<rparr>) bs i) = (if i = j then v else bnext (bs i))"
  "bprev (upd_buf j (\<lambda>x. x\<lparr>bnext := v\<rparr>) bs i) = bprev (bs i)"
  "bprev (upd_buf j (\<lambda>x. x\<lparr>bprev := v\<rparr>) bs i) = (if i = j then v else bprev (bs i))"
  "bnext (upd_buf j (\<lambda>x. x\<lparr>bprev := v\<rparr>) bs i) = bnext (bs i)"
  by (simp_all add: upd_buf_def)

lemma move_front_links:
  assumes ne: "b \<noteq> NBUF" "bprev (bs b) \<noteq> b" "bnext (bs b) \<noteq> b"
  defines "h \<equiv> if NBUF = bprev (bs b) then bnext (bs b) else bnext (bs NBUF)"
  shows "bnext (move_front b bs i) =
      (if i = NBUF then b else if i = b then h else if i = bprev (bs b) then bnext (bs b) else bnext (bs i))"
    and "bprev (move_front b bs i) =
      (if i = h then b else if i = b then NBUF else if i = bnext (bs b) then bprev (bs b) else bprev (bs i))"
proof -
  define s1 where "s1 = upd_buf (bnext (bs b)) (\<lambda>x. x\<lparr>bprev := bprev (bs b)\<rparr>) bs"
  define s2 where "s2 = upd_buf (bprev (s1 b)) (\<lambda>x. x\<lparr>bnext := bnext (s1 b)\<rparr>) s1"
  define s3 where "s3 = upd_buf b (\<lambda>x. x\<lparr>bnext := bnext (s2 NBUF)\<rparr>) s2"
  define s4 where "s4 = upd_buf b (\<lambda>x. x\<lparr>bprev := NBUF\<rparr>) s3"
  define s5 where "s5 = upd_buf (bnext (s4 NBUF)) (\<lambda>x. x\<lparr>bprev := b\<rparr>) s4"
  have f: "move_front b bs = upd_buf NBUF (\<lambda>x. x\<lparr>bnext := b\<rparr>) s5"
    by (simp only: move_front_def Let_def s5_def s4_def s3_def s2_def s1_def)
  have 1: "bprev (s1 b) = bprev (bs b)" "bnext (s1 b) = bnext (bs b)"
    by (simp_all only: s1_def upd_buf_links if_cancel)
  have 2: "bnext (s2 NBUF) = h" unfolding s2_def 1 by (simp only: upd_buf_links s1_def h_def)
  have 4: "bnext (s4 NBUF) = h" using ne(1) unfolding s4_def s3_def upd_buf_links 2 by simp
  show "bnext (move_front b bs i) =
      (if i = NBUF then b else if i = b then h else if i = bprev (bs b) then bnext (bs b) else bnext (bs i))"
    unfolding f upd_buf_links s5_def s4_def s3_def 2 unfolding s2_def 1 unfolding upd_buf_links s1_def if_cancel ..
  show "bprev (move_front b bs i) =
      (if i = h then b else if i = b then NBUF else if i = bnext (bs b) then bprev (bs b) else bprev (bs i))"
    unfolding f upd_buf_links s5_def 4 unfolding s4_def s3_def s2_def s1_def upd_buf_links ..
qed

text \<open>Nothing but links changes.\<close>

definition same_core :: "(nat \<Rightarrow> buf) \<Rightarrow> (nat \<Rightarrow> buf) \<Rightarrow> bool" where
  "same_core bs cs \<longleftrightarrow> (\<forall>i. (cs i)\<lparr>bprev := 0, bnext := 0\<rparr> = (bs i)\<lparr>bprev := 0, bnext := 0\<rparr>)"

lemma same_core_upd:
  "same_core bs cs \<Longrightarrow> same_core bs (upd_buf j (\<lambda>x. x\<lparr>bnext := v\<rparr>) cs)"
  "same_core bs cs \<Longrightarrow> same_core bs (upd_buf j (\<lambda>x. x\<lparr>bprev := v\<rparr>) cs)"
  by (auto simp: same_core_def upd_buf_def)

lemma same_core_move_front: "same_core bs (move_front b bs)"
  unfolding move_front_def Let_def by (intro same_core_upd) (simp add: same_core_def)

lemma same_coreD:
  assumes "same_core bs cs"
  shows "bvalid (cs i) = bvalid (bs i)" "bdirty (cs i) = bdirty (bs i)" "bdev (cs i) = bdev (bs i)"
    "bblockno (cs i) = bblockno (bs i)" "brefcnt (cs i) = brefcnt (bs i)" "bdata (cs i) = bdata (bs i)"
proof -
  have e: "(cs i)\<lparr>bprev := 0, bnext := 0\<rparr> = (bs i)\<lparr>bprev := 0, bnext := 0\<rparr>"
    using assms by (simp add: same_core_def)
  show "bvalid (cs i) = bvalid (bs i)" using arg_cong [OF e, of bvalid] by simp
  show "bdirty (cs i) = bdirty (bs i)" using arg_cong [OF e, of bdirty] by simp
  show "bdev (cs i) = bdev (bs i)" using arg_cong [OF e, of bdev] by simp
  show "bblockno (cs i) = bblockno (bs i)" using arg_cong [OF e, of bblockno] by simp
  show "brefcnt (cs i) = brefcnt (bs i)" using arg_cong [OF e, of brefcnt] by simp
  show "bdata (cs i) = bdata (bs i)" using arg_cong [OF e, of bdata] by simp
qed

lemmas move_front_same = same_coreD [OF same_core_move_front]

lemma chain_tl: "chain f (x # xs) \<Longrightarrow> chain f xs"
  by (cases xs) simp_all

lemma chain_move_next:
  assumes "chain f (N # xs @ b # ys @ [N])" "distinct (N # xs @ b # ys)"
    and n: "\<And>i. n i = (if i = N then b else if i = b then hd (xs @ ys @ [N])
      else if i = last (N # xs) then hd (ys @ [N]) else f i)"
  shows "chain n (N # b # xs @ ys @ [N])"
proof -
  have "chain f (b # ys @ [N])" "chain f (N # xs @ [b])"
    using assms(1) chain_append [of f "N # xs" b "ys @ [N]"] by simp_all
  then have ys: "chain f (ys @ [N])" and xs: "chain f (xs @ [b])" by (auto dest: chain_tl)
  have "chain n (ys @ [N]) = chain f (ys @ [N])"
    by (rule chain_cong) (use assms(2) last_in_set [of xs] in \<open>auto simp: n simp del: last_in_set split: if_splits\<close>)
  then have ys': "chain n (ys @ [N])" using ys by simp
  show ?thesis
  proof (cases xs rule: rev_cases)
    case Nil
    then show ?thesis using ys' assms(2) by (cases ys) (auto simp: n)
  next
    case (snoc us a)
    have "chain f (us @ [a])" using xs snoc chain_append [of f us a "[b]"] by simp
    moreover have "chain n (us @ [a]) = chain f (us @ [a])"
      by (rule chain_cong) (use assms(2) snoc in \<open>auto simp: n\<close>)
    moreover have "n a = hd (ys @ [N])" using snoc assms(2) by (auto simp: n)
    then have "chain n (a # ys @ [N])" using ys' by (cases ys) auto
    ultimately have "chain n (xs @ ys @ [N])" using snoc chain_append [of n us a "ys @ [N]"] by simp
    moreover have "n N = b" "n b = hd (xs @ ys @ [N])" using assms(2) by (auto simp: n)
    ultimately show ?thesis by (cases "xs @ ys @ [N]") auto
  qed
qed

lemma chain_move_prev:
  assumes "chain g (N # rev ys @ b # rev xs @ [N])" "distinct (N # xs @ b # ys)"
    and p: "\<And>i. p i = (if i = hd (xs @ ys @ [N]) then b else if i = b then N
      else if i = hd (ys @ [N]) then last (N # xs) else g i)"
  shows "chain p (N # rev (xs @ ys) @ [b, N])"
proof -
  have g: "chain g (b # rev xs @ [N])" "chain g (N # rev ys @ [b])"
    using assms(1) chain_append [of g "N # rev ys" b "rev xs @ [N]"] by simp_all
  have pb: "p b = N" using assms(2) by (cases xs; cases ys) (auto simp: p)
  have "chain p (N # rev (xs @ ys) @ [b])"
  proof (cases ys)
    case Nil
    show ?thesis
    proof (cases xs)
      case Nil
      with \<open>ys = []\<close> show ?thesis using assms(2) by (simp add: p)
    next
      case (Cons x us)
      have "chain g (rev us @ [x])"
        using g(1) Cons chain_append [of g "b # rev us" x "[N]"] chain_append [of g "[b]" "hd (rev us @ [x])" "tl (rev us @ [x])"]
        by (cases "rev us") auto
      moreover have "chain p (rev us @ [x]) = chain g (rev us @ [x])"
        by (rule chain_cong) (use assms(2) Cons \<open>ys = []\<close> in \<open>auto simp: p\<close>)
      moreover have "p x = b" using Cons by (simp add: p)
      moreover have "p N = hd (rev us @ [x])" using Cons \<open>ys = []\<close> assms(2) by (auto simp: p last_rev hd_append hd_rev)
      ultimately show ?thesis
        using Cons \<open>ys = []\<close> chain_append [of p "rev us" x "[b]"] by (cases "rev us") auto
    qed
  next
    case (Cons y vs)
    have vs: "chain g (N # rev vs @ [y])" using g(2) Cons chain_append [of g "N # rev vs" y "[b]"] by simp
    have "chain p (N # rev vs @ [y]) = chain g (N # rev vs @ [y])"
      by (rule chain_cong) (use assms(2) Cons hd_in_set [of xs] in \<open>auto simp: p hd_append simp del: hd_in_set split: if_splits\<close>)
    with vs have vs': "chain p (N # rev vs @ [y])" by simp
    show ?thesis
    proof (cases xs)
      case Nil
      then show ?thesis using vs' Cons chain_append [of p "N # rev vs" y "[b]"] by (simp add: p)
    next
      case (Cons x us)
      have "chain g (rev us @ [x])"
        using g(1) Cons chain_append [of g "b # rev us" x "[N]"] chain_append [of g "[b]" "hd (rev us @ [x])" "tl (rev us @ [x])"]
        by (cases "rev us") auto
      moreover have "chain p (rev us @ [x]) = chain g (rev us @ [x])"
        by (rule chain_cong) (use assms(2) Cons \<open>ys = y # vs\<close> in \<open>auto simp: p\<close>)
      moreover have "p x = b" using Cons by (simp add: p)
      ultimately have "chain p (rev xs @ [b])" using Cons chain_append [of p "rev us" x "[b]"] by simp
      moreover have "p y = last xs" using Cons \<open>ys = y # vs\<close> assms(2) by (auto simp: p)
      then have "p y = hd (rev xs @ [b])" using Cons by (simp add: hd_append hd_rev)
      ultimately have "chain p (y # rev xs @ [b])" by (cases "rev xs @ [b]") auto
      then show ?thesis using vs' \<open>ys = y # vs\<close> chain_append [of p "N # rev vs" y "rev xs @ [b]"] by simp
    qed
  qed
  then show ?thesis using pb chain_append [of p "N # rev (xs @ ys)" b "[N]"] by simp
qed

lemma lru_move_front:
  assumes "lru bs ord" "b \<in> set ord"
  shows "lru (move_front b bs) (b # remove1 b ord)"
proof -
  from assms(2) obtain xs ys where o: "ord = xs @ b # ys" "b \<notin> set xs" by (auto dest: split_list_first)
  have d: "distinct (xs @ b # ys)" "set (xs @ b # ys) = {..<NBUF}" using assms(1) o by (simp_all add: lru_def)
  then have dN: "distinct (NBUF # xs @ b # ys)" by auto
  have f: "chain (\<lambda>i. bnext (bs i)) (NBUF # xs @ b # ys @ [NBUF])"
    and g: "chain (\<lambda>i. bprev (bs i)) (NBUF # rev ys @ b # rev xs @ [NBUF])"
    using assms(1) o by (simp_all add: lru_def)
  have fb: "bnext (bs b) = hd (ys @ [NBUF])"
    using f chain_append [of "\<lambda>i. bnext (bs i)" "NBUF # xs" b "ys @ [NBUF]"] by (cases ys) auto
  have gb: "bprev (bs b) = last (NBUF # xs)"
    using g chain_append [of "\<lambda>i. bprev (bs i)" "NBUF # rev ys" b "rev xs @ [NBUF]"]
    by (cases xs rule: rev_cases) auto
  have fN: "bnext (bs NBUF) = hd (xs @ [b])" using f by (cases xs) auto
  have ne: "b \<noteq> NBUF" "bprev (bs b) \<noteq> b" "bnext (bs b) \<noteq> b"
    using dN by (auto simp: gb fb hd_append)
  have h: "(if NBUF = last (NBUF # xs) then hd (ys @ [NBUF]) else bnext (bs NBUF)) = hd (xs @ ys @ [NBUF])"
    using dN last_in_set [of xs] by (cases xs) (auto simp: gb fb fN simp del: last_in_set split: if_splits)
  have "chain (\<lambda>i. bnext (move_front b bs i)) (NBUF # b # xs @ ys @ [NBUF])"
    by (rule chain_move_next [OF f dN]) (simp only: move_front_links(1) [where bs = bs, OF ne] h gb fb)
  moreover have "chain (\<lambda>i. bprev (move_front b bs i)) (NBUF # rev (xs @ ys) @ [b, NBUF])"
    by (rule chain_move_prev [OF g dN]) (simp only: move_front_links(2) [where bs = bs, OF ne] h gb fb)
  ultimately show ?thesis
    using d o by (auto simp: lru_def remove1_append)
qed

section \<open>Locks and the cache\<close>

lemma bio_crit [simp]:
  "bufs (enter l s) = bufs s" "disk (enter l s) = disk s" "disksize (enter l s) = disksize s"
  "dtrace (enter l s) = dtrace s" "bufs (settle s) = bufs s"
  "(enter l s)\<lparr>bufs := x\<rparr> = enter l (s\<lparr>bufs := x\<rparr>)"
  by (simp_all add: enter_def settle_def set_cpu_def cpu_index_def split: option.split)

lemma set_buf_enter [simp]: "set_buf i f (enter l s) = enter l (set_buf i f s)"
  by (simp add: set_buf_def)

lemma calm_bio [simp]:
  "calm (s\<lparr>bufs := x\<rparr>) = calm s" "calm (s\<lparr>disk := d\<rparr>) = calm s" "calm (s\<lparr>dtrace := t\<rparr>) = calm s"
  "calm (set_buf i f s) = calm s"
  by (rule calm_cong; simp add: same_cpu_def set_buf_def)+

lemma cur_bio [simp]:
  "cur_pid (s\<lparr>bufs := x\<rparr>) = cur_pid s" "cur_pid (s\<lparr>disk := d\<rparr>) = cur_pid s"
  "cur_pid (s\<lparr>dtrace := t\<rparr>) = cur_pid s" "cur_pid (set_buf i f s) = cur_pid s"
  by (simp_all add: cur_pid_def cur_def cpu_index_def set_buf_def)

lemma held_bio [simp]:
  "held_by_me c (s\<lparr>bufs := x\<rparr>) = held_by_me c s" "held_by_me c (s\<lparr>disk := d\<rparr>) = held_by_me c s"
  "held_by_me c (s\<lparr>dtrace := t\<rparr>) = held_by_me c s" "held_by_me c (set_buf i f s) = held_by_me c s"
  by (simp_all add: held_by_me_def)

text \<open>
  \<open>cached s n\<close> is the buffer that holds block \<open>n\<close> of the disk, \<open>held\<close> and \<open>pinned\<close> are the
  blocks whose buffer is locked or dirty, and \<open>bview\<close> is what \<open>bread\<close> returns for a block.
\<close>

definition cached :: "'a bio_st_scheme \<Rightarrow> u32 \<Rightarrow> nat option" where
  "cached s n = find (\<lambda>i. bvalid (bufs s i) \<and> bdev (bufs s i) = 1 \<and> bblockno (bufs s i) = n) [0..<NBUF]"

definition bview :: "'a bio_st_scheme \<Rightarrow> u32 \<Rightarrow> u8 list" where
  "bview s n = (case cached s n of None \<Rightarrow> disk s n | Some i \<Rightarrow> bdata (bufs s i))"

definition held :: "'a bio_st_scheme \<Rightarrow> u32 set" where
  "held s = {bblockno (bufs s i) | i. i < NBUF \<and> slocked (slocks s (ChBufLock i))}"

definition pinned :: "'a bio_st_scheme \<Rightarrow> u32 set" where
  "pinned s = {bblockno (bufs s i) | i. i < NBUF \<and> bdirty (bufs s i)}"

definition owns_buf :: "'a bio_st_scheme \<Rightarrow> nat \<Rightarrow> u32 \<Rightarrow> bool" where
  "owns_buf s i n \<longleftrightarrow> i < NBUF \<and> bblockno (bufs s i) = n \<and> held_by_me (ChBufLock i) s"

definition buf_ok :: "'a bio_st_scheme \<Rightarrow> nat \<Rightarrow> bool" where
  "buf_ok s i \<longleftrightarrow>
     brefcnt (bufs s i) = (if slocked (slocks s (ChBufLock i)) then 1 else 0) \<and>
     (slocked (slocks s (ChBufLock i)) \<or> bdirty (bufs s i) \<longrightarrow> bvalid (bufs s i)) \<and>
     (bvalid (bufs s i) \<longrightarrow> bdev (bufs s i) = 1 \<and> bblockno (bufs s i) < disksize s \<and>
        length (bdata (bufs s i)) = BSIZE \<and>
        (slocked (slocks s (ChBufLock i)) \<or> bdirty (bufs s i) \<or> bdata (bufs s i) = disk s (bblockno (bufs s i))))"

definition cache_inv :: "'a bio_st_scheme \<Rightarrow> bool" where
  "cache_inv s \<longleftrightarrow> calm s \<and> (\<exists>ord. lru (bufs s) ord) \<and> (\<forall>i<NBUF. buf_ok s i) \<and>
     (\<forall>i<NBUF. \<forall>j<NBUF. bdev (bufs s i) = 1 \<longrightarrow> bdev (bufs s j) = 1 \<longrightarrow>
        bblockno (bufs s i) = bblockno (bufs s j) \<longrightarrow> i = j) \<and>
     (\<forall>n. length (disk s n) = BSIZE)"


lemma cached_None: "cached s n = None \<longleftrightarrow> (\<forall>i<NBUF. \<not> (bvalid (bufs s i) \<and> bdev (bufs s i) = 1 \<and> bblockno (bufs s i) = n))"
  by (auto simp: cached_def find_None_iff)

lemma cached_Some:
  assumes "cache_inv s" "i < NBUF" "bvalid (bufs s i)"
  shows "cached s (bblockno (bufs s i)) = Some i"
proof -
  have d: "bdev (bufs s i) = 1" using assms by (auto simp: cache_inv_def buf_ok_def)
  show ?thesis
  proof (cases "cached s (bblockno (bufs s i))")
    case None
    then show ?thesis using assms(2,3) d by (auto simp: cached_None)
  next
    case (Some j)
    then have "j < NBUF" "bdev (bufs s j) = 1" "bblockno (bufs s j) = bblockno (bufs s i)"
      by (auto simp: cached_def dest!: find_SomeD)
    then have "j = i" using assms d by (auto simp: cache_inv_def)
    with Some show ?thesis by simp
  qed
qed

lemma bview_cached:
  "cache_inv s \<Longrightarrow> i < NBUF \<Longrightarrow> bvalid (bufs s i) \<Longrightarrow> bview s (bblockno (bufs s i)) = bdata (bufs s i)"
  by (simp add: bview_def cached_Some)

lemma bview_uncached: "(\<And>i. i < NBUF \<Longrightarrow> bvalid (bufs s i) \<Longrightarrow> bblockno (bufs s i) \<noteq> n) \<Longrightarrow> bview s n = disk s n"
proof -
  assume "\<And>i. i < NBUF \<Longrightarrow> bvalid (bufs s i) \<Longrightarrow> bblockno (bufs s i) \<noteq> n"
  then have "cached s n = None" by (auto simp: cached_None)
  then show ?thesis by (simp add: bview_def)
qed

section \<open>Reading a block\<close>

text \<open>What \<open>bread\<close> does to the cache when it settles on buffer \<open>b\<close> for block \<open>n\<close>.\<close>

definition grab :: "nat \<Rightarrow> u32 \<Rightarrow> 'a bio_st_scheme \<Rightarrow> 'a bio_st_scheme" where
  "grab b n s =
     s\<lparr>bufs := (bufs s)(b := (bufs s b)\<lparr>bvalid := True, bdev := 1, bblockno := n, brefcnt := 1, bdata := bview s n\<rparr>),
       slocks := (slocks s)(ChBufLock b := (slocks s (ChBufLock b))\<lparr>slocked := True, spid := cur_pid s\<rparr>)\<rparr>"

definition matches :: "u32 \<Rightarrow> buf \<Rightarrow> bool" where
  "matches n b \<longleftrightarrow> bdev b = 1 \<and> bblockno b = n"

lemma iderw_read:
  assumes "calm s" "held_by_me (ChBufLock b) s" "\<not> bvalid (bufs s b)" "\<not> bdirty (bufs s b)" "bdev (bufs s b) = 1"
    and "bblockno (bufs s b) < disksize s"
  shows "iderw b s = Ok (set_buf b (\<lambda>x. x\<lparr>bdata := disk s (bblockno x), bvalid := True\<rparr>) s)"
  using assms by (simp add: iderw_def holdingsleep_eq Let_def set_buf_def)

lemma bget_hit:
  assumes "calm s" "lru (bufs s) ord" "b < NBUF" "matches n (bufs s b)"
    and uniq: "\<And>i. i < NBUF \<Longrightarrow> matches n (bufs s i) \<Longrightarrow> i = b" and free: "\<not> slocked (slocks s (ChBufLock b))"
  shows "bget 1 n s = Ok (b, (set_buf b (\<lambda>x. x\<lparr>brefcnt := brefcnt x + 1\<rparr>) s)
    \<lparr>slocks := (slocks s)(ChBufLock b := (slocks s (ChBufLock b))\<lparr>slocked := True, spid := cur_pid s\<rparr>)\<rparr>)"
proof -
  have "b \<in> set ord" using assms(2,3) by (simp add: lru_def)
  then have "\<exists>j. find (\<lambda>i. matches n (bufs s i)) ord = Some j"
    using assms(4) by (metis find_None_iff option.exhaust)
  then obtain j where j: "find (\<lambda>i. matches n (bufs s i)) ord = Some j" by blast
  then have "j \<in> set ord" "matches n (bufs s j)" by (auto simp: find_Some_iff)
  then have "j = b" using uniq assms(2) by (auto simp: lru_def)
  with j have f: "find (\<lambda>i. bdev (bufs s i) = 1 \<and> bblockno (bufs s i) = n) ord = Some b"
    by (simp add: matches_def)
  show ?thesis
    using assms(1) free f
    by (simp add: bget_def lru_scan [OF assms(2)] acquiresleep_eq)
qed

lemma bget_miss:
  assumes "calm s" "lru (bufs s) ord" and none: "\<And>i. i < NBUF \<Longrightarrow> \<not> matches n (bufs s i)"
  shows "bget 1 n s =
    (case find (\<lambda>i. brefcnt (bufs s i) = 0 \<and> \<not> bdirty (bufs s i)) (rev ord) of
       None \<Rightarrow> Panic ''bget: no buffers''
     | Some b \<Rightarrow> bindr (acquiresleep (ChBufLock b)
         (set_buf b (\<lambda>x. x\<lparr>bdev := 1, bblockno := n, bvalid := False, bdirty := False, brefcnt := 1\<rparr>) s)) (\<lambda>s. Ok (b, s)))"
proof -
  have f: "find (\<lambda>i. bdev (bufs s i) = 1 \<and> bblockno (bufs s i) = n) ord = None"
    using none assms(2) by (auto simp: find_None_iff lru_def matches_def)
  show ?thesis
    using assms(1) f
    by (simp add: bget_def lru_scan [OF assms(2)] set_buf_def split: option.split)
qed

lemma cache_invD:
  assumes "cache_inv s"
  shows "calm s" "\<exists>ord. lru (bufs s) ord" "i < NBUF \<Longrightarrow> buf_ok s i" "length (disk s n) = BSIZE"
    and "i < NBUF \<Longrightarrow> j < NBUF \<Longrightarrow> bdev (bufs s i) = 1 \<Longrightarrow> bdev (bufs s j) = 1 \<Longrightarrow>
      bblockno (bufs s i) = bblockno (bufs s j) \<Longrightarrow> i = j"
  using assms by (simp_all add: cache_inv_def)

lemma buf_eq_iff:
  "(x :: buf) = y \<longleftrightarrow> bvalid x = bvalid y \<and> bdirty x = bdirty y \<and> bdev x = bdev y \<and> bblockno x = bblockno y \<and>
    brefcnt x = brefcnt y \<and> bprev x = bprev y \<and> bnext x = bnext y \<and> bdata x = bdata y"
  by (auto intro: buf.equality)

lemma bread_hit:
  assumes inv: "cache_inv s" and b: "b < NBUF" "matches n (bufs s b)" and n: "n < disksize s" "n \<notin> held s"
  shows "bread 1 n s = Ok (b, grab b n s)"
proof -
  obtain ord where ord: "lru (bufs s) ord" using cache_invD(2) [OF inv] by blast
  have uniq: "i < NBUF \<Longrightarrow> matches n (bufs s i) \<Longrightarrow> i = b" for i
    using cache_invD(5) [OF inv, of i b] b by (simp add: matches_def)
  have free: "\<not> slocked (slocks s (ChBufLock b))" using n b by (auto simp: held_def matches_def)
  have ok: "buf_ok s b" by (rule cache_invD(3) [OF inv b(1)])
  let ?s = "(set_buf b (\<lambda>x. x\<lparr>brefcnt := brefcnt x + 1\<rparr>) s)
    \<lparr>slocks := (slocks s)(ChBufLock b := (slocks s (ChBufLock b))\<lparr>slocked := True, spid := cur_pid s\<rparr>)\<rparr>"
  have g: "bget 1 n s = Ok (b, ?s)"
    by (rule bget_hit [OF cache_invD(1) [OF inv] ord b uniq free])
  show ?thesis
  proof (cases "bvalid (bufs s b)")
    case True
    then have "bview s n = bdata (bufs s b)" using bview_cached [OF inv b(1)] b(2) by (simp add: matches_def)
    then have "(bufs s b)\<lparr>bvalid := True, bdev := 1, bblockno := n, brefcnt := 1, bdata := bview s n\<rparr> =
      (bufs s b)\<lparr>brefcnt := brefcnt (bufs s b) + 1\<rparr>"
      using True ok b(2) free by (simp add: buf_eq_iff buf_ok_def matches_def)
    then show ?thesis using True unfolding bread_def g grab_def by (simp add: set_buf_def)
  next
    case False
    have "bview s n = disk s n"
    proof (rule bview_uncached)
      fix i assume "i < NBUF" "bvalid (bufs s i)"
      then show "bblockno (bufs s i) \<noteq> n"
        using False uniq [of i] cache_invD(3) [OF inv, of i] by (auto simp: matches_def buf_ok_def)
    qed
    moreover have "iderw b ?s = Ok (set_buf b (\<lambda>x. x\<lparr>bdata := disk ?s (bblockno x), bvalid := True\<rparr>) ?s)"
      using False ok b(2) n cache_invD(1) [OF inv]
      by (intro iderw_read) (auto simp: held_by_me_def matches_def buf_ok_def)
    moreover from calculation(1)
    have "(bufs s b)\<lparr>bvalid := True, bdev := 1, bblockno := n, brefcnt := 1, bdata := bview s n\<rparr> =
      (bufs s b)\<lparr>brefcnt := brefcnt (bufs s b) + 1, bdata := disk s n, bvalid := True\<rparr>"
      using ok b(2) free by (simp add: buf_eq_iff buf_ok_def matches_def)
    ultimately show ?thesis using False b(2) unfolding bread_def g grab_def by (simp add: set_buf_def matches_def)
  qed
qed

lemma bview_unmatched:
  assumes inv: "cache_inv s" and none: "\<And>i. i < NBUF \<Longrightarrow> \<not> matches n (bufs s i)"
  shows "bview s n = disk s n"
proof (rule bview_uncached)
  fix i assume "i < NBUF" "bvalid (bufs s i)"
  then show "bblockno (bufs s i) \<noteq> n"
    using none [of i] cache_invD(3) [OF inv, of i] by (auto simp: matches_def buf_ok_def)
qed

lemma bread_recycle:
  assumes inv: "cache_inv s" and none: "\<And>i. i < NBUF \<Longrightarrow> \<not> matches n (bufs s i)" and n: "n < disksize s"
    and ord: "lru (bufs s) ord" and f: "find (\<lambda>i. brefcnt (bufs s i) = 0 \<and> \<not> bdirty (bufs s i)) (rev ord) = Some b"
  shows "b < NBUF" "brefcnt (bufs s b) = 0" "\<not> bdirty (bufs s b)" "\<not> slocked (slocks s (ChBufLock b))"
    "bread 1 n s = Ok (b, grab b n s)"
proof -
  show b: "b < NBUF" and P: "brefcnt (bufs s b) = 0" "\<not> bdirty (bufs s b)"
    using find_SomeD [OF f] ord by (simp_all add: lru_def)
  show free: "\<not> slocked (slocks s (ChBufLock b))"
    using cache_invD(3) [OF inv b] P(1) by (auto simp: buf_ok_def split: if_splits)
  let ?s = "(set_buf b (\<lambda>x. x\<lparr>bdev := 1, bblockno := n, bvalid := False, bdirty := False, brefcnt := 1\<rparr>) s)
    \<lparr>slocks := (slocks s)(ChBufLock b := (slocks s (ChBufLock b))\<lparr>slocked := True, spid := cur_pid s\<rparr>)\<rparr>"
  have g': "bget 1 n s = Ok (b, ?s)"
    using f free cache_invD(1) [OF inv] by (simp add: bget_miss [OF cache_invD(1) [OF inv] ord none] acquiresleep_eq)
  have "iderw b ?s = Ok (set_buf b (\<lambda>x. x\<lparr>bdata := disk ?s (bblockno x), bvalid := True\<rparr>) ?s)"
    using n cache_invD(1) [OF inv] by (intro iderw_read) (auto simp: held_by_me_def)
  moreover have "(bufs s b)\<lparr>bvalid := True, bdev := 1, bblockno := n, brefcnt := 1, bdata := bview s n\<rparr> =
    (bufs s b)\<lparr>bdev := 1, bblockno := n, bdirty := False, brefcnt := 1, bdata := disk s n, bvalid := True\<rparr>"
    using bview_unmatched [OF inv none] P(2) by (simp add: buf_eq_iff)
  ultimately show "bread 1 n s = Ok (b, grab b n s)"
    unfolding bread_def g' grab_def by (simp add: set_buf_def)
qed

lemma bread_miss:
  assumes inv: "cache_inv s" and none: "\<And>i. i < NBUF \<Longrightarrow> \<not> matches n (bufs s i)" and n: "n < disksize s"
  shows "(\<exists>b<NBUF. bread 1 n s = Ok (b, grab b n s) \<and> brefcnt (bufs s b) = 0 \<and> \<not> bdirty (bufs s b)) \<or>
    bread 1 n s = Panic ''bget: no buffers'' \<and> (\<forall>b<NBUF. brefcnt (bufs s b) \<noteq> 0 \<or> bdirty (bufs s b))"
proof -
  obtain ord where ord: "lru (bufs s) ord" using cache_invD(2) [OF inv] by blast
  show ?thesis
  proof (cases "find (\<lambda>i. brefcnt (bufs s i) = 0 \<and> \<not> bdirty (bufs s i)) (rev ord)")
    case None
    then have "\<forall>b<NBUF. brefcnt (bufs s b) \<noteq> 0 \<or> bdirty (bufs s b)"
      using ord by (auto simp: find_None_iff lru_def)
    moreover have "bread 1 n s = Panic ''bget: no buffers''"
      using None by (simp add: bread_def bget_miss [OF cache_invD(1) [OF inv] ord none])
    ultimately show ?thesis by blast
  qed (use bread_recycle [OF inv none n ord] in blast)
qed

section \<open>The cache as an interface\<close>

text \<open>
  What a change of the cache may do to its users: the layers below are undisturbed, sleep locks
  that are not buffer locks and everything above the cache keep their value.
\<close>

definition bio_frame :: "'a bio_st_scheme \<Rightarrow> 'a bio_st_scheme \<Rightarrow> bool" where
  "bio_frame s t \<longleftrightarrow> undisturbed s t \<and> disksize t = disksize s \<and> bio_st.more t = bio_st.more s \<and>
     (\<forall>c. (\<forall>i. c \<noteq> ChBufLock i) \<longrightarrow> slocks t c = slocks s c)"

lemma bio_frame_refl [simp]: "bio_frame s s"
  by (simp add: bio_frame_def)

lemma bio_frame_trans [trans]: "bio_frame s t \<Longrightarrow> bio_frame t u \<Longrightarrow> bio_frame s u"
  by (auto simp: bio_frame_def intro: undisturbed_trans)

lemma owns_buf_view:
  "cache_inv s \<Longrightarrow> owns_buf s i n \<Longrightarrow> bdata (bufs s i) = bview s n \<and> n \<in> held s \<and> length (bview s n) = BSIZE"
  using bview_cached [of s i] cache_invD(3) [of s i]
  by (auto simp: owns_buf_def held_by_me_def held_def buf_ok_def)

lemma bview_length: "cache_inv s \<Longrightarrow> length (bview s n) = BSIZE"
  using cache_invD(3,4) [of s]
  by (auto simp: bview_def cached_def buf_ok_def split: option.split dest!: find_SomeD)

lemma grab_frame: "bio_frame s (grab b n s)"
  by (auto simp: bio_frame_def grab_def undisturbed_def same_cpu_def)

lemma grab_sel:
  "bufs (grab b n s) = (bufs s)(b := (bufs s b)\<lparr>bvalid := True, bdev := 1, bblockno := n, brefcnt := 1, bdata := bview s n\<rparr>)"
  "slocks (grab b n s) = (slocks s)(ChBufLock b := (slocks s (ChBufLock b))\<lparr>slocked := True, spid := cur_pid s\<rparr>)"
  "disk (grab b n s) = disk s" "dtrace (grab b n s) = dtrace s" "disksize (grab b n s) = disksize s"
  by (simp_all add: grab_def)

lemma grab_cur_pid [simp]: "cur_pid (grab b n s) = cur_pid s"
  by (simp add: grab_def)

lemma lru_cong:
  "(\<And>i. bnext (cs i) = bnext (bs i)) \<Longrightarrow> (\<And>i. bprev (cs i) = bprev (bs i)) \<Longrightarrow> lru cs ord = lru bs ord"
  by (simp add: lru_def)

text \<open>A change of one buffer, its lock and its block on disk.\<close>

lemma cache_inv_upd:
  assumes inv: "cache_inv s" and "calm t" and b: "b < NBUF"
    and bufs: "\<And>i. i \<noteq> b \<Longrightarrow> bufs t i = bufs s i"
    and links: "bnext (bufs t b) = bnext (bufs s b)" "bprev (bufs t b) = bprev (bufs s b)"
    and sl: "\<And>i. i \<noteq> b \<Longrightarrow> slocks t (ChBufLock i) = slocks s (ChBufLock i)"
    and sz: "disksize t = disksize s"
    and dk: "\<And>n. n \<noteq> bblockno (bufs t b) \<Longrightarrow> disk t n = disk s n"
    and len: "length (disk t (bblockno (bufs t b))) = BSIZE"
    and ok: "buf_ok t b"
    and uniq: "\<And>i. i < NBUF \<Longrightarrow> i \<noteq> b \<Longrightarrow> matches (bblockno (bufs t b)) (bufs s i) \<Longrightarrow> False"
  shows "cache_inv t"
proof -
  obtain ord where "lru (bufs s) ord" using cache_invD(2) [OF inv] by blast
  then have "lru (bufs t) ord"
    by (subst lru_cong [of "bufs t" "bufs s"]) (use bufs links in metis)+
  moreover have "buf_ok t i" if "i < NBUF" for i
  proof (cases "i = b")
    case False
    have oki: "buf_ok s i" by (rule cache_invD(3) [OF inv \<open>i < NBUF\<close>])
    then have "bvalid (bufs s i) \<longrightarrow> disk t (bblockno (bufs s i)) = disk s (bblockno (bufs s i))"
      using uniq [OF \<open>i < NBUF\<close> False] dk by (auto simp: matches_def buf_ok_def)
    then show ?thesis using oki False bufs sl sz by (simp add: buf_ok_def)
  qed (use ok in simp)
  moreover have "i = j" if "i < NBUF" "j < NBUF" "bdev (bufs t i) = 1" "bdev (bufs t j) = 1"
    "bblockno (bufs t i) = bblockno (bufs t j)" for i j
    using that cache_invD(5) [OF inv, of i j] uniq [of i] uniq [of j] bufs
    by (cases "i = b"; cases "j = b") (auto simp: matches_def)
  moreover have "length (disk t n) = BSIZE" for n
    using len dk cache_invD(4) [OF inv] by (cases "n = bblockno (bufs t b)") auto
  ultimately show ?thesis using assms(2) unfolding cache_inv_def by blast
qed

lemma bview_cong:
  assumes "cache_inv s" "cache_inv t" "disk t m = disk s m"
    and same: "\<And>i. i < NBUF \<Longrightarrow> (bvalid (bufs t i) \<and> bblockno (bufs t i) = m) = (bvalid (bufs s i) \<and> bblockno (bufs s i) = m)"
    and data: "\<And>i. i < NBUF \<Longrightarrow> bvalid (bufs s i) \<Longrightarrow> bblockno (bufs s i) = m \<Longrightarrow> bdata (bufs t i) = bdata (bufs s i)"
  shows "bview t m = bview s m"
proof (cases "\<exists>i<NBUF. bvalid (bufs s i) \<and> bblockno (bufs s i) = m")
  case True
  then obtain i where i: "i < NBUF" "bvalid (bufs s i)" "bblockno (bufs s i) = m" by blast
  with same [of i] data [of i] have "bvalid (bufs t i)" "bblockno (bufs t i) = m" "bdata (bufs t i) = bdata (bufs s i)" by auto
  then show ?thesis using bview_cached [OF assms(1) i(1,2)] bview_cached [OF assms(2) i(1)] i(3) by simp
next
  case False
  then have "bview s m = disk s m" by (intro bview_uncached) auto
  moreover have "bview t m = disk t m" using False same by (intro bview_uncached) blast
  ultimately show ?thesis using assms(3) by simp
qed

lemma grab_inv:
  assumes inv: "cache_inv s" and b: "b < NBUF" "\<not> slocked (slocks s (ChBufLock b))"
    and n: "n < disksize s" and m: "matches n (bufs s b) \<or> \<not> bdirty (bufs s b) \<and> (\<forall>i<NBUF. \<not> matches n (bufs s i))"
  shows "cache_inv (grab b n s)"
proof (rule cache_inv_upd [OF inv _ b(1)])
  show "calm (grab b n s)" using cache_invD(1) [OF inv] by (simp add: grab_def)
  show "buf_ok (grab b n s) b" using n bview_length [OF inv] by (simp add: buf_ok_def grab_sel)
  fix i assume "i < NBUF" "i \<noteq> b" "matches (bblockno (bufs (grab b n s) b)) (bufs s i)"
  then have "matches n (bufs s i)" by (simp add: grab_sel)
  then show False using m cache_invD(5) [OF inv, of i b] \<open>i < NBUF\<close> \<open>i \<noteq> b\<close> b(1) by (auto simp: matches_def)
qed (use cache_invD(4) [OF inv] in \<open>simp_all add: grab_sel\<close>)

lemma grab_owns:
  assumes "b < NBUF" "\<not> slocked (slocks s (ChBufLock b))"
  shows "owns_buf (grab b n s) b n" "owns_buf s j k \<Longrightarrow> owns_buf (grab b n s) j k"
proof -
  show "owns_buf (grab b n s) b n" using assms(1) by (simp add: owns_buf_def held_by_me_def grab_sel)
  assume o: "owns_buf s j k"
  then have "j \<noteq> b" using assms(2) by (auto simp: owns_buf_def held_by_me_def)
  with o show "owns_buf (grab b n s) j k" by (simp add: owns_buf_def held_by_me_def grab_sel)
qed

lemma grab_held:
  assumes "b < NBUF" "\<not> slocked (slocks s (ChBufLock b))"
  shows "held (grab b n s) = insert n (held s)"
proof (intro set_eqI iffI)
  fix x assume "x \<in> held (grab b n s)"
  then obtain i where i: "i < NBUF" "x = bblockno (bufs (grab b n s) i)" "slocked (slocks (grab b n s) (ChBufLock i))"
    by (auto simp: held_def)
  show "x \<in> insert n (held s)"
  proof (cases "i = b")
    case False
    then have "x = bblockno (bufs s i)" "slocked (slocks s (ChBufLock i))" using i by (simp_all add: grab_sel)
    then show ?thesis using i(1) by (auto simp: held_def)
  qed (use i(2) in \<open>simp add: grab_sel\<close>)
next
  fix x assume "x \<in> insert n (held s)"
  then consider "x = n" | i where "i < NBUF" "x = bblockno (bufs s i)" "slocked (slocks s (ChBufLock i))"
    by (auto simp: held_def)
  then show "x \<in> held (grab b n s)"
  proof cases
    case 1
    then show ?thesis using assms(1) unfolding held_def by (auto intro!: exI [of _ b] simp: grab_sel)
  next
    case 2
    then have "i \<noteq> b" using assms(2) by auto
    then show ?thesis using 2 unfolding held_def by (auto intro!: exI [of _ i] simp: grab_sel)
  qed
qed

lemma pinned_cong:
  "(\<And>i. i < NBUF \<Longrightarrow> bdirty (bufs t i) = bdirty (bufs s i)) \<Longrightarrow>
    (\<And>i. i < NBUF \<Longrightarrow> bdirty (bufs s i) \<Longrightarrow> bblockno (bufs t i) = bblockno (bufs s i)) \<Longrightarrow> pinned t = pinned s"
  unfolding pinned_def by force

lemma grab_view:
  assumes inv: "cache_inv s" and b: "b < NBUF" "\<not> slocked (slocks s (ChBufLock b))"
    and n: "n < disksize s" and m: "matches n (bufs s b) \<or> \<not> bdirty (bufs s b) \<and> (\<forall>i<NBUF. \<not> matches n (bufs s i))"
  shows "bview (grab b n s) k = bview s k"
proof -
  have inv': "cache_inv (grab b n s)" by (rule grab_inv [OF assms])
  consider "k = n" | "k \<noteq> n" "bvalid (bufs s b)" "bblockno (bufs s b) = k"
    | "k \<noteq> n" "\<not> (bvalid (bufs s b) \<and> bblockno (bufs s b) = k)" by blast
  then show ?thesis
  proof cases
    case 1
    then show ?thesis
      using owns_buf_view [OF inv' grab_owns(1) [OF b, where n = n]] by (simp add: grab_sel)
  next
    case 2
    then have "\<not> bdirty (bufs s b)" using m by (auto simp: matches_def)
    then have "bview s k = disk s k"
      using 2 b cache_invD(3) [OF inv b(1)] bview_cached [OF inv b(1)] by (auto simp: buf_ok_def)
    moreover have "bview (grab b n s) k = disk (grab b n s) k"
    proof (rule bview_uncached)
      fix i assume i: "i < NBUF" "bvalid (bufs (grab b n s) i)"
      show "bblockno (bufs (grab b n s) i) \<noteq> k"
      proof (cases "i = b")
        case False
        then have "bvalid (bufs s i)" using i(2) by (simp add: grab_sel)
        then have "bdev (bufs s i) = 1" "bdev (bufs s b) = 1"
          using cache_invD(3) [OF inv i(1)] cache_invD(3) [OF inv b(1)] 2 by (auto simp: buf_ok_def)
        then show ?thesis using False 2 cache_invD(5) [OF inv i(1) b(1)] by (auto simp: grab_sel)
      qed (use 2 in \<open>simp add: grab_sel\<close>)
    qed
    ultimately show ?thesis by (simp add: grab_sel)
  next
    case 3
    show ?thesis
    proof (rule bview_cong [OF inv inv'])
      fix i
      show "(bvalid (bufs (grab b n s) i) \<and> bblockno (bufs (grab b n s) i) = k) = (bvalid (bufs s i) \<and> bblockno (bufs s i) = k)"
        using 3 by (cases "i = b") (simp_all add: grab_sel)
      show "bvalid (bufs s i) \<Longrightarrow> bblockno (bufs s i) = k \<Longrightarrow> bdata (bufs (grab b n s) i) = bdata (bufs s i)"
        using 3 by (cases "i = b") (simp_all add: grab_sel)
    qed (simp add: grab_sel)
  qed
qed

lemma full_cache:
  assumes inv: "cache_inv s" and full: "\<forall>b<NBUF. brefcnt (bufs s b) \<noteq> 0 \<or> bdirty (bufs s b)"
  shows "card (held s \<union> pinned s) = NBUF"
proof -
  have v: "bvalid (bufs s b) \<and> bdev (bufs s b) = 1 \<and> (slocked (slocks s (ChBufLock b)) \<or> bdirty (bufs s b))" if "b < NBUF" for b
    using cache_invD(3) [OF inv that] full that by (auto simp: buf_ok_def split: if_splits)
  have "held s \<union> pinned s = (\<lambda>b. bblockno (bufs s b)) ` {..<NBUF}"
    using v by (auto simp: held_def pinned_def)
  moreover have "inj_on (\<lambda>b. bblockno (bufs s b)) {..<NBUF}"
    using v cache_invD(5) [OF inv] by (auto simp: inj_on_def)
  ultimately show ?thesis by (simp add: card_image)
qed

text \<open>The abstract cache: blocks held, blocks pinned, current contents, disk contents, disk writes.\<close>

record acache =
  ah :: "u32 set"
  ap :: "u32 set"
  av :: "u32 \<Rightarrow> u8 list"
  ad :: "u32 \<Rightarrow> u8 list"
  at :: "(u32 \<times> u8 list) list"

definition cabs :: "'a bio_st_scheme \<Rightarrow> acache" where
  "cabs s = \<lparr>ah = held s, ap = pinned s, av = bview s, ad = disk s, at = dtrace s\<rparr>"

lemma cabs_sel [simp]:
  "ah (cabs s) = held s" "ap (cabs s) = pinned s" "av (cabs s) = bview s" "ad (cabs s) = disk s" "at (cabs s) = dtrace s"
  by (simp_all add: cabs_def)

lemma bread_spec:
  assumes inv: "cache_inv s" and n: "n < disksize s" "n \<notin> held s"
  shows "outcome (if n \<in> pinned s \<or> card (held s \<union> pinned s) < NBUF then {} else {''bget: no buffers''}) (bread 1 n s)
    (\<lambda>(b, t). cache_inv t \<and> owns_buf t b n \<and> cabs t = (cabs s)\<lparr>ah := insert n (held s)\<rparr> \<and> bio_frame s t \<and>
      (\<forall>j k. owns_buf s j k \<longrightarrow> owns_buf t j k))"
proof -
  have got: ?thesis if b: "b < NBUF" "\<not> slocked (slocks s (ChBufLock b))" "bread 1 n s = Ok (b, grab b n s)"
    and m: "matches n (bufs s b) \<or> \<not> bdirty (bufs s b) \<and> (\<forall>i<NBUF. \<not> matches n (bufs s i))" for b
  proof -
    have "pinned (grab b n s) = pinned s"
      by (rule pinned_cong) (use m in \<open>auto simp: grab_sel matches_def\<close>)
    then have "cabs (grab b n s) = (cabs s)\<lparr>ah := insert n (held s)\<rparr>"
      using grab_view [OF inv b(1,2) n(1) m] by (simp add: cabs_def grab_held b fun_eq_iff grab_sel)
    then show ?thesis
      using grab_inv [OF inv b(1,2) n(1) m] grab_owns [OF b(1,2)] by (simp add: b(3) grab_frame)
  qed
  show ?thesis
  proof (cases "\<exists>b<NBUF. matches n (bufs s b)")
    case True
    then obtain b where b: "b < NBUF" "matches n (bufs s b)" by blast
    then have "\<not> slocked (slocks s (ChBufLock b))" using n(2) by (auto simp: held_def matches_def)
    then show ?thesis using got [OF b(1) _ bread_hit [OF inv b n]] b(2) by blast
  next
    case False
    then have none: "\<not> matches n (bufs s i)" if "i < NBUF" for i using that by blast
    from bread_miss [OF inv none n(1)] show ?thesis
    proof
      assume "\<exists>b<NBUF. bread 1 n s = Ok (b, grab b n s) \<and> brefcnt (bufs s b) = 0 \<and> \<not> bdirty (bufs s b)"
      then obtain b where b: "b < NBUF" "bread 1 n s = Ok (b, grab b n s)" "brefcnt (bufs s b) = 0" "\<not> bdirty (bufs s b)"
        by blast
      then have "\<not> slocked (slocks s (ChBufLock b))"
        using cache_invD(3) [OF inv b(1)] by (auto simp: buf_ok_def split: if_splits)
      then show ?thesis using got [OF b(1) _ b(2)] b(4) none by blast
    next
      assume p: "bread 1 n s = Panic ''bget: no buffers'' \<and> (\<forall>b<NBUF. brefcnt (bufs s b) \<noteq> 0 \<or> bdirty (bufs s b))"
      then have "card (held s \<union> pinned s) = NBUF" by (intro full_cache [OF inv]) blast
      moreover have "n \<notin> pinned s"
        using none cache_invD(3) [OF inv] by (auto simp: pinned_def matches_def buf_ok_def)
      ultimately show ?thesis using p by simp
    qed
  qed
qed

text \<open>Code outside the cache changes the data of a buffer it has locked.\<close>

definition set_data :: "nat \<Rightarrow> u8 list \<Rightarrow> 'a bio_st_scheme \<Rightarrow> 'a bio_st_scheme" where
  "set_data b d s = set_buf b (\<lambda>x. x\<lparr>bdata := d\<rparr>) s"

lemma owns_bufD:
  assumes "cache_inv s" "owns_buf s b n"
  shows "b < NBUF" "bblockno (bufs s b) = n" "slocked (slocks s (ChBufLock b))" "bvalid (bufs s b)" "bdev (bufs s b) = 1"
    "brefcnt (bufs s b) = 1" "n < disksize s" "held_by_me (ChBufLock b) s" "calm s" "length (bdata (bufs s b)) = BSIZE"
  using assms cache_invD(3) [OF assms(1), of b] cache_invD(1) [OF assms(1)]
  by (auto simp: owns_buf_def held_by_me_def buf_ok_def)

text \<open>Changes that keep the identity of the buffers and their locks.\<close>

definition buf_change :: "nat \<Rightarrow> 'a bio_st_scheme \<Rightarrow> 'a bio_st_scheme \<Rightarrow> bool" where
  "buf_change b s t \<longleftrightarrow> (\<forall>i. i \<noteq> b \<longrightarrow> bufs t i = bufs s i) \<and>
     bvalid (bufs t b) = bvalid (bufs s b) \<and> bdev (bufs t b) = bdev (bufs s b) \<and> brefcnt (bufs t b) = brefcnt (bufs s b) \<and>
     bblockno (bufs t b) = bblockno (bufs s b) \<and> bprev (bufs t b) = bprev (bufs s b) \<and> bnext (bufs t b) = bnext (bufs s b) \<and>
     length (bdata (bufs t b)) = BSIZE \<and>
     slocks t = slocks s \<and> disksize t = disksize s \<and> bio_frame s t \<and>
     (\<forall>n. n \<noteq> bblockno (bufs s b) \<longrightarrow> disk t n = disk s n) \<and> length (disk t (bblockno (bufs s b))) = BSIZE"

lemma buf_change_spec:
  assumes inv: "cache_inv s" and o: "owns_buf s b n" and c: "buf_change b s t"
  shows "cache_inv t" "owns_buf s j k \<Longrightarrow> owns_buf t j k" "held t = held s" "bview t = (bview s)(n := bdata (bufs t b))"
    "pinned t = (if bdirty (bufs t b) then insert n (pinned s) else pinned s - {n})"
proof -
  note D = owns_bufD [OF inv o]
  have tb: "bvalid (bufs t b) = bvalid (bufs s b)" "bdev (bufs t b) = bdev (bufs s b)" "brefcnt (bufs t b) = brefcnt (bufs s b)"
    "bblockno (bufs t b) = bblockno (bufs s b)" "length (bdata (bufs t b)) = BSIZE"
    using c by (simp_all add: buf_change_def)
  have oth: "i \<noteq> b \<Longrightarrow> bufs t i = bufs s i" for i using c by (simp add: buf_change_def)
  have sl: "slocks t = slocks s" "disksize t = disksize s" using c by (simp_all add: buf_change_def)
  have u: "undisturbed s t" using c by (simp add: buf_change_def bio_frame_def)
  have cp: "cur_pid t = cur_pid s" by (rule undisturbed_cur_pid [OF u D(9)])
  have no: "bblockno (bufs t i) = bblockno (bufs s i)" "bvalid (bufs t i) = bvalid (bufs s i)" for i
    using tb oth by (cases "i = b"; simp)+
  show inv': "cache_inv t"
  proof (rule cache_inv_upd [OF inv _ D(1)])
    show "calm t" using undisturbed_calm [OF u] D(9) by simp
    show "buf_ok t b" using D by (simp add: buf_ok_def tb sl)
    fix i assume "i < NBUF" "i \<noteq> b" "matches (bblockno (bufs t b)) (bufs s i)"
    then show False using cache_invD(5) [OF inv _ D(1), of i] D(5) tb by (simp add: matches_def)
  qed (use c tb in \<open>simp_all add: buf_change_def\<close>)
  show "owns_buf s j k \<Longrightarrow> owns_buf t j k" by (simp add: owns_buf_def no held_by_me_def sl cp)
  show "held t = held s" by (simp add: held_def no sl)
  show "bview t = (bview s)(n := bdata (bufs t b))"
  proof
    fix k show "bview t k = ((bview s)(n := bdata (bufs t b))) k"
    proof (cases "k = n")
      case True
      then show ?thesis using bview_cached [OF inv' D(1)] D(2,4) no by simp
    next
      case False
      have "bview t k = bview s k"
      proof (rule bview_cong [OF inv inv'])
        fix i assume "bblockno (bufs s i) = k"
        then have "i \<noteq> b" using False D(2) by auto
        then show "bdata (bufs t i) = bdata (bufs s i)" by (simp add: oth)
      qed (use False D(2) c no in \<open>simp_all add: buf_change_def\<close>)
      then show ?thesis using False by simp
    qed
  qed
  have only: "i < NBUF \<Longrightarrow> bblockno (bufs s i) = n \<Longrightarrow> bdirty (bufs s i) \<Longrightarrow> i = b" for i
    using cache_invD(5) [OF inv _ D(1), of i] cache_invD(3) [OF inv, of i] D(2,5) by (auto simp: buf_ok_def)
  have in_t: "x \<in> pinned t \<longleftrightarrow> x = n \<and> bdirty (bufs t b) \<or> (\<exists>i<NBUF. i \<noteq> b \<and> x = bblockno (bufs s i) \<and> bdirty (bufs s i))" for x
  proof
    assume "x \<in> pinned t"
    then obtain i where "i < NBUF" "x = bblockno (bufs s i)" "bdirty (bufs t i)" unfolding pinned_def no by blast
    then show "x = n \<and> bdirty (bufs t b) \<or> (\<exists>i<NBUF. i \<noteq> b \<and> x = bblockno (bufs s i) \<and> bdirty (bufs s i))"
      using D(2) oth [of i] by (cases "i = b") auto
  next
    assume "x = n \<and> bdirty (bufs t b) \<or> (\<exists>i<NBUF. i \<noteq> b \<and> x = bblockno (bufs s i) \<and> bdirty (bufs s i))"
    then show "x \<in> pinned t" unfolding pinned_def no using D(1,2) oth by fastforce
  qed
  have in_s: "x \<in> pinned s \<and> x \<noteq> n \<longleftrightarrow> (\<exists>i<NBUF. i \<noteq> b \<and> x = bblockno (bufs s i) \<and> bdirty (bufs s i))" for x
    unfolding pinned_def using only D(2) by blast
  show "pinned t = (if bdirty (bufs t b) then insert n (pinned s) else pinned s - {n})"
    using in_t in_s by (cases "bdirty (bufs t b)") (auto simp: set_eq_iff)
qed

lemma frame_set_buf: "bio_frame s (set_buf b f s)"
  by (simp add: bio_frame_def set_buf_def undisturbed_def same_cpu_def)

lemma set_data_spec:
  assumes inv: "cache_inv s" and o: "owns_buf s b n" and d: "length d = BSIZE"
  shows "cache_inv (set_data b d s)" "owns_buf s j k \<Longrightarrow> owns_buf (set_data b d s) j k"
    "cabs (set_data b d s) = (cabs s)\<lparr>av := (bview s)(n := d)\<rparr>" "bio_frame s (set_data b d s)"
proof -
  note D = owns_bufD [OF inv o]
  have c: "buf_change b s (set_data b d s)"
    using d cache_invD(4) [OF inv] frame_set_buf [of s b]
    by (simp add: buf_change_def set_data_def)
  note S = buf_change_spec [OF inv o c]
  show "cache_inv (set_data b d s)" "owns_buf s j k \<Longrightarrow> owns_buf (set_data b d s) j k"
    "bio_frame s (set_data b d s)"
    using S c by (simp_all add: buf_change_def)
  have "pinned (set_data b d s) = pinned s"
    by (rule pinned_cong) (simp_all add: set_data_def)
  then show "cabs (set_data b d s) = (cabs s)\<lparr>av := (bview s)(n := d)\<rparr>"
    using S(3,4) by (simp add: cabs_def) (simp add: set_data_def)
qed

text \<open>\<open>log_write\<close> pins a locked buffer by marking it dirty.\<close>

lemma set_dirty_spec:
  assumes inv: "cache_inv s" and o: "owns_buf s b n"
  defines "t \<equiv> set_buf b (\<lambda>x. x\<lparr>bdirty := True\<rparr>) s"
  shows "cache_inv t" "owns_buf s j k \<Longrightarrow> owns_buf t j k" "cabs t = (cabs s)\<lparr>ap := insert n (pinned s)\<rparr>" "bio_frame s t"
proof -
  note D = owns_bufD [OF inv o]
  have c: "buf_change b s t"
    using D(10) cache_invD(4) [OF inv] frame_set_buf [of s b]
    by (simp add: buf_change_def t_def)
  note S = buf_change_spec [OF inv o c]
  show "cache_inv t" "owns_buf s j k \<Longrightarrow> owns_buf t j k" "bio_frame s t"
    using S c by (simp_all add: buf_change_def)
  have "bview s n = bdata (bufs s b)" using owns_buf_view [OF inv o] by simp
  then show "cabs t = (cabs s)\<lparr>ap := insert n (pinned s)\<rparr>"
    using S(3-5) by (simp add: cabs_def t_def fun_upd_idem)
qed

lemma bwrite_eq:
  assumes inv: "cache_inv s" and o: "owns_buf s b n"
  shows "bwrite b s = Ok ((set_buf b (\<lambda>x. x\<lparr>bdirty := False, bvalid := True\<rparr>) s)
    \<lparr>disk := (disk s)(n := bdata (bufs s b)), dtrace := dtrace s @ [(n, bdata (bufs s b))]\<rparr>)"
  using owns_bufD [OF inv o]
  by (simp add: bwrite_def iderw_def holdingsleep_eq Let_def) (simp add: set_buf_def)

lemma bwrite_spec:
  assumes inv: "cache_inv s" and o: "owns_buf s b n"
  shows "succeeds (bwrite b s) (\<lambda>t. cache_inv t \<and> (\<forall>j k. owns_buf s j k \<longrightarrow> owns_buf t j k) \<and> bio_frame s t \<and>
    cabs t = (cabs s)\<lparr>ap := pinned s - {n}, ad := (disk s)(n := bview s n), at := dtrace s @ [(n, bview s n)]\<rparr>)"
proof -
  note D = owns_bufD [OF inv o]
  let ?t = "(set_buf b (\<lambda>x. x\<lparr>bdirty := False, bvalid := True\<rparr>) s)
    \<lparr>disk := (disk s)(n := bdata (bufs s b)), dtrace := dtrace s @ [(n, bdata (bufs s b))]\<rparr>"
  have "bio_frame s ?t" by (simp add: bio_frame_def undisturbed_def same_cpu_def set_buf_def)
  then have c: "buf_change b s ?t"
    using D(2,4,10) cache_invD(4) [OF inv] by (simp add: buf_change_def)
  note S = buf_change_spec [OF inv o c]
  have v: "bview s n = bdata (bufs s b)" using owns_buf_view [OF inv o] by simp
  have f: "bio_frame s ?t" using c by (simp add: buf_change_def)
  have "cabs ?t = (cabs s)\<lparr>ap := pinned s - {n}, ad := (disk s)(n := bview s n), at := dtrace s @ [(n, bview s n)]\<rparr>"
    using S(3-5) v by (simp add: cabs_def fun_upd_idem)
  then show ?thesis using S(1,2) f by (simp add: bwrite_eq [OF inv o])
qed

lemma front_spec:
  assumes inv: "cache_inv s" and b: "b < NBUF"
  defines "t \<equiv> s\<lparr>bufs := move_front b (bufs s)\<rparr>"
  shows "cache_inv t" "cabs t = cabs s" "owns_buf t = owns_buf s"
proof -
  obtain ord where ord: "lru (bufs s) ord" using cache_invD(2) [OF inv] by blast
  then have "lru (bufs t) (b # remove1 b ord)" using lru_move_front [OF ord, of b] b by (simp add: t_def lru_def)
  moreover have same: "bvalid (bufs t i) = bvalid (bufs s i)" "bdirty (bufs t i) = bdirty (bufs s i)" "bdev (bufs t i) = bdev (bufs s i)"
    "bblockno (bufs t i) = bblockno (bufs s i)" "brefcnt (bufs t i) = brefcnt (bufs s i)" "bdata (bufs t i) = bdata (bufs s i)" for i
    by (simp_all add: t_def move_front_same)
  moreover have "buf_ok t i = buf_ok s i" for i unfolding buf_ok_def same by (simp add: t_def)
  moreover have d: "disk t = disk s" "dtrace t = dtrace s" "slocks t = slocks s" by (simp_all add: t_def)
  moreover have "calm t" using cache_invD(1) [OF inv] by (simp add: t_def)
  ultimately show inv': "cache_inv t"
    using inv unfolding cache_inv_def by (simp add: same) blast
  have "bview t k = bview s k" for k by (rule bview_cong [OF inv inv']) (simp_all add: same d)
  then show "cabs t = cabs s" by (simp add: cabs_def held_def pinned_def same d fun_eq_iff)
  show "owns_buf t = owns_buf s" by (simp add: owns_buf_def same fun_eq_iff) (simp add: t_def)
qed

definition drop_ref :: "nat \<Rightarrow> 'a bio_st_scheme \<Rightarrow> 'a bio_st_scheme" where
  "drop_ref b s =
     s\<lparr>slocks := (slocks s)(ChBufLock b := (slocks s (ChBufLock b))\<lparr>slocked := False, spid := 0\<rparr>),
       procs := map (wake (Some (ChBufLock b))) (procs s),
       bufs := (bufs s)(b := (bufs s b)\<lparr>brefcnt := brefcnt (bufs s b) - 1\<rparr>)\<rparr>"

lemma drop_ref_sel:
  "bufs (drop_ref b s) = (bufs s)(b := (bufs s b)\<lparr>brefcnt := brefcnt (bufs s b) - 1\<rparr>)"
  "slocks (drop_ref b s) = (slocks s)(ChBufLock b := (slocks s (ChBufLock b))\<lparr>slocked := False, spid := 0\<rparr>)"
  "disk (drop_ref b s) = disk s" "dtrace (drop_ref b s) = dtrace s" "disksize (drop_ref b s) = disksize s"
  by (simp_all add: drop_ref_def)

lemma drop_ref_frame: "bio_frame s (drop_ref b s)"
  by (auto simp: bio_frame_def drop_ref_def undisturbed_def same_cpu_def)

lemma drop_ref_spec:
  assumes inv: "cache_inv s" and o: "owns_buf s b n" and clean: "n \<in> pinned s \<or> bview s n = disk s n"
  shows "cache_inv (drop_ref b s)" "cabs (drop_ref b s) = (cabs s)\<lparr>ah := held s - {n}\<rparr>"
    "owns_buf s j k \<Longrightarrow> k \<noteq> n \<Longrightarrow> owns_buf (drop_ref b s) j k"
proof -
  let ?t = "drop_ref b s"
  note D = owns_bufD [OF inv o]
  have u: "undisturbed s ?t" using drop_ref_frame [of s b] by (simp add: bio_frame_def)
  have uniq: "i < NBUF \<Longrightarrow> bdev (bufs s i) = 1 \<Longrightarrow> bblockno (bufs s i) = n \<Longrightarrow> i = b" for i
    using cache_invD(5) [OF inv _ D(1), of i] D(2,5) by simp
  have dirty: "bdirty (bufs s b) \<or> bdata (bufs s b) = disk s n"
    using clean
  proof
    assume "n \<in> pinned s"
    then obtain i where i: "i < NBUF" "bblockno (bufs s i) = n" "bdirty (bufs s i)" by (auto simp: pinned_def)
    then have "i = b" using uniq [of i] cache_invD(3) [OF inv, of i] by (auto simp: buf_ok_def)
    then show ?thesis using i by simp
  qed (use owns_buf_view [OF inv o] in simp)
  show inv': "cache_inv ?t"
  proof (rule cache_inv_upd [OF inv _ D(1)])
    show "calm ?t" using undisturbed_calm [OF u] D(9) by simp
    show "buf_ok ?t b" using D dirty by (simp add: buf_ok_def drop_ref_sel)
    fix i assume "i < NBUF" "i \<noteq> b" "matches (bblockno (bufs ?t b)) (bufs s i)"
    then show False using uniq [of i] D(2) by (simp add: matches_def drop_ref_sel)
  qed (use cache_invD(4) [OF inv] in \<open>simp_all add: drop_ref_sel\<close>)
  have same: "bvalid (bufs ?t i) = bvalid (bufs s i)" "bdirty (bufs ?t i) = bdirty (bufs s i)" "bdev (bufs ?t i) = bdev (bufs s i)"
    "bblockno (bufs ?t i) = bblockno (bufs s i)" "bdata (bufs ?t i) = bdata (bufs s i)" for i
    by (simp_all add: drop_ref_sel)
  have "bview ?t k = bview s k" for k by (rule bview_cong [OF inv inv']) (simp_all add: same drop_ref_sel)
  moreover have "pinned ?t = pinned s" by (simp add: pinned_def same)
  moreover have "held ?t = held s - {n}"
  proof (intro set_eqI iffI)
    fix x assume "x \<in> held ?t"
    then obtain i where i: "i < NBUF" "x = bblockno (bufs s i)" "slocked (slocks ?t (ChBufLock i))"
      unfolding held_def same by blast
    then have "i \<noteq> b" "slocked (slocks s (ChBufLock i))" by (auto simp: drop_ref_sel split: if_splits)
    moreover from this have "x \<noteq> n" using i uniq [of i] cache_invD(3) [OF inv, of i] by (auto simp: buf_ok_def)
    ultimately show "x \<in> held s - {n}" using i by (auto simp: held_def)
  next
    fix x assume "x \<in> held s - {n}"
    then obtain i where i: "i < NBUF" "x = bblockno (bufs s i)" "slocked (slocks s (ChBufLock i))" "x \<noteq> n"
      by (auto simp: held_def)
    then have "i \<noteq> b" using D(2) by auto
    then show "x \<in> held ?t" unfolding held_def same using i by (auto simp: drop_ref_sel intro!: exI [of _ i])
  qed
  ultimately show "cabs ?t = (cabs s)\<lparr>ah := held s - {n}\<rparr>" by (simp add: cabs_def fun_eq_iff drop_ref_sel)
  show "owns_buf ?t j k" if "owns_buf s j k" "k \<noteq> n"
  proof -
    have "j \<noteq> b" using that D(2) by (auto simp: owns_buf_def)
    then show ?thesis
      using that undisturbed_cur_pid [OF u D(9)] by (simp add: owns_buf_def same held_by_me_def drop_ref_sel)
  qed
qed

lemma brelse_eq:
  assumes inv: "cache_inv s" and o: "owns_buf s b n"
  shows "brelse b s = Ok ((drop_ref b s)\<lparr>bufs := move_front b (bufs (drop_ref b s))\<rparr>)"
  using owns_bufD [OF inv o]
  by (simp add: brelse_def holdingsleep_eq releasesleep_eq Let_def) (simp add: set_buf_def drop_ref_def)

lemma brelse_spec:
  assumes inv: "cache_inv s" and o: "owns_buf s b n" and clean: "n \<in> pinned s \<or> bview s n = disk s n"
  shows "succeeds (brelse b s) (\<lambda>t. cache_inv t \<and> cabs t = (cabs s)\<lparr>ah := held s - {n}\<rparr> \<and> bio_frame s t \<and>
    (\<forall>j k. owns_buf s j k \<longrightarrow> k \<noteq> n \<longrightarrow> owns_buf t j k))"
proof -
  note S = drop_ref_spec [OF assms]
  note F = front_spec [OF S(1) owns_bufD(1) [OF inv o]]
  have "bio_frame (drop_ref b s) ((drop_ref b s)\<lparr>bufs := move_front b (bufs (drop_ref b s))\<rparr>)"
    by (simp add: bio_frame_def undisturbed_def same_cpu_def)
  then show ?thesis
    using F S bio_frame_trans [OF drop_ref_frame] by (simp add: brelse_eq [OF inv o])
qed

text \<open>
  The interface on which the log and the file system build: \<open>abs\<close> is the abstract cache of a
  state, \<open>owns s i n\<close> says that the executing process has locked buffer \<open>i\<close>, which holds block
  \<open>n\<close>; \<open>frame\<close> says what no operation of the cache changes.
\<close>

locale block_cache =
  fixes inv :: "'s \<Rightarrow> bool" and abs :: "'s \<Rightarrow> acache" and size :: "'s \<Rightarrow> u32"
    and owns :: "'s \<Rightarrow> nat \<Rightarrow> u32 \<Rightarrow> bool" and frame :: "'s \<Rightarrow> 's \<Rightarrow> bool"
    and data :: "nat \<Rightarrow> 's \<Rightarrow> u8 list" and put :: "nat \<Rightarrow> u8 list \<Rightarrow> 's \<Rightarrow> 's"
    and get :: "u32 \<Rightarrow> 's \<Rightarrow> (nat \<times> 's) res" and wr :: "nat \<Rightarrow> 's \<Rightarrow> 's res" and rel :: "nat \<Rightarrow> 's \<Rightarrow> 's res"
  assumes get_law: "inv s \<Longrightarrow> n < size s \<Longrightarrow> n \<notin> ah (abs s) \<Longrightarrow>
      outcome (if n \<in> ap (abs s) \<or> card (ah (abs s) \<union> ap (abs s)) < NBUF then {} else {''bget: no buffers''}) (get n s)
        (\<lambda>(i, t). inv t \<and> owns t i n \<and> abs t = (abs s)\<lparr>ah := insert n (ah (abs s))\<rparr> \<and> frame s t \<and>
          (\<forall>j k. owns s j k \<longrightarrow> owns t j k))"
    and put_law: "inv s \<Longrightarrow> owns s i n \<Longrightarrow> length d = BSIZE \<Longrightarrow>
      inv (put i d s) \<and> abs (put i d s) = (abs s)\<lparr>av := (av (abs s))(n := d)\<rparr> \<and> frame s (put i d s) \<and>
        (\<forall>j k. owns s j k \<longrightarrow> owns (put i d s) j k)"
    and wr_law: "inv s \<Longrightarrow> owns s i n \<Longrightarrow>
      succeeds (wr i s) (\<lambda>t. inv t \<and> frame s t \<and> (\<forall>j k. owns s j k \<longrightarrow> owns t j k) \<and>
        abs t = (abs s)\<lparr>ap := ap (abs s) - {n}, ad := (ad (abs s))(n := av (abs s) n), at := at (abs s) @ [(n, av (abs s) n)]\<rparr>)"
    and rel_law: "inv s \<Longrightarrow> owns s i n \<Longrightarrow> n \<in> ap (abs s) \<or> av (abs s) n = ad (abs s) n \<Longrightarrow>
      succeeds (rel i s) (\<lambda>t. inv t \<and> abs t = (abs s)\<lparr>ah := ah (abs s) - {n}\<rparr> \<and> frame s t \<and>
        (\<forall>j k. owns s j k \<longrightarrow> k \<noteq> n \<longrightarrow> owns t j k))"
    and data_law: "inv s \<Longrightarrow> owns s i n \<Longrightarrow> data i s = av (abs s) n \<and> n \<in> ah (abs s)"
    and length_law: "inv s \<Longrightarrow> length (av (abs s) n) = BSIZE"
    and clean_law: "inv s \<Longrightarrow> n \<notin> ah (abs s) \<Longrightarrow> n \<notin> ap (abs s) \<Longrightarrow> av (abs s) n = ad (abs s) n"
    and frame_size: "frame s t \<Longrightarrow> size t = size s"
    and frame_refl: "frame s s"
    and frame_trans: "frame s t \<Longrightarrow> frame t u \<Longrightarrow> frame s u"

context block_cache
begin

text \<open>Reading a block and releasing it changes nothing.\<close>

lemma get_rel:
  assumes "inv s" "n < size s" "n \<notin> ah (abs s)"
  shows "outcome (if n \<in> ap (abs s) \<or> card (ah (abs s) \<union> ap (abs s)) < NBUF then {} else {''bget: no buffers''})
    (bindr (get n s) (\<lambda>(i, t). bindr (rel i t) (\<lambda>u. Ok (data i t, u))))
    (\<lambda>(d, u). d = av (abs s) n \<and> inv u \<and> abs u = abs s \<and> frame s u \<and> (\<forall>j k. owns s j k \<longrightarrow> owns u j k))"
proof -
  let ?Q = "\<lambda>(d, u). d = av (abs s) n \<and> inv u \<and> abs u = abs s \<and> frame s u \<and> (\<forall>j k. owns s j k \<longrightarrow> owns u j k)"
  have "succeeds (bindr (rel i t) (\<lambda>u. Ok (data i t, u))) ?Q"
    if t: "inv t" "owns t i n" "abs t = (abs s)\<lparr>ah := insert n (ah (abs s))\<rparr>" "frame s t" "\<forall>j k. owns s j k \<longrightarrow> owns t j k" for i t
  proof -
    have "n \<in> ap (abs t) \<or> av (abs t) n = ad (abs t) n" using clean_law [OF assms(1,3)] t(3) by auto
    from rel_law [OF t(1,2) this] obtain u where u: "rel i t = Ok u" "inv u" "abs u = (abs t)\<lparr>ah := ah (abs t) - {n}\<rparr>"
      "frame t u" "\<forall>j k. owns t j k \<longrightarrow> k \<noteq> n \<longrightarrow> owns u j k" by (auto simp: succeeds_iff)
    have "abs u = abs s" using u(3) t(3) assms(3) by simp
    moreover have "owns u j k" if "owns s j k" for j k
      using that u(5) t(5) data_law [OF assms(1) that] assms(3) by auto
    ultimately show ?thesis using u t frame_trans data_law [OF t(1,2)] by auto
  qed
  then show ?thesis
    by (simp only: outcome_bindr) (rule outcome_mono [OF get_law [OF assms]], auto simp: outcome_succeeds)
qed

text \<open>Copying block \<open>src\<close> over block \<open>dst\<close> and to the disk, with both buffers already locked.\<close>

lemma copy_locked:
  assumes s: "inv s" "owns s i src" "owns s j dst" "src \<noteq> dst" and clean: "src \<in> ap (abs s) \<or> av (abs s) src = ad (abs s) src"
  shows "succeeds (bindr (wr j (put j (data i s) s)) (\<lambda>s. bindr (rel i s) (rel j)))
    (\<lambda>t. inv t \<and> frame s t \<and> (\<forall>k m. owns s k m \<longrightarrow> m \<noteq> src \<longrightarrow> m \<noteq> dst \<longrightarrow> owns t k m) \<and>
      abs t = \<lparr>ah = ah (abs s) - {src, dst}, ap = ap (abs s) - {dst}, av = (av (abs s))(dst := av (abs s) src),
        ad = (ad (abs s))(dst := av (abs s) src), at = at (abs s) @ [(dst, av (abs s) src)]\<rparr>)"
proof -
  let ?d = "av (abs s) src"
  let ?p = "put j (data i s) s"
  have d: "data i s = ?d" "length ?d = BSIZE" using data_law [OF s(1,2)] length_law [OF s(1)] by auto
  have p: "inv ?p" "abs ?p = (abs s)\<lparr>av := (av (abs s))(dst := ?d)\<rparr>" "frame s ?p" "\<forall>k m. owns s k m \<longrightarrow> owns ?p k m"
    using put_law [OF s(1,3) d(2)] by (simp_all add: d(1))
  then have "owns ?p j dst" using s(3) by blast
  from wr_law [OF p(1) this] obtain w where w: "wr j ?p = Ok w" "inv w" "frame ?p w" "\<forall>k m. owns ?p k m \<longrightarrow> owns w k m"
    "abs w = (abs ?p)\<lparr>ap := ap (abs ?p) - {dst}, ad := (ad (abs ?p))(dst := av (abs ?p) dst), at := at (abs ?p) @ [(dst, av (abs ?p) dst)]\<rparr>"
    by (auto simp: succeeds_iff)
  have ow: "owns w i src" "owns w j dst" using s(2,3) p(4) w(4) by blast+
  have aw: "abs w = \<lparr>ah = ah (abs s), ap = ap (abs s) - {dst}, av = (av (abs s))(dst := ?d),
      ad = (ad (abs s))(dst := ?d), at = at (abs s) @ [(dst, ?d)]\<rparr>"
    using w(5) p(2) by simp
  have "src \<in> ap (abs w) \<or> av (abs w) src = ad (abs w) src" using clean s(4) by (auto simp: aw)
  from rel_law [OF w(2) ow(1) this] obtain u where u: "rel i w = Ok u" "inv u" "frame w u"
    "abs u = (abs w)\<lparr>ah := ah (abs w) - {src}\<rparr>" "\<forall>k m. owns w k m \<longrightarrow> m \<noteq> src \<longrightarrow> owns u k m" by (auto simp: succeeds_iff)
  have "owns u j dst" using ow(2) u(5) s(4) by blast
  moreover have "dst \<in> ap (abs u) \<or> av (abs u) dst = ad (abs u) dst" by (simp add: u(4) aw)
  ultimately obtain v where v: "rel j u = Ok v" "inv v" "frame u v"
    "abs v = (abs u)\<lparr>ah := ah (abs u) - {dst}\<rparr>" "\<forall>k m. owns u k m \<longrightarrow> m \<noteq> dst \<longrightarrow> owns v k m"
    using rel_law [OF u(2), of j dst] by (auto simp: succeeds_iff)
  have "frame s v" using p(3) w(3) u(3) v(3) frame_trans by metis
  moreover have "owns v k m" if "owns s k m" "m \<noteq> src" "m \<noteq> dst" for k m
    using that p(4) w(4) u(5) v(5) by blast
  moreover have "ah (abs s) - {src} - {dst} = ah (abs s) - {src, dst}" by auto
  ultimately show ?thesis using w(1) u(1) v(1,2,4) by (simp add: u(4) aw)
qed

lemma copy_block:
  assumes s: "inv s" "a < size s" "b < size s" "a \<notin> ah (abs s)" "b \<notin> ah (abs s)" "a \<noteq> b"
    and room: "a \<in> ap (abs s) \<or> card (ah (abs s) \<union> ap (abs s)) < NBUF"
      "b \<in> ap (abs s) \<or> card (insert a (ah (abs s)) \<union> ap (abs s)) < NBUF"
    and src: "(src, dst) = (a, b) \<or> (src, dst) = (b, a)"
  shows "succeeds (bindr (get a s) (\<lambda>(i, s). bindr (get b s) (\<lambda>(j, s).
      bindr (wr (if src = a then j else i) (put (if src = a then j else i) (data (if src = a then i else j) s) s))
        (\<lambda>s. bindr (rel (if src = a then i else j) s) (rel (if src = a then j else i))))))
    (\<lambda>t. inv t \<and> frame s t \<and> (\<forall>k m. owns s k m \<longrightarrow> owns t k m) \<and>
      abs t = (abs s)\<lparr>ap := ap (abs s) - {dst}, av := (av (abs s))(dst := av (abs s) src),
        ad := (ad (abs s))(dst := av (abs s) src), at := at (abs s) @ [(dst, av (abs s) src)]\<rparr>)"
proof -
  from get_law [OF s(1,2,4)] room(1) obtain i u where u: "get a s = Ok (i, u)" "inv u" "owns u i a"
    "abs u = (abs s)\<lparr>ah := insert a (ah (abs s))\<rparr>" "frame s u" "\<forall>j k. owns s j k \<longrightarrow> owns u j k"
    by (auto simp: succeeds_iff)
  have "b < size u" "b \<notin> ah (abs u)" using s frame_size [OF u(5)] u(4) by auto
  from get_law [OF u(2) this] room(2) obtain j v where v: "get b u = Ok (j, v)" "inv v" "owns v j b"
    "abs v = (abs u)\<lparr>ah := insert b (ah (abs u))\<rparr>" "frame u v" "\<forall>j k. owns u j k \<longrightarrow> owns v j k"
    by (auto simp: succeeds_iff u(4))
  have ov: "owns v i a" using u(3) v(6) by blast
  have av': "abs v = (abs s)\<lparr>ah := insert b (insert a (ah (abs s)))\<rparr>" using u(4) v(4) by simp
  have src_dst: "src \<noteq> dst" "{src, dst} = {a, b}" using src s(6) by auto
  have "src \<in> ap (abs s) \<or> av (abs s) src = ad (abs s) src" using clean_law [OF s(1)] s(4,5) src by auto
  then have clean: "src \<in> ap (abs v) \<or> av (abs v) src = ad (abs v) src" by (simp add: av')
  have own: "owns v (if src = a then i else j) src" "owns v (if src = a then j else i) dst"
    using src ov v(3) s(6) by auto
  from copy_locked [OF v(2) own src_dst(1) clean] obtain t where
    t: "bindr (wr (if src = a then j else i) (put (if src = a then j else i) (data (if src = a then i else j) v) v))
        (\<lambda>s. bindr (rel (if src = a then i else j) s) (rel (if src = a then j else i))) = Ok t"
      "inv t" "frame v t" "\<forall>k m. owns v k m \<longrightarrow> m \<noteq> src \<longrightarrow> m \<noteq> dst \<longrightarrow> owns t k m"
      "abs t = \<lparr>ah = ah (abs v) - {src, dst}, ap = ap (abs v) - {dst}, av = (av (abs v))(dst := av (abs v) src),
        ad = (ad (abs v))(dst := av (abs v) src), at = at (abs v) @ [(dst, av (abs v) src)]\<rparr>"
    by (auto simp: succeeds_iff)
  have "ah (abs v) - {src, dst} = ah (abs s)" using s(4,5) by (auto simp: src_dst(2) av')
  then have "abs t = (abs s)\<lparr>ap := ap (abs s) - {dst}, av := (av (abs s))(dst := av (abs s) src),
        ad := (ad (abs s))(dst := av (abs s) src), at := at (abs s) @ [(dst, av (abs s) src)]\<rparr>"
    by (simp add: t(5) av')
  moreover have "owns t k m" if o: "owns s k m" for k m
  proof -
    have "m \<in> ah (abs s)" using data_law [OF s(1) o] by simp
    then have "m \<noteq> src" "m \<noteq> dst" using s(4,5) src by auto
    then show ?thesis using o u(6) v(6) t(4) by blast
  qed
  moreover have "frame s t" using u(5) v(5) t(3) frame_trans by metis
  ultimately show ?thesis using t(1,2) by (simp add: u(1) v(1))
qed

end

lemma bview_clean:
  assumes inv: "cache_inv s" and "n \<notin> held s" "n \<notin> pinned s"
  shows "bview s n = disk s n"
proof (cases "cached s n")
  case (Some i)
  then have i: "i < NBUF" "bvalid (bufs s i)" "bblockno (bufs s i) = n" by (auto simp: cached_def dest!: find_SomeD)
  then have "\<not> slocked (slocks s (ChBufLock i))" "\<not> bdirty (bufs s i)" using assms(2,3) by (auto simp: held_def pinned_def)
  then show ?thesis using Some i cache_invD(3) [OF inv i(1)] by (auto simp: bview_def buf_ok_def)
qed (simp add: bview_def)

interpretation cache: block_cache cache_inv cabs disksize owns_buf bio_frame "\<lambda>i s. bdata (bufs s i)" set_data
  "bread 1" bwrite brelse
proof (unfold_locales, goal_cases)
  case (1 s n)
  then show ?case unfolding cabs_sel by (rule bread_spec)
next
  case (2 s i n d)
  then show ?case by (simp add: set_data_spec)
next
  case (3 s i n)
  show ?case unfolding cabs_sel by (rule succeeds_mono [OF bwrite_spec [OF 3]]) simp
next
  case (4 s i n)
  then show ?case unfolding cabs_sel by (rule brelse_spec)
next
  case (5 s i n)
  then show ?case by (simp add: owns_buf_view)
next
  case (6 s n)
  then show ?case by (simp add: bview_length)
next
  case (7 s n)
  then show ?case by (simp add: bview_clean)
next
  case (8 s t)
  then show ?case by (simp add: bio_frame_def)
next
  case (9 s)
  then show ?case by simp
next
  case (10 s t u)
  then show ?case by (rule bio_frame_trans)
qed

section \<open>Initialisation\<close>

lemma initsleeplock_sel [simp]:
  "bufs (initsleeplock c s) = bufs s"
  "slocks (initsleeplock c s) = (slocks s)(c := (slocks s c)\<lparr>slocked := False, spid := 0\<rparr>)"
  by (simp_all add: initsleeplock_def initlock_def set_slock_def Let_def)

lemma binit_step_links:
  "b \<noteq> NBUF \<Longrightarrow> bnext (bufs (binit_step b s) i) = (if i = NBUF then b else if i = b then bnext (bufs s NBUF) else bnext (bufs s i))"
  "bprev (bufs (binit_step b s) i) = (if i = bnext (bufs s NBUF) then b else if i = b then NBUF else bprev (bufs s i))"
  by (simp_all add: binit_step_def Let_def)

lemma binit_fold_links:
  assumes "k \<le> NBUF" "bnext (bufs s NBUF) = NBUF" "bprev (bufs s NBUF) = NBUF"
  defines "t \<equiv> fold binit_step [0..<k] s"
  shows "chain (\<lambda>i. bnext (bufs t i)) (NBUF # rev [0..<k] @ [NBUF]) \<and> chain (\<lambda>i. bprev (bufs t i)) (NBUF # [0..<k] @ [NBUF])"
  using assms(1) unfolding t_def
proof (induction k)
  case 0
  then show ?case using assms(2,3) by simp
next
  case (Suc k)
  define u where "u = fold binit_step [0..<k] s"
  have IH: "chain (\<lambda>i. bnext (bufs u i)) (NBUF # rev [0..<k] @ [NBUF])" "chain (\<lambda>i. bprev (bufs u i)) (NBUF # [0..<k] @ [NBUF])"
    and k: "k \<noteq> NBUF" "k < NBUF" using Suc by (simp_all add: u_def)
  have n: "bnext (bufs u NBUF) = (if k = 0 then NBUF else k - 1)"
    using IH(1) by (cases k) simp_all
  have t: "fold binit_step [0..<Suc k] s = binit_step k u" by (simp add: u_def)
  have "chain (\<lambda>i. bnext (bufs (binit_step k u) i)) (rev [0..<k] @ [NBUF]) = chain (\<lambda>i. bnext (bufs u i)) (rev [0..<k] @ [NBUF])"
    by (rule chain_cong) (use k in \<open>auto simp: binit_step_links\<close>)
  moreover have "chain (\<lambda>i. bnext (bufs u i)) (rev [0..<k] @ [NBUF])" using IH(1) by (rule chain_tl)
  ultimately have "chain (\<lambda>i. bnext (bufs (binit_step k u) i)) (NBUF # rev [0..<Suc k] @ [NBUF])"
    using k assms(2) by (cases k) (simp_all add: binit_step_links n)
  moreover have "chain (\<lambda>i. bprev (bufs (binit_step k u) i)) (NBUF # [0..<k] @ [k])"
  proof (cases k)
    case (Suc j)
    have "chain (\<lambda>i. bprev (bufs (binit_step k u) i)) (NBUF # [0..<j] @ [j]) = chain (\<lambda>i. bprev (bufs u i)) (NBUF # [0..<j] @ [j])"
      by (rule chain_cong) (use k Suc in \<open>auto simp: binit_step_links(2) n butlast_append\<close>)
    moreover have "chain (\<lambda>i. bprev (bufs u i)) (NBUF # [0..<j] @ [j])"
      using IH(2) Suc chain_append [of "\<lambda>i. bprev (bufs u i)" "NBUF # [0..<j]" j "[NBUF]"] by simp
    moreover have "bprev (bufs (binit_step k u) j) = k" using Suc by (simp add: binit_step_links(2) n)
    ultimately show ?thesis
      using Suc chain_append [of "\<lambda>i. bprev (bufs (binit_step k u) i)" "NBUF # [0..<j]" j "[k]"] by simp
  qed (simp add: binit_step_links(2) n)
  moreover have "bprev (bufs (binit_step k u) k) = NBUF" using k by (auto simp: binit_step_links(2) n)
  ultimately show ?case
    unfolding t using chain_append [of "\<lambda>i. bprev (bufs (binit_step k u) i)" "NBUF # [0..<k]" k "[NBUF]"] by simp
qed

lemma initlock_calm: "calm s \<Longrightarrow> same_cpu s (initlock l s)"
  using calm_lock [of s l] by (simp add: same_cpu_def initlock_def unlocked_def fun_upd_idem)

lemma binit_step_same:
  "bvalid (bufs (binit_step b s) i) = bvalid (bufs s i)" "bdirty (bufs (binit_step b s) i) = bdirty (bufs s i)"
  "bdev (bufs (binit_step b s) i) = bdev (bufs s i)" "brefcnt (bufs (binit_step b s) i) = brefcnt (bufs s i)"
  "disk (binit_step b s) = disk s" "procs (binit_step b s) = procs s" "dtrace (binit_step b s) = dtrace s" "disksize (binit_step b s) = disksize s"
  "slocks (binit_step b s) = (slocks s)(ChBufLock b := (slocks s (ChBufLock b))\<lparr>slocked := False, spid := 0\<rparr>)"
  by (simp_all add: binit_step_def Let_def) (simp_all add: initsleeplock_def set_buf_def initlock_def set_slock_def)

lemma binit_step_calm: "calm s \<Longrightarrow> calm (binit_step b s)"
proof -
  assume "calm s"
  moreover have "same_cpu s (binit_step b s)"
    using initlock_calm [OF \<open>calm s\<close>, of "SleepLk (ChBufLock b)"]
    by (simp add: binit_step_def Let_def same_cpu_def set_buf_def initsleeplock_def set_slock_def initlock_def)
  ultimately show ?thesis by (simp add: calm_cong [of s] binit_step_same)
qed

lemma binit_fold_same:
  assumes "calm s"
  defines "t \<equiv> \<lambda>k. fold binit_step [0..<k] s"
  shows "calm (t k)" "bvalid (bufs (t k) i) = bvalid (bufs s i)" "bdirty (bufs (t k) i) = bdirty (bufs s i)"
    "bdev (bufs (t k) i) = bdev (bufs s i)" "brefcnt (bufs (t k) i) = brefcnt (bufs s i)" "disk (t k) = disk s" "disksize (t k) = disksize s" "dtrace (t k) = dtrace s"
    "j < k \<Longrightarrow> \<not> slocked (slocks (t k) (ChBufLock j))"
  by (induction k) (simp_all add: t_def assms(1) binit_step_calm binit_step_same less_Suc_eq, blast)

lemma binit_fold: "binit s = fold binit_step [0..<NBUF]
    (set_buf NBUF (\<lambda>h. h\<lparr>bnext := NBUF\<rparr>) (set_buf NBUF (\<lambda>h. h\<lparr>bprev := NBUF\<rparr>) (initlock BcacheLock s)))"
  by (simp add: binit_def Let_def)

lemma binit_lru: "lru (bufs (binit s)) (rev [0..<NBUF])"
  using binit_fold_links [of NBUF "set_buf NBUF (\<lambda>h. h\<lparr>bnext := NBUF\<rparr>) (set_buf NBUF (\<lambda>h. h\<lparr>bprev := NBUF\<rparr>) (initlock BcacheLock s))"]
  by (auto simp: lru_def binit_fold)

text \<open>On zeroed memory \<open>binit\<close> establishes the invariant of the cache.\<close>

lemma binit_inv:
  assumes "calm s" and zero: "\<And>i. \<not> bvalid (bufs s i) \<and> \<not> bdirty (bufs s i) \<and> bdev (bufs s i) = 0 \<and> brefcnt (bufs s i) = 0"
    and "\<And>n. length (disk s n) = BSIZE"
  shows "cache_inv (binit s)" "cabs (binit s) = \<lparr>ah = {}, ap = {}, av = disk s, ad = disk s, at = dtrace s\<rparr>"
    "disksize (binit s) = disksize s"
    "bdev (bufs (binit s) i) = 0" "brefcnt (bufs (binit s) i) = 0" "\<not> bdirty (bufs (binit s) i)"
proof -
  define u where "u = set_buf NBUF (\<lambda>h. h\<lparr>bnext := NBUF\<rparr>) (set_buf NBUF (\<lambda>h. h\<lparr>bprev := NBUF\<rparr>) (initlock BcacheLock s))"
  have c: "calm u"
    using initlock_calm [OF assms(1), of BcacheLock] assms(1) calm_cong [of s "initlock BcacheLock s"]
    by (simp add: u_def) (simp add: initlock_def)
  have b: "bvalid (bufs u i) = bvalid (bufs s i)" "bdirty (bufs u i) = bdirty (bufs s i)" "bdev (bufs u i) = bdev (bufs s i)"
    "brefcnt (bufs u i) = brefcnt (bufs s i)" "disk u = disk s" "disksize u = disksize s" "dtrace u = dtrace s" for i
    by (simp_all add: u_def initlock_def)
  have e: "binit s = fold binit_step [0..<NBUF] u" by (simp add: binit_fold u_def)
  have z: "\<not> bvalid (bufs (binit s) i)" "\<not> bdirty (bufs (binit s) i)" "bdev (bufs (binit s) i) = 0"
    "brefcnt (bufs (binit s) i) = 0" "disk (binit s) = disk s" "disksize (binit s) = disksize s" "dtrace (binit s) = dtrace s" for i
    using zero [of i] unfolding e binit_fold_same [OF c] b by simp_all
  have "calm (binit s)" and l: "\<And>j. j < NBUF \<Longrightarrow> \<not> slocked (slocks (binit s) (ChBufLock j))"
    unfolding e by (rule binit_fold_same [OF c], rule binit_fold_same(9) [OF c])
  then show "cache_inv (binit s)"
    unfolding cache_inv_def buf_ok_def using binit_lru [of s] z assms(3) by auto
  show "cabs (binit s) = \<lparr>ah = {}, ap = {}, av = disk s, ad = disk s, at = dtrace s\<rparr>"
    using l z bview_uncached [of "binit s"] by (auto simp: cabs_def held_def pinned_def fun_eq_iff)
  show "disksize (binit s) = disksize s" "bdev (bufs (binit s) i) = 0" "brefcnt (bufs (binit s) i) = 0"
    "\<not> bdirty (bufs (binit s) i)" by (rule z)+
qed

section \<open>Independence of the layers above\<close>

lemma calm_truncate: "calm (bio_st.truncate s) = calm s"
  by (rule calm_cong) (simp_all add: same_cpu_def bio_st.defs)

lemma truncate_sel:
  "bufs (bio_st.truncate s) = bufs s" "disk (bio_st.truncate s) = disk s" "disksize (bio_st.truncate s) = disksize s"
  "dtrace (bio_st.truncate s) = dtrace s" "slocks (bio_st.truncate s) = slocks s" "cur_pid (bio_st.truncate s) = cur_pid s"
  by (simp_all add: bio_st.defs cur_pid_def cur_def cpu_index_def)

lemma cache_truncate:
  "cache_inv (bio_st.truncate s) = cache_inv s" "cabs (bio_st.truncate s) = cabs s"
  "owns_buf (bio_st.truncate s) = owns_buf s"
proof -
  show "cache_inv (bio_st.truncate s) = cache_inv s"
    unfolding cache_inv_def buf_ok_def calm_truncate truncate_sel ..
  show "cabs (bio_st.truncate s) = cabs s"
    unfolding cabs_def held_def pinned_def bview_def [abs_def] cached_def truncate_sel ..
  show "owns_buf (bio_st.truncate s) = owns_buf s"
    unfolding owns_buf_def [abs_def] held_by_me_def truncate_sel ..
qed

lemma cache_cong:
  assumes "bio_st.truncate t = bio_st.truncate s"
  shows "cache_inv t = cache_inv s" "cabs t = cabs s" "owns_buf t = owns_buf s" "calm t = calm s"
  by (metis assms cache_truncate(1), metis assms cache_truncate(2), metis assms cache_truncate(3), metis assms calm_truncate)

lemma cabs_same:
  assumes "cabs t = cabs s"
  shows "held t = held s" "pinned t = pinned s" "bview t = bview s" "disk t = disk s" "dtrace t = dtrace s"
  using assms by (simp_all add: cabs_def)

section \<open>Properties\<close>

text \<open>
  C6: whatever has been read, changed, pinned, recycled and written before, \<^verbatim>\<open>bread\<close> of a block
  nobody has locked returns a locked buffer with the current contents of that block, keeps every
  other block's contents and every buffer the process already owns, and does not touch the disk.
  It panics only when the block is not pinned in the cache and all \<^verbatim>\<open>NBUF\<close> buffers are locked or
  dirty.
\<close>

theorem bread_correct:
  assumes "cache_inv s" "n < disksize s" "n \<notin> held s"
  shows "outcome (if n \<in> pinned s \<or> card (held s \<union> pinned s) < NBUF then {} else {''bget: no buffers''}) (bread 1 n s)
    (\<lambda>(b, t). cache_inv t \<and> owns_buf t b n \<and> bdata (bufs t b) = bview s n \<and>
      cabs t = (cabs s)\<lparr>ah := insert n (held s)\<rparr> \<and> (\<forall>j k. owns_buf s j k \<longrightarrow> owns_buf t j k))"
  by (rule outcome_mono [OF bread_spec [OF assms]]) (auto simp: owns_buf_view dest: arg_cong [where f = av])

definition run_proc :: proc_st where
  "run_proc = boot_proc\<lparr>cpus := (\<lambda>_. boot_cpu\<lparr>intena := True, cproc := Some 0\<rparr>)\<rparr>"

lemma run_proc_calm: "calm run_proc"
  by (simp add: calm_def quiet_def settled_def cpu_ok_def cpu_index_def cur_def run_proc_def boot_proc_def boot_kmem_def
      boot_kst_def boot_cpu_def kst.defs kmem_st.defs NPROC_def)

definition zero_buf :: buf where
  "zero_buf = \<lparr>bvalid = False, bdirty = False, bdev = 0, bblockno = 0, brefcnt = 0, bprev = 0, bnext = 0, bdata = []\<rparr>"

definition boot_bio :: bio_st where
  "boot_bio = binit (slp_st.extend (proc_st.extend run_proc \<lparr>slocks = (\<lambda>_. \<lparr>slocked = False, spid = 0\<rparr>)\<rparr>)
     \<lparr>bufs = (\<lambda>_. zero_buf), disksize = 1000, disk = (\<lambda>_. replicate 512 0), dtrace = []\<rparr>)"

lemma boot_bio_inv:
  "cache_inv boot_bio" "cabs boot_bio = \<lparr>ah = {}, ap = {}, av = (\<lambda>_. replicate 512 0), ad = (\<lambda>_. replicate 512 0), at = []\<rparr>"
  "disksize boot_bio = 1000" "held boot_bio = {}" "pinned boot_bio = {}" "bview boot_bio = (\<lambda>_. replicate 512 0)"
  "bdev (bufs boot_bio i) = 0" "brefcnt (bufs boot_bio i) = 0" "\<not> bdirty (bufs boot_bio i)"
proof -
  let ?s = "slp_st.extend (proc_st.extend run_proc \<lparr>slocks = (\<lambda>_. \<lparr>slocked = False, spid = 0\<rparr>)\<rparr>)
     \<lparr>bufs = (\<lambda>_. zero_buf), disksize = 1000, disk = (\<lambda>_. replicate 512 (0 :: u8)), dtrace = []\<rparr>"
  have c: "calm ?s"
    using run_proc_calm by (subst calm_cong [of run_proc]) (simp_all add: same_cpu_def slp_st.defs proc_st.defs)
  have z: "\<And>i. \<not> bvalid (bufs ?s i) \<and> \<not> bdirty (bufs ?s i) \<and> bdev (bufs ?s i) = 0 \<and> brefcnt (bufs ?s i) = 0"
    "\<And>n. length (disk ?s n) = BSIZE"
    by (simp_all add: slp_st.defs proc_st.defs zero_buf_def BSIZE_def)
  note B = binit_inv [OF c z, folded boot_bio_def]
  show "cache_inv boot_bio" by (rule B)
  show a: "cabs boot_bio = \<lparr>ah = {}, ap = {}, av = (\<lambda>_. replicate 512 0), ad = (\<lambda>_. replicate 512 0), at = []\<rparr>"
    using B(2) by (simp add: slp_st.defs proc_st.defs)
  show "disksize boot_bio = 1000" using B(3) by (simp add: slp_st.defs proc_st.defs)
  show "held boot_bio = {}" "pinned boot_bio = {}" "bview boot_bio = (\<lambda>_. replicate 512 0)"
    using a by (simp_all add: cabs_def)
  show "bdev (bufs boot_bio i) = 0" "brefcnt (bufs boot_bio i) = 0" "\<not> bdirty (bufs boot_bio i)" by (rule B)+
qed

theorem bread_correct_witness:
  "\<exists>b t. bread 1 7 boot_bio = Ok (b, t) \<and> bdata (bufs t b) = replicate 512 0 \<and> held t = {7}"
proof -
  have "succeeds (bread 1 7 boot_bio) (\<lambda>(b, t). cache_inv t \<and> owns_buf t b 7 \<and> bdata (bufs t b) = replicate 512 0 \<and>
      cabs t = (cabs boot_bio)\<lparr>ah := {7}\<rparr> \<and> (\<forall>j k. owns_buf boot_bio j k \<longrightarrow> owns_buf t j k))"
    using bread_correct [OF boot_bio_inv(1), of 7] by (simp add: boot_bio_inv NBUF_def MAXOPBLOCKS_def)
  then show ?thesis by (auto simp: succeeds_iff cabs_def)
qed

text \<open>
  C7: the list of buffers is kept in the order of use: \<^verbatim>\<open>brelse\<close> moves the buffer it releases to
  the front and keeps the order of the others, and a block that is not cached takes the place of
  the least recently used buffer that is neither locked nor dirty.
\<close>

theorem lru_order:
  assumes "cache_inv s" "lru (bufs s) ord"
  shows "(owns_buf s b n \<longrightarrow> succeeds (brelse b s) (\<lambda>t. lru (bufs t) (b # remove1 b ord))) \<and>
    ((\<forall>i<NBUF. \<not> matches n (bufs s i)) \<longrightarrow> n < disksize s \<longrightarrow>
      find (\<lambda>i. brefcnt (bufs s i) = 0 \<and> \<not> bdirty (bufs s i)) (rev ord) = Some v \<longrightarrow>
      succeeds (bread 1 n s) (\<lambda>(i, t). i = v \<and> lru (bufs t) ord))"
proof (intro conjI impI)
  assume o: "owns_buf s b n"
  have "lru (bufs (drop_ref b s)) ord"
    by (subst lru_cong [of "bufs (drop_ref b s)" "bufs s"]) (simp_all add: drop_ref_sel assms(2))
  moreover have "b \<in> set ord" using owns_bufD(1) [OF assms(1) o] assms(2) by (simp add: lru_def)
  ultimately show "succeeds (brelse b s) (\<lambda>t. lru (bufs t) (b # remove1 b ord))"
    by (simp add: brelse_eq [OF assms(1) o] lru_move_front)
next
  assume none: "\<forall>i<NBUF. \<not> matches n (bufs s i)" and n: "n < disksize s"
    and f: "find (\<lambda>i. brefcnt (bufs s i) = 0 \<and> \<not> bdirty (bufs s i)) (rev ord) = Some v"
  have "bread 1 n s = Ok (v, grab v n s)" using bread_recycle [OF assms(1) _ n assms(2) f] none by blast
  moreover have "lru (bufs (grab v n s)) ord"
    by (subst lru_cong [of "bufs (grab v n s)" "bufs s"]) (simp_all add: grab_sel assms(2))
  ultimately show "succeeds (bread 1 n s) (\<lambda>(i, t). i = v \<and> lru (bufs t) ord)" by simp
qed

theorem lru_order_witness: "\<exists>t. bread 1 7 boot_bio = Ok (0, t) \<and> lru (bufs t) (rev [0..<NBUF])"
proof -
  have b: "lru (bufs boot_bio) (rev [0..<NBUF])" unfolding boot_bio_def by (rule binit_lru)
  note z = boot_bio_inv(7-9)
  have "find (\<lambda>i. brefcnt (bufs boot_bio i) = 0 \<and> \<not> bdirty (bufs boot_bio i)) (rev (rev [0..<NBUF])) = Some 0"
  proof -
    have "0 < NBUF" by (simp add: NBUF_def MAXOPBLOCKS_def)
    then have "[0..<NBUF] = 0 # [Suc 0..<NBUF]" by (rule upt_conv_Cons)
    then show ?thesis using z by simp
  qed
  then show ?thesis
    using lru_order [OF boot_bio_inv(1) b, of 0 7 0] by (simp add: z matches_def boot_bio_inv(3) succeeds_iff)
qed

end
