(* ===== verification/Xv6_Log.thy ===== *)
theory Xv6_Log
  imports Xv6_Bio
begin

text \<open>
  The write-ahead log \<^verbatim>\<open>log.c\<close> on the buffer cache, and the superblock of \<^verbatim>\<open>fs.h\<close> it reads its
  place on disk from. The main result is crash safety: the disk writes of a commit may be cut
  off at any point, and recovery from what is on disk then yields either none or all of the
  transaction's writes.
\<close>

section \<open>State and operations\<close>

record superblock =
  sb_size :: u32
  sb_nblocks :: u32
  sb_ninodes :: u32
  sb_nlog :: u32
  sb_logstart :: u32
  sb_inodestart :: u32
  sb_bmapstart :: u32

text \<open>
  \<^verbatim>\<open>struct log\<close> with its \<^verbatim>\<open>struct logheader\<close>; \<open>lh_block\<close> has \<open>LOGSIZE\<close> entries. Block numbers and
  the start of the log are kept unsigned, as they are used.
\<close>

record log_st = bio_st +
  log_start :: u32
  log_size :: int
  log_outstanding :: int
  log_committing :: bool
  log_dev :: u32
  lh_n :: int
  lh_block :: "u32 list"

definition parse_sb :: "u8 list \<Rightarrow> superblock" where
  "parse_sb d = \<lparr>sb_size = get32 d 0, sb_nblocks = get32 d 4, sb_ninodes = get32 d 8, sb_nlog = get32 d 12,
     sb_logstart = get32 d 16, sb_inodestart = get32 d 20, sb_bmapstart = get32 d 24\<rparr>"

definition readsb :: "u32 \<Rightarrow> 'a bio_st_scheme \<Rightarrow> (superblock \<times> 'a bio_st_scheme) res" where
  "readsb dev s =
     bindr (bread dev 1 s) (\<lambda>(bp, s).
     let sb = parse_sb (bdata (bufs s bp))
     in bindr (brelse bp s) (\<lambda>s. Ok (sb, s)))"

definition install_one :: "nat \<Rightarrow> 'a log_st_scheme \<Rightarrow> 'a log_st_scheme res" where
  "install_one tail s =
     bindr (bread (log_dev s) (log_start s + of_nat tail + 1) s) (\<lambda>(lbuf, s).
     bindr (bread (log_dev s) (lh_block s ! tail) s) (\<lambda>(dbuf, s).
     bindr (bwrite dbuf (set_data dbuf (bdata (bufs s lbuf)) s)) (\<lambda>s.
     bindr (brelse lbuf s) (brelse dbuf))))"

definition install_trans :: "'a log_st_scheme \<Rightarrow> 'a log_st_scheme res" where
  "install_trans s = for_each install_one [0..<nat (lh_n s)] s"

text \<open>
  The header block holds \<open>n\<close> and the array of block numbers. The code does not check the \<open>n\<close> it
  reads; beyond \<open>LOGSIZE\<close> it would write past the end of \<open>lh_block\<close>, which is the panic
  \<open>log header out of bounds\<close> of the model.
\<close>

definition read_head :: "'a log_st_scheme \<Rightarrow> 'a log_st_scheme res" where
  "read_head s =
     bindr (bread (log_dev s) (log_start s) s) (\<lambda>(b, s).
     let lh = bdata (bufs s b);
         s = s\<lparr>lh_n := sint (get32 lh 0)\<rparr>
     in if lh_n s > int LOGSIZE then Panic ''log header out of bounds''
        else let s = s\<lparr>lh_block := fold (\<lambda>i bl. bl[i := get32 lh (4 + 4 * i)]) [0..<nat (lh_n s)] (lh_block s)\<rparr>
             in brelse b s)"

definition write_head :: "'a log_st_scheme \<Rightarrow> 'a log_st_scheme res" where
  "write_head s =
     bindr (bread (log_dev s) (log_start s) s) (\<lambda>(b, s).
     if lh_n s > int LOGSIZE then Panic ''log header out of bounds''
     else let hb = put32 (bdata (bufs s b)) 0 (word_of_int (lh_n s));
              hb = fold (\<lambda>i hb. put32 hb (4 + 4 * i) (lh_block s ! i)) [0..<nat (lh_n s)] hb
          in bindr (bwrite b (set_data b hb s)) (brelse b))"

definition recover_from_log :: "'a log_st_scheme \<Rightarrow> 'a log_st_scheme res" where
  "recover_from_log s =
     bindr (read_head s) (\<lambda>s.
     bindr (install_trans s) (\<lambda>s.
     write_head (s\<lparr>lh_n := 0\<rparr>)))"

definition initlog :: "u32 \<Rightarrow> 'a log_st_scheme \<Rightarrow> 'a log_st_scheme res" where
  "initlog dev s =
     (if 4 + 4 * LOGSIZE \<ge> BSIZE then Panic ''initlog: too big logheader''
      else let s = initlock LogLock s
           in bindr (readsb dev s) (\<lambda>(sb, s).
              let s = s\<lparr>log_start := sb_logstart sb\<rparr>;
                  s = s\<lparr>log_size := sint (sb_nlog sb)\<rparr>;
                  s = s\<lparr>log_dev := dev\<rparr>
              in recover_from_log s))"

text \<open>\<^verbatim>\<open>begin_op\<close> sleeps while the log commits or is too full; the caller then has to wait for others.\<close>

definition begin_op :: "'a log_st_scheme \<Rightarrow> 'a log_st_scheme res" where
  "begin_op s =
     bindr (acquire LogLock s) (\<lambda>s.
     if log_committing s then Blocks
     else if lh_n s + (log_outstanding s + 1) * int MAXOPBLOCKS > int LOGSIZE then Blocks
     else release LogLock (s\<lparr>log_outstanding := log_outstanding s + 1\<rparr>))"

definition write_log_one :: "nat \<Rightarrow> 'a log_st_scheme \<Rightarrow> 'a log_st_scheme res" where
  "write_log_one tail s =
     bindr (bread (log_dev s) (log_start s + of_nat tail + 1) s) (\<lambda>(to, s).
     bindr (bread (log_dev s) (lh_block s ! tail) s) (\<lambda>(from, s).
     bindr (bwrite to (set_data to (bdata (bufs s from)) s)) (\<lambda>s.
     bindr (brelse from s) (brelse to))))"

definition write_log :: "'a log_st_scheme \<Rightarrow> 'a log_st_scheme res" where
  "write_log s = for_each write_log_one [0..<nat (lh_n s)] s"

definition commit :: "'a log_st_scheme \<Rightarrow> 'a log_st_scheme res" where
  "commit s =
     (if lh_n s > 0 then
        bindr (write_log s) (\<lambda>s.
        bindr (write_head s) (\<lambda>s.
        bindr (install_trans s) (\<lambda>s.
        write_head (s\<lparr>lh_n := 0\<rparr>))))
      else Ok s)"

definition end_op :: "'a log_st_scheme \<Rightarrow> 'a log_st_scheme res" where
  "end_op s =
     bindr (acquire LogLock s) (\<lambda>s.
     let s = s\<lparr>log_outstanding := log_outstanding s - 1\<rparr>
     in if log_committing s then Panic ''log.committing''
        else let do_commit = (log_outstanding s = 0)
             in bindr (if do_commit then Ok (s\<lparr>log_committing := True\<rparr>) else wakeup ChLog s) (\<lambda>s.
                bindr (release LogLock s) (\<lambda>s.
                if do_commit then
                  bindr (commit s) (\<lambda>s.
                  bindr (acquire LogLock s) (\<lambda>s.
                  let s = s\<lparr>log_committing := False\<rparr>
                  in bindr (wakeup ChLog s) (release LogLock)))
                else Ok s)))"

definition log_write :: "nat \<Rightarrow> 'a log_st_scheme \<Rightarrow> 'a log_st_scheme res" where
  "log_write b s =
     (if lh_n s \<ge> int LOGSIZE \<or> lh_n s \<ge> log_size s - 1 then Panic ''too big a transaction''
      else if log_outstanding s < 1 then Panic ''log_write outside of trans''
      else bindr (acquire LogLock s) (\<lambda>s.
           let i = (case first_idx (\<lambda>x. x = bblockno (bufs s b)) (take (nat (lh_n s)) (lh_block s)) of
                      Some i \<Rightarrow> i | None \<Rightarrow> nat (lh_n s));
               s = s\<lparr>lh_block := (lh_block s)[i := bblockno (bufs s b)]\<rparr>;
               s = (if int i = lh_n s then s\<lparr>lh_n := lh_n s + 1\<rparr> else s);
               s = set_buf b (\<lambda>x. x\<lparr>bdirty := True\<rparr>) s
           in release LogLock s))"

section \<open>Locks and the log\<close>

lemma log_crit [simp]:
  "log_start (enter l s) = log_start s" "log_size (enter l s) = log_size s" "log_outstanding (enter l s) = log_outstanding s"
  "log_committing (enter l s) = log_committing s" "log_dev (enter l s) = log_dev s" "lh_n (enter l s) = lh_n s"
  "lh_block (enter l s) = lh_block s"
  "(enter l s)\<lparr>log_outstanding := x\<rparr> = enter l (s\<lparr>log_outstanding := x\<rparr>)"
  "(enter l s)\<lparr>log_committing := c\<rparr> = enter l (s\<lparr>log_committing := c\<rparr>)"
  "(enter l s)\<lparr>lh_n := n\<rparr> = enter l (s\<lparr>lh_n := n\<rparr>)"
  "(enter l s)\<lparr>lh_block := bl\<rparr> = enter l (s\<lparr>lh_block := bl\<rparr>)"
  by (simp_all add: enter_def settle_def set_cpu_def cpu_index_def split: option.split)

lemma calm_log [simp]:
  "calm (s\<lparr>log_outstanding := x\<rparr>) = calm s" "calm (s\<lparr>log_committing := c\<rparr>) = calm s"
  "calm (s\<lparr>lh_n := n\<rparr>) = calm s" "calm (s\<lparr>lh_block := bl\<rparr>) = calm s"
  by (rule calm_cong; simp add: same_cpu_def)+

lemma begin_op_eq:
  "calm s \<Longrightarrow> begin_op s =
    (if log_committing s \<or> lh_n s + (log_outstanding s + 1) * int MAXOPBLOCKS > int LOGSIZE then Blocks
     else Ok (s\<lparr>log_outstanding := log_outstanding s + 1\<rparr>))"
  by (simp add: begin_op_def)

lemma log_write_eq:
  "calm s \<Longrightarrow> log_write b s =
    (if lh_n s \<ge> int LOGSIZE \<or> lh_n s \<ge> log_size s - 1 then Panic ''too big a transaction''
     else if log_outstanding s < 1 then Panic ''log_write outside of trans''
     else let i = (case first_idx (\<lambda>x. x = bblockno (bufs s b)) (take (nat (lh_n s)) (lh_block s)) of
                     Some i \<Rightarrow> i | None \<Rightarrow> nat (lh_n s))
          in Ok (set_buf b (\<lambda>x. x\<lparr>bdirty := True\<rparr>)
               (s\<lparr>lh_block := (lh_block s)[i := bblockno (bufs s b)], lh_n := (if int i = lh_n s then lh_n s + 1 else lh_n s)\<rparr>)))"
  by (auto simp: log_write_def Let_def split: option.split)

text \<open>The cache does not depend on the fields of the log.\<close>

lemma log_upd_truncate:
  "bio_st.truncate (s\<lparr>log_outstanding := x\<rparr>) = bio_st.truncate s" "bio_st.truncate (s\<lparr>log_committing := c\<rparr>) = bio_st.truncate s"
  "bio_st.truncate (s\<lparr>lh_n := n\<rparr>) = bio_st.truncate s" "bio_st.truncate (s\<lparr>lh_block := bl\<rparr>) = bio_st.truncate s"
  by (simp_all add: bio_st.defs)

lemmas cache_log [simp] = log_upd_truncate [THEN cache_cong(1)] log_upd_truncate [THEN cache_cong(2)]
  log_upd_truncate [THEN cache_cong(3)]

section \<open>The loops over the log\<close>

definition logblk :: "'a log_st_scheme \<Rightarrow> nat \<Rightarrow> u32" where
  "logblk s i = log_start s + of_nat i + 1"

definition log_region :: "'a log_st_scheme \<Rightarrow> u32 set" where
  "log_region s = {log_start s + of_nat j | j. j \<le> LOGSIZE}"

text \<open>The log lies on the disk and holds \<open>n\<close> blocks from outside the log.\<close>

definition log_ok :: "'a log_st_scheme \<Rightarrow> nat \<Rightarrow> bool" where
  "log_ok s n \<longleftrightarrow> log_dev s = 1 \<and> lh_n s = int n \<and> n \<le> LOGSIZE \<and> length (lh_block s) = LOGSIZE \<and>
     unat (log_start s) + LOGSIZE < unat (disksize s) \<and>
     (\<forall>i<n. lh_block s ! i < disksize s \<and> lh_block s ! i \<notin> log_region s)"

lemma log_more:
  assumes "bio_frame s t"
  shows "log_start t = log_start s" "log_dev t = log_dev s" "lh_n t = lh_n s" "lh_block t = lh_block s"
    "log_size t = log_size s" "log_outstanding t = log_outstanding s" "log_committing t = log_committing s"
    "disksize t = disksize s"
proof -
  have m: "bio_st.more t = bio_st.more s" "disksize t = disksize s" using assms by (simp_all add: bio_frame_def)
  show "log_start t = log_start s" "log_dev t = log_dev s" "lh_n t = lh_n s" "lh_block t = lh_block s"
    "log_size t = log_size s" "log_outstanding t = log_outstanding s" "log_committing t = log_committing s"
    "disksize t = disksize s"
    using m by (cases s; cases t; simp)+
qed

lemma log_frame_ok:
  assumes "bio_frame s t"
  shows "log_ok t n = log_ok s n" "logblk t = logblk s" "log_region t = log_region s"
  using log_more [OF assms] by (simp_all add: log_ok_def logblk_def [abs_def] log_region_def)

lemma unat_log_add: "unat (a :: u32) + j < 2 ^ 32 \<Longrightarrow> unat (a + of_nat j) = unat a + j"
  by (rule unat_plus_of_nat)

lemma logblk_facts:
  assumes "log_ok s n" "i < LOGSIZE"
  shows "logblk s i < disksize s" "logblk s i \<in> log_region s" "logblk s i \<noteq> log_start s" "log_start s < disksize s"
    "log_start s \<in> log_region s" "j < LOGSIZE \<Longrightarrow> logblk s i = logblk s j \<Longrightarrow> i = j"
proof -
  have g: "unat (log_start s) + LOGSIZE < unat (disksize s)" using assms by (simp add: log_ok_def)
  have S: "logblk s k = log_start s + of_nat (Suc k)" for k
    by (simp only: logblk_def of_nat_Suc add.assoc add.commute [of 1])
  have e: "unat (logblk s k) = unat (log_start s) + Suc k" if "k < LOGSIZE" for k
    unfolding S by (rule unat_log_add) (use g unat_lt32 [of "disksize s"] that in linarith)
  show "logblk s i < disksize s" "log_start s < disksize s"
    using e [OF assms(2)] g assms(2) by (simp_all add: word_less_nat_alt)
  show "logblk s i \<noteq> log_start s" using e [OF assms(2)] by auto
  show "logblk s i \<in> log_region s"
    unfolding S log_region_def using assms(2) by (blast intro: Suc_leI)
  have "log_start s + of_nat 0 \<in> log_region s" unfolding log_region_def using le0 [of LOGSIZE] by blast
  then show "log_start s \<in> log_region s" by simp
  assume j: "j < LOGSIZE" and "logblk s i = logblk s j"
  then have "unat (logblk s i) = unat (logblk s j)" by (simp only:)
  then show "i = j" unfolding e [OF assms(2)] e [OF j] by (simp only: add_left_cancel nat.inject)
qed

lemma install_one_spec:
  assumes inv: "cache_inv s" "held s = {}" and ok: "log_ok s n" "i < n"
    and room: "card (pinned s) < NBUF" "lh_block s ! i \<in> pinned s \<or> card (insert (logblk s i) (pinned s)) < NBUF"
  shows "succeeds (install_one i s) (\<lambda>t. cache_inv t \<and> bio_frame s t \<and>
    cabs t = (cabs s)\<lparr>ap := pinned s - {lh_block s ! i}, av := (bview s)(lh_block s ! i := bview s (logblk s i)),
      ad := (disk s)(lh_block s ! i := bview s (logblk s i)), at := dtrace s @ [(lh_block s ! i, bview s (logblk s i))]\<rparr>)"
proof -
  have i: "i < LOGSIZE" "log_dev s = 1" "lh_block s ! i < disksize s" "lh_block s ! i \<notin> log_region s"
    using ok by (auto simp: log_ok_def)
  note L = logblk_facts [OF ok(1) i(1)]
  have ne: "logblk s i \<noteq> lh_block s ! i" using L(2) i(4) by auto
  have same: "lh_block t ! i = lh_block s ! i \<and> log_dev t = log_dev s" if "bread 1 (logblk s i) s = Ok (l, t)" for l t
    using cache.get_law [OF inv(1) L(1)] inv(2) that log_more [of s t] by (auto simp: room(1))
  have "install_one i s = bindr (bread 1 (logblk s i) s) (\<lambda>(l, s'). bindr (bread 1 (lh_block s ! i) s') (\<lambda>(d, s').
      bindr (bwrite d (set_data d (bdata (bufs s' l)) s')) (\<lambda>s'. bindr (brelse l s') (brelse d))))"
    unfolding install_one_def using i(2) same by (auto simp: logblk_def intro!: bindr_cong)
  then show ?thesis
    using cache.copy_block [OF inv(1) L(1) i(3) _ _ ne, where src = "logblk s i" and dst = "lh_block s ! i"] inv(2) room ne
    by (simp del: succeeds_bindr) (erule succeeds_mono, simp)
qed

lemma write_log_one_spec:
  assumes inv: "cache_inv s" "held s = {}" and ok: "log_ok s n" "i < n"
    and room: "card (pinned s) < NBUF" "lh_block s ! i \<in> pinned s" "logblk s i \<notin> pinned s"
  shows "succeeds (write_log_one i s) (\<lambda>t. cache_inv t \<and> bio_frame s t \<and>
    cabs t = (cabs s)\<lparr>ap := pinned s, av := (bview s)(logblk s i := bview s (lh_block s ! i)),
      ad := (disk s)(logblk s i := bview s (lh_block s ! i)), at := dtrace s @ [(logblk s i, bview s (lh_block s ! i))]\<rparr>)"
proof -
  have i: "i < LOGSIZE" "log_dev s = 1" "lh_block s ! i < disksize s" "lh_block s ! i \<notin> log_region s"
    using ok by (auto simp: log_ok_def)
  note L = logblk_facts [OF ok(1) i(1)]
  have ne: "logblk s i \<noteq> lh_block s ! i" using L(2) i(4) by auto
  have same: "lh_block t ! i = lh_block s ! i \<and> log_dev t = log_dev s" if "bread 1 (logblk s i) s = Ok (l, t)" for l t
    using cache.get_law [OF inv(1) L(1)] inv(2) that log_more [of s t] by (auto simp: room(1))
  have "write_log_one i s = bindr (bread 1 (logblk s i) s) (\<lambda>(l, s'). bindr (bread 1 (lh_block s ! i) s') (\<lambda>(d, s').
      bindr (bwrite l (set_data l (bdata (bufs s' d)) s')) (\<lambda>s'. bindr (brelse d s') (brelse l))))"
    unfolding write_log_one_def using i(2) same by (auto simp: logblk_def intro!: bindr_cong)
  then show ?thesis
    using cache.copy_block [OF inv(1) L(1) i(3) _ _ ne, where dst = "logblk s i" and src = "lh_block s ! i"] inv(2) room ne
    by (simp del: succeeds_bindr) (erule succeeds_mono, simp)
qed

lemma finite_pinned [simp]: "finite (pinned s)"
proof -
  have "pinned s \<subseteq> (\<lambda>i. bblockno (bufs s i)) ` {..<NBUF}" by (auto simp: pinned_def)
  then show ?thesis by (rule finite_subset) simp
qed

definition inst_writes :: "'a log_st_scheme \<Rightarrow> nat \<Rightarrow> (u32 \<times> u8 list) list" where
  "inst_writes s n = map (\<lambda>i. (lh_block s ! i, bview s (logblk s i))) [0..<n]"

definition log_writes :: "'a log_st_scheme \<Rightarrow> nat \<Rightarrow> (u32 \<times> u8 list) list" where
  "log_writes s n = map (\<lambda>i. (logblk s i, bview s (lh_block s ! i))) [0..<n]"

definition log_blocks :: "'a log_st_scheme \<Rightarrow> nat \<Rightarrow> u32 set" where
  "log_blocks s n = (\<lambda>i. lh_block s ! i) ` {..<n}"

lemma inst_writes_Suc [simp]:
  "inst_writes s (Suc n) = inst_writes s n @ [(lh_block s ! n, bview s (logblk s n))]" "inst_writes s 0 = []"
  by (simp_all add: inst_writes_def)

lemma log_writes_Suc [simp]:
  "log_writes s (Suc n) = log_writes s n @ [(logblk s n, bview s (lh_block s ! n))]" "log_writes s 0 = []"
  by (simp_all add: log_writes_def)

lemma log_blocks_Suc: "log_blocks s (Suc n) = insert (lh_block s ! n) (log_blocks s n)" "log_blocks s 0 = {}"
  by (auto simp: log_blocks_def less_Suc_eq)

lemma fst_writes: "fst ` set (inst_writes s n) = log_blocks s n" "fst ` set (log_writes s n) = logblk s ` {..<n}"
  by (simp_all add: inst_writes_def log_writes_def log_blocks_def image_image atLeast0LessThan)

lemma log_ok_mono: "log_ok s n \<Longrightarrow> i < n \<Longrightarrow> lh_block s ! i \<in> log_blocks s n \<and> lh_block s ! i \<notin> log_region s"
  by (auto simp: log_ok_def log_blocks_def)

lemma cabs_eqD:
  assumes "cabs t = \<lparr>ah = H, ap = P, av = V, ad = D, at = T\<rparr>"
  shows "held t = H" "pinned t = P" "bview t = V" "disk t = D" "dtrace t = T"
  using arg_cong [OF assms, of ah] arg_cong [OF assms, of ap] arg_cong [OF assms, of av] arg_cong [OF assms, of ad]
    arg_cong [OF assms, of at] by simp_all

lemma install_trans_spec:
  assumes inv: "cache_inv s" "held s = {}" and ok: "log_ok s n"
    and room: "card (pinned s) < NBUF" "\<And>i. i < n \<Longrightarrow> lh_block s ! i \<in> pinned s \<or> Suc (card (pinned s)) < NBUF"
    and dist: "distinct (take n (lh_block s))"
  shows "succeeds (install_trans s) (\<lambda>t. cache_inv t \<and> bio_frame s t \<and>
    cabs t = \<lparr>ah = {}, ap = pinned s - log_blocks s n, av = upd_all (bview s) (inst_writes s n),
      ad = upd_all (disk s) (inst_writes s n), at = dtrace s @ inst_writes s n\<rparr>)"
proof -
  have n: "nat (lh_n s) = n" "n \<le> LOGSIZE" "length (lh_block s) = LOGSIZE" using ok by (simp_all add: log_ok_def)
  show ?thesis
    unfolding install_trans_def n(1)
  proof (rule for_each_succeeds)
    show "cache_inv s \<and> bio_frame s s \<and> cabs s = \<lparr>ah = {}, ap = pinned s - log_blocks s 0, av = upd_all (bview s) (inst_writes s 0),
      ad = upd_all (disk s) (inst_writes s 0), at = dtrace s @ inst_writes s 0\<rparr>"
      using inv by (simp add: cabs_def log_blocks_Suc)
    fix i t
    assume i: "i < n" and "cache_inv t \<and> bio_frame s t \<and> cabs t = \<lparr>ah = {}, ap = pinned s - log_blocks s i,
      av = upd_all (bview s) (inst_writes s i), ad = upd_all (disk s) (inst_writes s i), at = dtrace s @ inst_writes s i\<rparr>"
    then have t: "cache_inv t" "bio_frame s t" and a: "cabs t = \<lparr>ah = {}, ap = pinned s - log_blocks s i,
      av = upd_all (bview s) (inst_writes s i), ad = upd_all (disk s) (inst_writes s i), at = dtrace s @ inst_writes s i\<rparr>" by auto
    note A = cabs_eqD [OF a]
    note F = log_frame_ok [OF t(2)]
    have L: "logblk s i \<in> log_region s" using logblk_facts [OF ok] i n by auto
    then have "logblk s i \<notin> log_blocks s i" using ok i by (auto simp: log_blocks_def log_ok_def)
    then have v: "bview t (logblk t i) = bview s (logblk s i)" by (simp add: A F upd_all_notin fst_writes)
    have b: "lh_block t = lh_block s" using log_more [OF t(2)] by simp
    have c: "card (pinned t) \<le> card (pinned s)" unfolding A by (rule card_mono) auto
    have new: "lh_block s ! i \<notin> log_blocks s i"
      using dist i n by (auto simp: log_blocks_def distinct_conv_nth)
    have r: "lh_block t ! i \<in> pinned t \<or> card (insert (logblk t i) (pinned t)) < NBUF"
      using room(2) [OF i] new c card_insert_le_m1 [of "Suc (card (pinned s))" "pinned t" "logblk t i"]
      by (auto simp: b A(2) card_insert_if)
    show "succeeds (install_one i t) (\<lambda>t. cache_inv t \<and> bio_frame s t \<and>
      cabs t = \<lparr>ah = {}, ap = pinned s - log_blocks s (Suc i), av = upd_all (bview s) (inst_writes s (Suc i)),
        ad = upd_all (disk s) (inst_writes s (Suc i)), at = dtrace s @ inst_writes s (Suc i)\<rparr>)"
    proof (rule succeeds_mono [OF install_one_spec [OF t(1) A(1) _ i]])
      show "log_ok t n" using ok F by simp
      show "card (pinned t) < NBUF" using c room(1) by simp
      show "lh_block t ! i \<in> pinned t \<or> card (insert (logblk t i) (pinned t)) < NBUF" by (rule r)
      fix u assume "cache_inv u \<and> bio_frame t u \<and> cabs u = (cabs t)\<lparr>ap := pinned t - {lh_block t ! i},
        av := (bview t)(lh_block t ! i := bview t (logblk t i)), ad := (disk t)(lh_block t ! i := bview t (logblk t i)),
        at := dtrace t @ [(lh_block t ! i, bview t (logblk t i))]\<rparr>"
      then show "cache_inv u \<and> bio_frame s u \<and>
        cabs u = \<lparr>ah = {}, ap = pinned s - log_blocks s (Suc i), av = upd_all (bview s) (inst_writes s (Suc i)),
          ad = upd_all (disk s) (inst_writes s (Suc i)), at = dtrace s @ inst_writes s (Suc i)\<rparr>"
        using bio_frame_trans [OF t(2)] unfolding a v b by (auto simp: A log_blocks_Suc)
    qed
  qed
qed

lemma write_log_spec:
  assumes inv: "cache_inv s" "held s = {}" and ok: "log_ok s n"
    and room: "card (pinned s) < NBUF" "log_blocks s n \<subseteq> pinned s" "pinned s \<inter> log_region s = {}"
  shows "succeeds (write_log s) (\<lambda>t. cache_inv t \<and> bio_frame s t \<and>
    cabs t = \<lparr>ah = {}, ap = pinned s, av = upd_all (bview s) (log_writes s n),
      ad = upd_all (disk s) (log_writes s n), at = dtrace s @ log_writes s n\<rparr>)"
proof -
  have n: "nat (lh_n s) = n" "n \<le> LOGSIZE" using ok by (simp_all add: log_ok_def)
  show ?thesis
    unfolding write_log_def n(1)
  proof (rule for_each_succeeds)
    show "cache_inv s \<and> bio_frame s s \<and> cabs s = \<lparr>ah = {}, ap = pinned s, av = upd_all (bview s) (log_writes s 0),
      ad = upd_all (disk s) (log_writes s 0), at = dtrace s @ log_writes s 0\<rparr>"
      using inv by (simp add: cabs_def)
    fix i t
    assume i: "i < n" and "cache_inv t \<and> bio_frame s t \<and> cabs t = \<lparr>ah = {}, ap = pinned s,
      av = upd_all (bview s) (log_writes s i), ad = upd_all (disk s) (log_writes s i), at = dtrace s @ log_writes s i\<rparr>"
    then have t: "cache_inv t" "bio_frame s t" and a: "cabs t = \<lparr>ah = {}, ap = pinned s,
      av = upd_all (bview s) (log_writes s i), ad = upd_all (disk s) (log_writes s i), at = dtrace s @ log_writes s i\<rparr>" by auto
    note A = cabs_eqD [OF a]
    note F = log_frame_ok [OF t(2)]
    have b: "lh_block t = lh_block s" using log_more [OF t(2)] by simp
    have L: "j < n \<Longrightarrow> logblk s j \<in> log_region s" for j using logblk_facts [OF ok] n by auto
    have B: "lh_block s ! i \<in> log_blocks s n" "lh_block s ! i \<notin> log_region s" using log_ok_mono [OF ok i] by auto
    have "lh_block s ! i \<notin> logblk s ` {..<i}" using B(2) L i by auto
    then have v: "bview t (lh_block t ! i) = bview s (lh_block s ! i)" by (simp add: A b upd_all_notin fst_writes)
    show "succeeds (write_log_one i t) (\<lambda>t. cache_inv t \<and> bio_frame s t \<and>
      cabs t = \<lparr>ah = {}, ap = pinned s, av = upd_all (bview s) (log_writes s (Suc i)),
        ad = upd_all (disk s) (log_writes s (Suc i)), at = dtrace s @ log_writes s (Suc i)\<rparr>)"
    proof (rule succeeds_mono [OF write_log_one_spec [OF t(1) A(1) _ i]])
      show "log_ok t n" using ok F by simp
      show "card (pinned t) < NBUF" "lh_block t ! i \<in> pinned t" using room B by (auto simp: A b)
      show "logblk t i \<notin> pinned t" using room(3) L [OF i] by (auto simp: A F)
      fix u assume "cache_inv u \<and> bio_frame t u \<and> cabs u = (cabs t)\<lparr>ap := pinned t,
        av := (bview t)(logblk t i := bview t (lh_block t ! i)), ad := (disk t)(logblk t i := bview t (lh_block t ! i)),
        at := dtrace t @ [(logblk t i, bview t (lh_block t ! i))]\<rparr>"
      then show "cache_inv u \<and> bio_frame s u \<and>
        cabs u = \<lparr>ah = {}, ap = pinned s, av = upd_all (bview s) (log_writes s (Suc i)),
          ad = upd_all (disk s) (log_writes s (Suc i)), at = dtrace s @ log_writes s (Suc i)\<rparr>"
        using bio_frame_trans [OF t(2)] unfolding a v by (auto simp: A F)
    qed
  qed
qed

section \<open>The header block\<close>

text \<open>The bytes of a header with \<open>n\<close> entries written over the bytes \<open>d\<close>.\<close>

definition head_bytes :: "nat \<Rightarrow> u32 list \<Rightarrow> u8 list \<Rightarrow> u8 list" where
  "head_bytes n bl d = fold (\<lambda>i hb. put32 hb (4 + 4 * i) (bl ! i)) [0..<n] (put32 d 0 (word_of_int (int n)))"

lemma head_fold:
  fixes bl :: "u32 list"
  assumes "n \<le> LOGSIZE" "length d = BSIZE"
  defines "h \<equiv> fold (\<lambda>i hb. put32 hb (4 + 4 * i) (bl ! i)) [0..<n] d"
  shows "length h = BSIZE \<and> get32 h 0 = get32 d 0 \<and> (\<forall>i<n. get32 h (4 + 4 * i) = bl ! i)"
  using assms(1) unfolding h_def
proof (induction n)
  case 0
  then show ?case using assms(2) by simp
next
  case (Suc n)
  let ?h = "fold (\<lambda>i hb. put32 hb (4 + 4 * i) (bl ! i)) [0..<n] d"
  have IH: "length ?h = BSIZE" "get32 ?h 0 = get32 d 0" "\<forall>i<n. get32 ?h (4 + 4 * i) = bl ! i" using Suc by simp_all
  have "4 + 4 * n + 3 < BSIZE" using Suc.prems by (simp add: LOGSIZE_def MAXOPBLOCKS_def BSIZE_def)
  then show ?case using IH by (auto simp: less_Suc_eq)
qed

lemma head_bytes_facts:
  assumes "n \<le> LOGSIZE" "length d = BSIZE"
  shows "length (head_bytes n bl d) = BSIZE" "sint (get32 (head_bytes n bl d) 0) = int n"
    "i < n \<Longrightarrow> get32 (head_bytes n bl d) (4 + 4 * i) = bl ! i"
proof -
  have l: "length (put32 d 0 (word_of_int (int n))) = BSIZE" using assms(2) by simp
  note H = head_fold [OF assms(1) l, of bl, folded head_bytes_def]
  have "n < 2 ^ 31" using assms(1) by (simp add: LOGSIZE_def MAXOPBLOCKS_def)
  then have "uint (word_of_nat n :: u32) = int n" by (simp add: unsigned_of_nat take_bit_nat_eq_self)
  then have "sint (word_of_int (int n) :: u32) = int n"
    using \<open>n < 2 ^ 31\<close> by (simp add: sint_uint signed_take_bit_int_eq_self)
  moreover have "get32 (put32 d 0 (word_of_int (int n))) 0 = word_of_int (int n)"
    using assms(2) by (simp add: BSIZE_def)
  ultimately show "sint (get32 (head_bytes n bl d) 0) = int n" using H by (simp only:)
  show "length (head_bytes n bl d) = BSIZE" "i < n \<Longrightarrow> get32 (head_bytes n bl d) (4 + 4 * i) = bl ! i"
    using H by simp_all
qed

lemma write_head_spec:
  assumes inv: "cache_inv s" "held s = {}" and ok: "log_ok s n"
    and room: "card (pinned s) < NBUF" "log_start s \<notin> pinned s"
  defines "H \<equiv> head_bytes n (lh_block s) (bview s (log_start s))"
  shows "succeeds (write_head s) (\<lambda>t. cache_inv t \<and> bio_frame s t \<and>
    cabs t = \<lparr>ah = {}, ap = pinned s, av = (bview s)(log_start s := H), ad = (disk s)(log_start s := H),
      at = dtrace s @ [(log_start s, H)]\<rparr>)"
proof -
  have n: "lh_n s = int n" "n \<le> LOGSIZE" "log_dev s = 1" using ok by (simp_all add: log_ok_def)
  have L: "log_start s < disksize s" using logblk_facts(4) [OF ok, of 0] by (simp add: LOGSIZE_def MAXOPBLOCKS_def)
  from cache.get_law [OF inv(1) L] inv(2) room(1) obtain b u where
    u: "bread 1 (log_start s) s = Ok (b, u)" "cache_inv u" "owns_buf u b (log_start s)" "bio_frame s u"
      "cabs u = (cabs s)\<lparr>ah := {log_start s}\<rparr>"
    by (auto simp: succeeds_iff)
  have v: "bview u = bview s" "pinned u = pinned s" "held u = {log_start s}" "disk u = disk s" "dtrace u = dtrace s"
    using arg_cong [OF u(5), of av] arg_cong [OF u(5), of ap] arg_cong [OF u(5), of ah] arg_cong [OF u(5), of ad]
      arg_cong [OF u(5), of at] by simp_all
  have d: "bdata (bufs u b) = bview s (log_start s)" using owns_buf_view [OF u(2,3)] v by simp
  have lh: "lh_n u = int n" "lh_block u = lh_block s" using log_more [OF u(4)] n by simp_all
  have len: "length H = BSIZE" unfolding H_def by (rule head_bytes_facts(1) [OF n(2) bview_length [OF inv(1)]])
  note P = set_data_spec [OF u(2,3) len]
  have o: "owns_buf (set_data b H u) b (log_start s)" by (rule P(2) [OF u(3)])
  from bwrite_spec [OF P(1) o] obtain w where w: "bwrite b (set_data b H u) = Ok w" "cache_inv w"
    "owns_buf w b (log_start s)" "bio_frame (set_data b H u) w" "cabs w = (cabs (set_data b H u))
      \<lparr>ap := pinned (set_data b H u) - {log_start s}, ad := (disk (set_data b H u))(log_start s := bview (set_data b H u) (log_start s)),
        at := dtrace (set_data b H u) @ [(log_start s, bview (set_data b H u) (log_start s))]\<rparr>"
    using o by (auto simp: succeeds_iff)
  have sd: "bview (set_data b H u) = (bview s)(log_start s := H)" "pinned (set_data b H u) = pinned s"
    "held (set_data b H u) = {log_start s}" "disk (set_data b H u) = disk s" "dtrace (set_data b H u) = dtrace s"
    using arg_cong [OF P(3), of av] arg_cong [OF P(3), of ap] arg_cong [OF P(3), of ah] arg_cong [OF P(3), of ad]
      arg_cong [OF P(3), of at] by (simp_all add: v)
  have W: "cabs w = \<lparr>ah = {log_start s}, ap = pinned s, av = (bview s)(log_start s := H), ad = (disk s)(log_start s := H),
      at = dtrace s @ [(log_start s, H)]\<rparr>"
    using w(5) room(2) by (simp add: cabs_def [of "set_data b H u"] sd)
  note W' = cabs_eqD [OF W]
  have "log_start s \<in> pinned w \<or> bview w (log_start s) = disk w (log_start s)" by (simp add: W')
  from brelse_spec [OF w(2,3) this] obtain t where t: "brelse b w = Ok t" "cache_inv t" "bio_frame w t"
    "cabs t = (cabs w)\<lparr>ah := held w - {log_start s}\<rparr>" by (auto simp: succeeds_iff)
  have "write_head s = Ok t"
    using u(1) n d w(1) t(1) by (simp add: write_head_def lh H_def head_bytes_def)
  moreover have "bio_frame s t" using u(4) P(4) w(4) t(3) bio_frame_trans by metis
  ultimately show ?thesis using t(2,4) by (simp add: W W')
qed

lemma fold_list_update:
  "n \<le> length bl \<Longrightarrow> length (fold (\<lambda>i bl. bl[i := f i]) [0..<n] bl) = length bl \<and>
    (\<forall>i<length bl. fold (\<lambda>i bl. bl[i := f i]) [0..<n] bl ! i = (if i < n then f i else bl ! i))"
  by (induction n) (auto simp: nth_list_update less_Suc_eq)

lemma read_head_spec:
  assumes inv: "cache_inv s" "held s = {}" and dev: "log_dev s = 1" "log_start s < disksize s" "length (lh_block s) = LOGSIZE"
    and room: "card (pinned s) < NBUF" and n: "sint (get32 (bview s (log_start s)) 0) = int n" "n \<le> LOGSIZE"
  shows "succeeds (read_head s) (\<lambda>t. cache_inv t \<and> cabs t = cabs s \<and> lh_n t = int n \<and> length (lh_block t) = LOGSIZE \<and>
    (\<forall>i<n. lh_block t ! i = get32 (bview s (log_start s)) (4 + 4 * i)) \<and> log_start t = log_start s \<and> log_dev t = 1 \<and>
    disksize t = disksize s \<and> log_outstanding t = log_outstanding s \<and> log_committing t = log_committing s \<and> log_size t = log_size s)"
proof -
  from cache.get_law [OF inv(1) dev(2)] inv(2) room obtain b u where
    u: "bread 1 (log_start s) s = Ok (b, u)" "cache_inv u" "owns_buf u b (log_start s)" "bio_frame s u"
      "cabs u = (cabs s)\<lparr>ah := {log_start s}\<rparr>"
    by (auto simp: succeeds_iff)
  have v: "bview u = bview s" "pinned u = pinned s" "held u = {log_start s}" "disk u = disk s"
    using arg_cong [OF u(5), of av] arg_cong [OF u(5), of ap] arg_cong [OF u(5), of ah] arg_cong [OF u(5), of ad] by simp_all
  have d: "bdata (bufs u b) = bview s (log_start s)" using owns_buf_view [OF u(2,3)] v by simp
  let ?w = "u\<lparr>lh_n := int n, lh_block := fold (\<lambda>i bl. bl[i := get32 (bview s (log_start s)) (4 + 4 * i)]) [0..<n] (lh_block u)\<rparr>"
  have cl: "log_start s \<in> pinned u \<or> bview u (log_start s) = disk u (log_start s)"
    using bview_clean [OF inv(1), of "log_start s"] inv(2) v by auto
  have e: "cabs ?w = cabs u" by simp
  note E = cabs_same [OF e]
  obtain t where t: "brelse b ?w = Ok t" "cache_inv t" "bio_frame ?w t" "cabs t = (cabs u)\<lparr>ah := {}\<rparr>"
    using brelse_spec [of ?w b "log_start s"] u(2,3) cl v by (auto simp: succeeds_iff E)
  have "read_head s = Ok t"
    using u(1) dev n d t(1) by (simp add: read_head_def)
  moreover have "cabs t = cabs s" using t(4) u(5) inv(2) by (simp add: cabs_def)
  ultimately show ?thesis
    using t(2) log_more [OF u(4)] log_more [OF t(3)] fold_list_update [of n "lh_block s"] dev n by simp
qed

section \<open>Commit and recovery\<close>

text \<open>A machine that has just booted from disk \<open>d\<close>: nothing is cached, the log is where \<open>s\<close> has it.\<close>

definition boots_from :: "'a log_st_scheme \<Rightarrow> (u32 \<Rightarrow> u8 list) \<Rightarrow> 'b log_st_scheme \<Rightarrow> bool" where
  "boots_from s d r \<longleftrightarrow> cache_inv r \<and> held r = {} \<and> pinned r = {} \<and> disk r = d \<and> log_dev r = 1 \<and>
     log_start r = log_start s \<and> disksize r = disksize s \<and> length (lh_block r) = LOGSIZE"

lemma NBUF_pos [simp]: "0 < NBUF" "Suc 0 < NBUF"
  by (simp_all add: NBUF_def MAXOPBLOCKS_def)

lemma recover_spec:
  fixes s :: "'a log_st_scheme" and r :: "'b log_st_scheme"
  assumes boot: "boots_from s d r" and geo: "unat (log_start s) + LOGSIZE < unat (disksize s)"
    and n: "sint (get32 (d (log_start s)) 0) = int n" "n \<le> LOGSIZE"
    and b: "\<And>i. i < n \<Longrightarrow> get32 (d (log_start s)) (4 + 4 * i) = bl ! i"
    and bl: "\<And>i. i < n \<Longrightarrow> bl ! i < disksize s \<and> bl ! i \<notin> log_region s" "distinct (take n bl)" "n \<le> length bl"
  shows "succeeds (recover_from_log r) (\<lambda>t. cache_inv t \<and> held t = {} \<and> pinned t = {} \<and> lh_n t = 0 \<and>
    (\<forall>m. m \<notin> log_region s \<longrightarrow> disk t m = upd_all d (map (\<lambda>i. (bl ! i, d (logblk s i))) [0..<n]) m))"
proof -
  have r: "cache_inv r" "held r = {}" "pinned r = {}" "disk r = d" "log_dev r = 1" "log_start r = log_start s"
    "disksize r = disksize s" "length (lh_block r) = LOGSIZE"
    using boot by (simp_all add: boots_from_def)
  have vd: "bview r m = d m" for m using bview_clean [OF r(1)] r by simp
  have st: "log_start r < disksize r" using geo r by (simp add: word_less_nat_alt)
  from read_head_spec [OF r(1,2,5) st r(8)] n obtain u where u: "read_head r = Ok u" "cache_inv u" "cabs u = cabs r"
    "lh_n u = int n" "length (lh_block u) = LOGSIZE" "\<forall>i<n. lh_block u ! i = get32 (d (log_start s)) (4 + 4 * i)"
    "log_start u = log_start s" "log_dev u = 1" "disksize u = disksize s"
    by (auto simp: succeeds_iff r vd)
  note U = cabs_same [OF u(3)]
  have reg: "log_region u = log_region s" "logblk u = logblk s" using u(7) by (simp_all add: log_region_def logblk_def [abs_def])
  have lu: "lh_block u ! i = bl ! i" if "i < n" for i using u(6) b that by simp
  have ok: "log_ok u n" unfolding log_ok_def using u n geo bl(1) lu reg by auto
  have take_u: "take n (lh_block u) = take n bl"
    using lu n(2) u(5) bl(3) by (intro nth_equalityI) simp_all
  from install_trans_spec [OF u(2) _ ok, unfolded U r, OF refl] bl(2) obtain v where
    v: "install_trans u = Ok v" "cache_inv v" "bio_frame u v" "cabs v = \<lparr>ah = {}, ap = {},
      av = upd_all (bview r) (inst_writes u n), ad = upd_all d (inst_writes u n), at = dtrace r @ inst_writes u n\<rparr>"
    by (auto simp: succeeds_iff take_u)
  note V = cabs_eqD [OF v(4)]
  let ?v = "v\<lparr>lh_n := 0\<rparr>"
  have e: "cabs ?v = cabs v" by simp
  note E = cabs_same [OF e]
  have ok': "log_ok ?v 0"
    using log_more [OF v(3)] u geo by (simp add: log_ok_def)
  from write_head_spec [of ?v 0] ok' v(2) obtain t where t: "write_head ?v = Ok t" "cache_inv t" "bio_frame ?v t"
    "cabs t = \<lparr>ah = {}, ap = {}, av = (bview v)(log_start v := head_bytes 0 (lh_block v) (bview v (log_start v))),
      ad = (disk v)(log_start v := head_bytes 0 (lh_block v) (bview v (log_start v))),
      at = dtrace v @ [(log_start v, head_bytes 0 (lh_block v) (bview v (log_start v)))]\<rparr>"
    by (auto simp: succeeds_iff E V)
  note T = cabs_eqD [OF t(4)]
  have "recover_from_log r = Ok t" using u(1) v(1) t(1) by (simp add: recover_from_log_def)
  moreover have "lh_n t = 0" using log_more [OF t(3)] by simp
  moreover have "disk t m = upd_all d (map (\<lambda>i. (bl ! i, d (logblk s i))) [0..<n]) m" if "m \<notin> log_region s" for m
  proof -
    have "log_start v = log_start s" using log_more [OF v(3)] u(7) by simp
    moreover have "log_start s \<in> log_region s" using logblk_facts(5) [OF ok, of 0] reg u(7) by (simp add: LOGSIZE_def MAXOPBLOCKS_def)
    ultimately have "m \<noteq> log_start v" using that by auto
    moreover have "inst_writes u n = map (\<lambda>i. (bl ! i, d (logblk s i))) [0..<n]"
      using lu by (simp add: inst_writes_def U vd reg)
    ultimately show ?thesis by (simp add: T V)
  qed
  ultimately show ?thesis using t(2) T by simp
qed

text \<open>A transaction of \<open>n\<close> blocks that is ready to commit.\<close>

definition tx :: "'a log_st_scheme \<Rightarrow> nat \<Rightarrow> bool" where
  "tx s n \<longleftrightarrow> cache_inv s \<and> held s = {} \<and> log_ok s n \<and> distinct (take n (lh_block s)) \<and> pinned s = log_blocks s n"

definition home_writes :: "'a log_st_scheme \<Rightarrow> nat \<Rightarrow> (u32 \<times> u8 list) list" where
  "home_writes s n = map (\<lambda>i. (lh_block s ! i, bview s (lh_block s ! i))) [0..<n]"

lemma card_log_blocks: "tx s n \<Longrightarrow> card (log_blocks s n) = n"
proof -
  assume "tx s n"
  then have "distinct (take n (lh_block s))" "n \<le> length (lh_block s)" by (auto simp: tx_def log_ok_def)
  moreover have "log_blocks s n = set (take n (lh_block s))"
    using calculation(2) nth_image [of n "lh_block s"] by (simp add: log_blocks_def atLeast0LessThan)
  ultimately show ?thesis by (simp add: distinct_card)
qed

lemma commit_spec:
  assumes tx: "tx s n" and n: "0 < n" "n < NBUF"
  defines "H1 \<equiv> head_bytes n (lh_block s) (bview s (log_start s))"
  shows "succeeds (commit s) (\<lambda>t. cache_inv t \<and> held t = {} \<and> pinned t = {} \<and> lh_n t = 0 \<and>
    (\<forall>m. m \<notin> log_region s \<longrightarrow> bview t m = bview s m \<and> disk t m = bview s m) \<and>
    (\<exists>H0. sint (get32 H0 0) = 0 \<and> length H0 = BSIZE \<and>
      dtrace t = dtrace s @ log_writes s n @ [(log_start s, H1)] @ home_writes s n @ [(log_start s, H0)]))"
proof -
  have s: "cache_inv s" "held s = {}" "log_ok s n" "distinct (take n (lh_block s))" "pinned s = log_blocks s n"
    using tx by (simp_all add: tx_def)
  have g: "n \<le> LOGSIZE" "lh_n s = int n" "length (lh_block s) = LOGSIZE" using s(3) by (simp_all add: log_ok_def)
  have L0: "0 < LOGSIZE" using n(1) g(1) by simp
  note LF = logblk_facts [OF s(3)]
  have out: "log_blocks s n \<inter> log_region s = {}" using s(3) by (auto simp: log_blocks_def log_ok_def)
  have st: "log_start s \<in> log_region s" by (rule LF(5) [OF L0])
  have c: "card (pinned s) < NBUF" using card_log_blocks [OF tx] s(5) n(2) by simp
  have "log_blocks s n \<subseteq> pinned s" "pinned s \<inter> log_region s = {}" using s(5) out by simp_all
  from write_log_spec [OF s(1-3) c this] obtain u where u: "write_log s = Ok u" "cache_inv u" "bio_frame s u"
    "cabs u = \<lparr>ah = {}, ap = pinned s, av = upd_all (bview s) (log_writes s n),
      ad = upd_all (disk s) (log_writes s n), at = dtrace s @ log_writes s n\<rparr>" by (auto simp: succeeds_iff)
  note U = cabs_eqD [OF u(4)] and FU = log_frame_ok [OF u(3)] and MU = log_more [OF u(3)]
  have in_reg: "logblk s i \<in> log_region s" "logblk s i \<noteq> log_start s" if "i < n" for i using LF(2,3) that g(1) by auto
  have bu: "bview u m = bview s m" if "m \<notin> logblk s ` {..<n}" for m
    using that by (simp add: U upd_all_notin fst_writes)
  have bl: "bview u (logblk s i) = bview s (lh_block s ! i)" if "i < n" for i
  proof -
    have "distinct (map fst (log_writes s n))"
      using LF(6) g(1) by (auto simp: log_writes_def distinct_map inj_on_def)
    from upd_all_in [OF this] show ?thesis using that by (auto simp: U log_writes_def)
  qed
  have "log_start s \<notin> logblk s ` {..<n}" using in_reg(2) [THEN not_sym] by auto
  then have su: "bview u (log_start u) = bview s (log_start s)" by (simp add: MU bu)
  have nu: "log_start u \<notin> pinned u" using st out s(5) by (auto simp: U MU)
  have oku: "log_ok u n" "card (pinned u) < NBUF" using s(3) c by (simp_all add: FU U)
  have h1: "head_bytes n (lh_block u) (bview u (log_start u)) = H1" unfolding su unfolding MU H1_def ..
  obtain v where v: "write_head u = Ok v" "cache_inv v" "bio_frame u v"
    "cabs v = \<lparr>ah = {}, ap = pinned s, av = (bview u)(log_start s := H1), ad = (disk u)(log_start s := H1),
      at = dtrace u @ [(log_start s, H1)]\<rparr>"
    using write_head_spec [OF u(2) U(1) oku nu, unfolded h1, unfolded MU U(2)] unfolding succeeds_iff by blast
  note V = cabs_eqD [OF v(4)] and FV = log_frame_ok [OF v(3)] and MV = log_more [OF v(3)]
  have iw: "inst_writes v n = home_writes s n"
    using bl in_reg(2) by (auto simp: inst_writes_def home_writes_def FV FU MV MU V(3))
  have lb: "log_blocks v n = log_blocks s n" by (simp add: log_blocks_def MV MU)
  have "\<And>i. i < n \<Longrightarrow> lh_block v ! i \<in> pinned v" by (auto simp: MV MU V s(5) log_blocks_def)
  then obtain w where w: "install_trans v = Ok w" "cache_inv w" "bio_frame v w"
    "cabs w = \<lparr>ah = {}, ap = {}, av = upd_all (bview v) (home_writes s n), ad = upd_all (disk v) (home_writes s n),
      at = dtrace v @ home_writes s n\<rparr>"
    using install_trans_spec [OF v(2) V(1), of n] s(3,4) c by (auto simp: succeeds_iff FV FU MV MU V(2) iw lb s(5))
  note W = cabs_eqD [OF w(4)] and FW = log_frame_ok [OF w(3)] and MW = log_more [OF w(3)]
  let ?w = "w\<lparr>lh_n := 0\<rparr>"
  have e: "cabs ?w = cabs w" by simp
  note E = cabs_same [OF e]
  define H0 where "H0 = head_bytes 0 (lh_block s) (bview w (log_start s))"
  have ok0: "log_ok ?w 0" using s(3) by (simp add: log_ok_def MW MV MU)
  from write_head_spec [of ?w 0] ok0 w(2) obtain t where t: "write_head ?w = Ok t" "cache_inv t" "bio_frame ?w t"
    "cabs t = \<lparr>ah = {}, ap = {}, av = (bview w)(log_start s := H0), ad = (disk w)(log_start s := H0),
      at = dtrace w @ [(log_start s, H0)]\<rparr>"
    by (auto simp: succeeds_iff E W(1,2) MW MV MU H0_def)
  note T = cabs_eqD [OF t(4)]
  have "commit s = Ok t" using u(1) v(1) w(1) t(1) n(1) g(2) by (simp add: commit_def)
  moreover have "lh_n t = 0" using log_more [OF t(3)] by simp
  moreover have "bview t m = bview s m \<and> disk t m = bview s m" if m: "m \<notin> log_region s" for m
  proof (cases "m \<in> log_blocks s n")
    case True
    then obtain i where i: "i < n" "m = lh_block s ! i" by (auto simp: log_blocks_def)
    have "distinct (map fst (home_writes s n))"
      using s(4) g by (simp add: home_writes_def o_def distinct_map inj_on_def distinct_conv_nth)
    moreover have "(m, bview s m) \<in> set (home_writes s n)" using i by (auto simp: home_writes_def)
    ultimately show ?thesis using m st by (auto simp: T W upd_all_in)
  next
    case False
    then have "bview s m = disk s m" using s by (intro bview_clean) simp_all
    moreover have "m \<notin> fst ` set (home_writes s n)" using False by (auto simp: home_writes_def log_blocks_def)
    moreover have "m \<notin> logblk s ` {..<n}" using m in_reg by auto
    ultimately show ?thesis using m st by (auto simp: T W V U upd_all_notin fst_writes)
  qed
  moreover have "sint (get32 H0 0) = 0" "length H0 = BSIZE"
    using head_bytes_facts(1,2) [of 0 "bview w (log_start s)" "lh_block s"] bview_length [OF w(2)] by (simp_all add: H0_def)
  ultimately show ?thesis using t(2) by (auto simp: T W V U)
qed

text \<open>The disk after the first \<open>k\<close> writes of a commit, and what recovery makes of it.\<close>

lemma crash_point:
  assumes tx: "tx s n" and H1: "H1 = head_bytes n (lh_block s) (bview s (log_start s))"
    and zero: "sint (get32 (disk s (log_start s)) 0) = 0" "sint (get32 H0 0) = 0"
    and W: "W = log_writes s n @ [(log_start s, H1)] @ home_writes s n @ [(log_start s, H0)]"
    and boot: "boots_from s (upd_all (disk s) (take k W)) r"
  shows "succeeds (recover_from_log r) (\<lambda>u. \<forall>m. m \<notin> log_region s \<longrightarrow> disk u m = (if k \<le> n then disk s m else bview s m))"
proof -
  have s: "cache_inv s" "held s = {}" "log_ok s n" "distinct (take n (lh_block s))" "pinned s = log_blocks s n"
    using tx by (simp_all add: tx_def)
  have g: "n \<le> LOGSIZE" "length (lh_block s) = LOGSIZE" "unat (log_start s) + LOGSIZE < unat (disksize s)"
    using s(3) by (simp_all add: log_ok_def)
  have st: "log_start s \<in> log_region s" using logblk_facts(5) [OF s(3), of 0] by (simp add: LOGSIZE_def MAXOPBLOCKS_def)
  have lb: "logblk s i \<in> log_region s" "logblk s i \<noteq> log_start s" if "i < n" for i
    using logblk_facts(2,3) [OF s(3)] that g(1) by auto
  have hb: "lh_block s ! i \<notin> log_region s" "lh_block s ! i < disksize s" if "i < n" for i
    using s(3) that by (auto simp: log_ok_def)
  have clean: "m \<notin> log_blocks s n \<Longrightarrow> disk s m = bview s m" for m using s bview_clean [OF s(1), of m] by simp
  let ?d = "upd_all (disk s) (take k W)"
  have lw: "fst ` set (take j (log_writes s n)) \<subseteq> log_region s - {log_start s}" for j
    using lb set_take_subset [of j "log_writes s n"] by (fastforce simp: log_writes_def)
  have hw: "fst ` set (take j (home_writes s n)) \<subseteq> log_blocks s n" for j
    using set_take_subset [of j "home_writes s n"] by (fastforce simp: home_writes_def log_blocks_def)
  have len: "length (log_writes s n) = n" "length (home_writes s n) = n" by (simp_all add: log_writes_def home_writes_def)
  consider "k \<le> n" | "n < k" "k \<le> 2 * n + 1" | "2 * n + 1 < k" by linarith
  then show ?thesis
  proof cases
    case 1
    then have W1: "take k W = take k (log_writes s n)" by (simp add: W len)
    have "log_start s \<notin> fst ` set (take k (log_writes s n))" using lw [of k] by blast
    then have "sint (get32 (?d (log_start s)) 0) = int 0" using zero(1) by (simp add: W1 upd_all_notin)
    from recover_spec [OF boot g(3) this, of "[]"] show ?thesis
    proof (rule succeeds_mono)
      fix u assume u: "cache_inv u \<and> held u = {} \<and> pinned u = {} \<and> lh_n u = 0 \<and>
        (\<forall>m. m \<notin> log_region s \<longrightarrow> disk u m = upd_all ?d (map (\<lambda>i. ([] ! i, ?d (logblk s i))) [0..<0]) m)"
      have "?d m = disk s m" if "m \<notin> log_region s" for m
        unfolding W1 by (rule upd_all_notin) (use lw [of k] that in blast)
      then show "\<forall>m. m \<notin> log_region s \<longrightarrow> disk u m = (if k \<le> n then disk s m else bview s m)" using u 1 by simp
    qed simp_all
  next
    case 2
    obtain j where j: "k = Suc (n + j)" "j \<le> n" using 2 less_imp_Suc_add [of n k] by auto
    have W2: "take k W = log_writes s n @ [(log_start s, H1)] @ take j (home_writes s n)" using j by (simp add: W len)
    have "log_start s \<notin> fst ` set (take j (home_writes s n))" using hw [of j] hb st by (auto simp: log_blocks_def)
    then have d1: "?d (log_start s) = H1" by (simp add: W2 upd_all_notin)
    have H: "sint (get32 H1 0) = int n" "\<And>i. i < n \<Longrightarrow> get32 H1 (4 + 4 * i) = lh_block s ! i"
      using head_bytes_facts(2,3) [OF g(1) bview_length [OF s(1)]] by (simp_all add: H1)
    have dl: "?d (logblk s i) = bview s (lh_block s ! i)" if "i < n" for i
    proof -
      have "distinct (map fst (log_writes s n))"
        using logblk_facts(6) [OF s(3)] g(1) by (auto simp: log_writes_def distinct_map inj_on_def)
      from upd_all_in [OF this, of "logblk s i"]
      have "upd_all (disk s) (log_writes s n) (logblk s i) = bview s (lh_block s ! i)"
        using that by (auto simp: log_writes_def)
      moreover have "logblk s i \<notin> fst ` set (take j (home_writes s n))"
        using hw [of j] hb lb(1) [OF that] by (auto simp: log_blocks_def)
      ultimately show ?thesis using lb(2) [OF that] by (simp add: W2 upd_all_notin)
    qed
    have "succeeds (recover_from_log r) (\<lambda>t. cache_inv t \<and> held t = {} \<and> pinned t = {} \<and> lh_n t = 0 \<and>
      (\<forall>m. m \<notin> log_region s \<longrightarrow> disk t m = upd_all ?d (map (\<lambda>i. (lh_block s ! i, ?d (logblk s i))) [0..<n]) m))"
      using H hb s(4) g by (intro recover_spec [OF boot g(3)]) (simp_all add: d1)
    then show ?thesis
    proof (rule succeeds_mono)
      fix u assume u: "cache_inv u \<and> held u = {} \<and> pinned u = {} \<and> lh_n u = 0 \<and>
        (\<forall>m. m \<notin> log_region s \<longrightarrow> disk u m = upd_all ?d (map (\<lambda>i. (lh_block s ! i, ?d (logblk s i))) [0..<n]) m)"
      have hm: "map (\<lambda>i. (lh_block s ! i, ?d (logblk s i))) [0..<n] = home_writes s n"
        using dl by (simp add: home_writes_def)
      have "disk u m = bview s m" if m: "m \<notin> log_region s" for m
      proof (cases "m \<in> log_blocks s n")
        case True
        have "distinct (map fst (home_writes s n))"
          using s(4) g by (simp add: home_writes_def o_def distinct_map inj_on_def distinct_conv_nth)
        from upd_all_in [OF this, of m "bview s m"] show ?thesis
          using u m True by (auto simp: hm home_writes_def log_blocks_def)
      next
        case False
        have "m \<notin> fst ` set (home_writes s n)" using hw [of n] False len by (simp add: subset_iff) blast
        moreover have "m \<notin> fst ` set (take j (home_writes s n))" using hw [of j] False by blast
        moreover have "m \<notin> fst ` set (log_writes s n)" using lw [of n] m len by (simp add: subset_iff) blast
        moreover have "m \<noteq> log_start s" using m st by blast
        moreover have "disk u m = upd_all ?d (home_writes s n) m" using u m unfolding hm by blast
        ultimately show ?thesis using clean [OF False] by (simp add: W2 upd_all_notin)
      qed
      then show "\<forall>m. m \<notin> log_region s \<longrightarrow> disk u m = (if k \<le> n then disk s m else bview s m)" using 2 by simp
    qed
  next
    case 3
    then have W3: "take k W = W" by (simp add: W len)
    have "?d (log_start s) = H0" unfolding W3 by (simp add: W)
    then have "sint (get32 (?d (log_start s)) 0) = int 0" using zero(2) by simp
    from recover_spec [OF boot g(3) this, of "[]"] show ?thesis
    proof (rule succeeds_mono)
      fix u assume u: "cache_inv u \<and> held u = {} \<and> pinned u = {} \<and> lh_n u = 0 \<and>
        (\<forall>m. m \<notin> log_region s \<longrightarrow> disk u m = upd_all ?d (map (\<lambda>i. ([] ! i, ?d (logblk s i))) [0..<0]) m)"
      have "?d m = bview s m" if m: "m \<notin> log_region s" for m
      proof (cases "m \<in> log_blocks s n")
        case True
        have "distinct (map fst (home_writes s n))"
          using s(4) g by (simp add: home_writes_def o_def distinct_map inj_on_def distinct_conv_nth)
        from upd_all_in [OF this, of m "bview s m"] show ?thesis
          using m True st unfolding W3 by (auto simp: W home_writes_def log_blocks_def)
      next
        case False
        have "m \<notin> fst ` set (home_writes s n)" using hw [of n] False len by (simp add: subset_iff) blast
        moreover have "m \<notin> fst ` set (log_writes s n)" using lw [of n] m len by (simp add: subset_iff) blast
        moreover have "m \<noteq> log_start s" using m st by blast
        ultimately show ?thesis using clean [OF False] unfolding W3 by (simp add: W upd_all_notin)
      qed
      then show "\<forall>m. m \<notin> log_region s \<longrightarrow> disk u m = (if k \<le> n then disk s m else bview s m)" using u 3 by simp
    qed simp_all
  qed
qed

section \<open>Writing inside a transaction\<close>

text \<open>
  The invariant while file system calls run: the dirty buffers are exactly the blocks recorded
  in the log header.
\<close>

definition log_inv :: "'a log_st_scheme \<Rightarrow> bool" where
  "log_inv s \<longleftrightarrow> cache_inv s \<and> (\<exists>n. log_ok s n \<and> distinct (take n (lh_block s)) \<and> pinned s = log_blocks s n)"

definition tx_frame :: "'a log_st_scheme \<Rightarrow> 'a log_st_scheme \<Rightarrow> bool" where
  "tx_frame s t \<longleftrightarrow> undisturbed s t \<and> disksize t = disksize s \<and> log_start t = log_start s \<and> log_size t = log_size s \<and>
     log_outstanding t = log_outstanding s \<and> log_committing t = log_committing s \<and> log_dev t = log_dev s \<and>
     log_st.more t = log_st.more s \<and> (\<forall>c. (\<forall>i. c \<noteq> ChBufLock i) \<longrightarrow> slocks t c = slocks s c)"

lemma tx_frame_refl [simp]: "tx_frame s s"
  by (simp add: tx_frame_def)

lemma tx_frame_trans [trans]: "tx_frame s t \<Longrightarrow> tx_frame t u \<Longrightarrow> tx_frame s u"
  by (auto simp: tx_frame_def intro: undisturbed_trans)

lemma bio_frame_tx: "bio_frame s t \<Longrightarrow> tx_frame s t"
proof -
  assume f: "bio_frame s t"
  then have "bio_st.more t = bio_st.more s" by (simp add: bio_frame_def)
  then have "log_st.more t = log_st.more s" by (cases s; cases t; simp)
  then show ?thesis using f log_more [OF f] by (auto simp: tx_frame_def bio_frame_def)
qed

lemma log_inv_frame: "log_inv s \<Longrightarrow> bio_frame s t \<Longrightarrow> cache_inv t \<Longrightarrow> pinned t = pinned s \<Longrightarrow> log_inv t"
  using log_frame_ok [of s t] log_more [of s t] by (auto simp: log_inv_def log_blocks_def)

lemma tx_frame_region: "tx_frame s t \<Longrightarrow> log_region t = log_region s"
  by (simp add: tx_frame_def log_region_def)

lemma log_inv_cache [simp]: "log_inv s \<Longrightarrow> cache_inv s"
  by (simp add: log_inv_def)

lemma log_write_spec:
  assumes inv: "log_inv s" and o: "owns_buf s b m" and out: "m \<notin> log_region s" and tr: "1 \<le> log_outstanding s"
  shows "outcome (if lh_n s < int LOGSIZE \<and> lh_n s < log_size s - 1 then {} else {''too big a transaction''}) (log_write b s)
    (\<lambda>t. log_inv t \<and> cabs t = (cabs s)\<lparr>ap := insert m (pinned s)\<rparr> \<and>
    tx_frame s t \<and> (\<forall>j k. owns_buf s j k \<longrightarrow> owns_buf t j k))"
proof (cases "lh_n s \<ge> int LOGSIZE \<or> lh_n s \<ge> log_size s - 1")
  case True
  then show ?thesis using cache_invD(1) [OF log_inv_cache [OF inv]] by (auto simp: log_write_eq)
next
  case False
  obtain n where n: "log_ok s n" "distinct (take n (lh_block s))" "pinned s = log_blocks s n"
    using inv by (auto simp: log_inv_def)
  have ci: "cache_inv s" using inv by simp
  have g: "lh_n s = int n" "n < LOGSIZE" "length (lh_block s) = LOGSIZE" using n(1) False by (simp_all add: log_ok_def)
  note O = owns_bufD [OF ci o]
  let ?i = "case first_idx (\<lambda>x. x = m) (take n (lh_block s)) of Some i \<Rightarrow> i | None \<Rightarrow> n"
  let ?k = "if ?i = n then Suc n else n"
  let ?bl = "(lh_block s)[?i := m]"
  let ?u = "s\<lparr>lh_block := ?bl, lh_n := int ?k\<rparr>"
  have e: "cabs ?u = cabs s" "cache_inv ?u" "owns_buf ?u = owns_buf s" using ci by simp_all
  note D = set_dirty_spec [OF e(2) o [folded e(3)]]
  have eq: "log_write b s = Ok (set_buf b (\<lambda>x. x\<lparr>bdirty := True\<rparr>) ?u)"
    using False tr O(2,9) g(1) by (simp add: log_write_eq Let_def add.commute cong: option.case_cong)
  have i: "?i \<le> n" "?i < n \<Longrightarrow> lh_block s ! ?i = m" "?i = n \<Longrightarrow> m \<notin> set (take n (lh_block s))"
    using first_idx_lt [of "\<lambda>x. x = m" "take n (lh_block s)"] first_idx_sat [of "\<lambda>x. x = m" "take n (lh_block s)"]
      first_idx_None [of "\<lambda>x. x = m" "take n (lh_block s)"] g
    by (auto split: option.splits)
  have take_k: "take ?k ?bl = (if ?i = n then take n (lh_block s) @ [m] else take n (lh_block s))"
  proof (cases "?i = n")
    case True
    then show ?thesis using g by (simp add: take_Suc_conv_app_nth)
  next
    case False
    then have "?bl = lh_block s" using i by (metis le_neq_implies_less list_update_id)
    then show ?thesis using False by simp
  qed
  have set_n: "log_blocks s n = set (take n (lh_block s))"
    using g nth_image [of n "lh_block s"] by (simp add: log_blocks_def atLeast0LessThan)
  have len: "?k \<le> LOGSIZE" "length ?bl = LOGSIZE" using g by simp_all
  have set_k: "(\<lambda>j. ?bl ! j) ` {..<?k} = set (take ?k ?bl)"
    using len nth_image [of ?k ?bl] by (simp add: atLeast0LessThan)
  have ins: "set (take ?k ?bl) = insert m (log_blocks s n)"
    using i(1,2) g unfolding take_k set_n by (auto simp: in_set_conv_nth) (metis le_neq_implies_less nth_take)
  have ok: "?bl ! j < disksize s \<and> ?bl ! j \<notin> log_region s" if "j < ?k" for j
  proof -
    have "?bl ! j \<in> insert m (log_blocks s n)" using that set_k ins by blast
    then show ?thesis using n(1) out O(7) by (auto simp: log_blocks_def log_ok_def)
  qed
  let ?t = "set_buf b (\<lambda>x. x\<lparr>bdirty := True\<rparr>) ?u"
  have T: "log_start ?t = log_start s" "log_dev ?t = log_dev s" "lh_n ?t = int ?k" "lh_block ?t = ?bl" "disksize ?t = disksize s"
    "log_size ?t = log_size s" "log_outstanding ?t = log_outstanding s" "log_committing ?t = log_committing s"
    "log_st.more ?t = log_st.more s" "slocks ?t = slocks s"
    by (simp_all add: set_buf_def)
  have "log_region ?t = log_region s" by (simp add: log_region_def T)
  then have "log_ok ?t ?k" using n(1) ok len unfolding log_ok_def T by simp
  moreover have "distinct (take ?k (lh_block ?t))" using n(2) i(3) unfolding T take_k by simp
  moreover have pt: "cabs ?t = (cabs s)\<lparr>ap := insert m (pinned s)\<rparr>" using D(3) cabs_same [OF e(1)] e(1) by simp
  moreover have "pinned ?t = log_blocks ?t ?k"
    using arg_cong [OF pt, of ap] ins set_k n(3) by (simp add: log_blocks_def T)
  ultimately have "log_inv ?t" using D(1) unfolding log_inv_def by blast
  moreover have "tx_frame s ?t"
    using D(4) unfolding tx_frame_def T by (simp add: bio_frame_def undisturbed_def same_cpu_def)
  moreover have "owns_buf s j k \<Longrightarrow> owns_buf ?t j k" for j k using D(2) e(3) by simp
  ultimately show ?thesis using pt by (simp add: eq)
qed

section \<open>The interface to the file system\<close>

text \<open>
  What the file system relies on inside a transaction: blocks are read, modified and logged, and
  released; nothing reaches the disk. \<open>step s t V H\<close> says that \<open>t\<close> is reached from \<open>s\<close>
  with block contents \<open>V\<close> and locked blocks \<open>H\<close>.
\<close>

locale logged_blocks =
  fixes inv :: "'s \<Rightarrow> bool" and view :: "'s \<Rightarrow> u32 \<Rightarrow> u8 list" and busy :: "'s \<Rightarrow> u32 set"
    and owns :: "'s \<Rightarrow> nat \<Rightarrow> u32 \<Rightarrow> bool" and clean :: "'s \<Rightarrow> u32 \<Rightarrow> bool"
    and valid :: "'s \<Rightarrow> u32 \<Rightarrow> bool" and writable :: "'s \<Rightarrow> u32 \<Rightarrow> bool"
    and step :: "'s \<Rightarrow> 's \<Rightarrow> (u32 \<Rightarrow> u8 list) \<Rightarrow> u32 set \<Rightarrow> bool"
    and data :: "nat \<Rightarrow> 's \<Rightarrow> u8 list" and put :: "nat \<Rightarrow> u8 list \<Rightarrow> 's \<Rightarrow> 's"
    and get :: "u32 \<Rightarrow> 's \<Rightarrow> (nat \<times> 's) res" and log :: "nat \<Rightarrow> 's \<Rightarrow> 's res" and rel :: "nat \<Rightarrow> 's \<Rightarrow> 's res"
  assumes get_law: "inv s \<Longrightarrow> valid s n \<Longrightarrow> n \<notin> busy s \<Longrightarrow>
      outcome {''bget: no buffers''} (get n s) (\<lambda>(i, t). step s t (view s) (insert n (busy s)) \<and> owns t i n \<and> clean t n)"
    and write_law: "inv s \<Longrightarrow> owns s i n \<Longrightarrow> writable s n \<Longrightarrow> length d = BSIZE \<Longrightarrow>
      outcome {''too big a transaction''} (log i (put i d s)) (\<lambda>t. step s t ((view s)(n := d)) (busy s) \<and> clean t n)"
    and rel_law: "inv s \<Longrightarrow> owns s i n \<Longrightarrow> clean s n \<Longrightarrow>
      succeeds (rel i s) (\<lambda>t. step s t (view s) (busy s - {n}))"
    and data_law: "inv s \<Longrightarrow> owns s i n \<Longrightarrow> data i s = view s n \<and> n \<in> busy s"
    and length_law: "inv s \<Longrightarrow> length (view s n) = BSIZE"
    and step_refl: "inv s \<Longrightarrow> step s s (view s) (busy s)"
    and step_trans: "inv s \<Longrightarrow> step s t V H \<Longrightarrow> step t u V' H' \<Longrightarrow> busy s \<inter> H' \<subseteq> H \<Longrightarrow> step s u V' H'"
    and step_to: "step s t V H \<Longrightarrow> inv t \<and> view t = V \<and> busy t = H"
    and step_owns: "step s t V H \<Longrightarrow> owns s j k \<Longrightarrow> k \<in> H \<Longrightarrow> owns t j k \<and> (clean s k \<longrightarrow> clean t k)"
    and step_valid: "step s t V H \<Longrightarrow> valid t = valid s \<and> writable t = writable s"
    and writable_valid: "writable s n \<Longrightarrow> valid s n"

context logged_blocks
begin

lemma read_block:
  assumes "inv s" "valid s n" "n \<notin> busy s"
  shows "outcome {''bget: no buffers''} (bindr (get n s) (\<lambda>(i, t). bindr (rel i t) (\<lambda>u. Ok (f (data i t), u))))
    (\<lambda>(d, u). d = f (view s n) \<and> step s u (view s) (busy s))"
proof (simp only: outcome_bindr, rule outcome_post [OF get_law [OF assms]], clarify)
  fix i t
  assume t: "step s t (view s) (insert n (busy s))" "owns t i n" "clean t n"
  note T = step_to [OF t(1)]
  show "outcome {''bget: no buffers''} (bindr (rel i t) (\<lambda>u. Ok (f (data i t), u)))
      (\<lambda>(d, u). d = f (view s n) \<and> step s u (view s) (busy s))"
  proof (simp only: outcome_bindr, rule outcome_succeeds, rule succeeds_mono [OF rel_law [OF _ t(2,3)]])
    fix u
    assume "step t u (view t) (busy t - {n})"
    then have "step t u (view s) (busy s)" using T assms(3) by simp
    from step_trans [OF assms(1) t(1) this]
    show "outcome {''bget: no buffers''} (Ok (f (data i t), u)) (\<lambda>(d, u). d = f (view s n) \<and> step s u (view s) (busy s))"
      using T data_law [OF _ t(2)] by auto
  qed (use T in simp)
qed

lemma write_rel:
  assumes "inv s" "owns s i n" "writable s n" "length d = BSIZE"
  shows "outcome {''too big a transaction''} (bindr (log i (put i d s)) (rel i))
    (\<lambda>u. step s u ((view s)(n := d)) (busy s - {n}))"
proof (simp only: outcome_bindr, rule outcome_post [OF write_law [OF assms]], clarify)
  fix t
  assume t: "step s t ((view s)(n := d)) (busy s)" "clean t n"
  have o: "owns t i n" using step_owns [OF t(1) assms(2)] data_law [OF assms(1,2)] by blast
  show "outcome {''too big a transaction''} (rel i t) (\<lambda>u. step s u ((view s)(n := d)) (busy s - {n}))"
  proof (rule outcome_succeeds, rule succeeds_mono [OF rel_law [OF _ o t(2)]])
    show "inv t" using step_to [OF t(1)] by blast
  next
    fix u
    assume "step t u (view t) (busy t - {n})"
    then have "step t u ((view s)(n := d)) (busy s - {n})" using step_to [OF t(1)] by simp
    from step_trans [OF assms(1) t(1) this] show "step s u ((view s)(n := d)) (busy s - {n})" by blast
  qed
qed

lemma modify_block:
  assumes "inv s" "writable s n" "n \<notin> busy s" "\<And>d. length d = BSIZE \<Longrightarrow> length (f d) = BSIZE"
  shows "outcome {''bget: no buffers'', ''too big a transaction''}
    (bindr (get n s) (\<lambda>(i, t). bindr (log i (put i (f (data i t)) t)) (rel i)))
    (\<lambda>u. step s u ((view s)(n := f (view s n))) (busy s))"
proof (subst outcome_bindr, rule outcome_mono [OF get_law [OF assms(1) writable_valid [OF assms(2)] assms(3)]], blast, clarify)
  fix i t
  assume t: "step s t (view s) (insert n (busy s))" "owns t i n" "clean t n"
  note T = step_to [OF t(1)]
  have d: "data i t = view s n" "length (f (data i t)) = BSIZE" "writable t n"
    using T data_law [OF _ t(2)] length_law [of t n] assms(2,4) step_valid [OF t(1)] by auto
  show "outcome {''bget: no buffers'', ''too big a transaction''} (bindr (log i (put i (f (data i t)) t)) (rel i))
      (\<lambda>u. step s u ((view s)(n := f (view s n))) (busy s))"
  proof (rule outcome_mono [OF write_rel [OF _ t(2) d(3,2)]])
    fix u
    assume "step t u ((view t)(n := f (data i t))) (busy t - {n})"
    then have "step t u ((view s)(n := f (view s n))) (busy s)" using T assms(3) d(1) by simp
    from step_trans [OF assms(1) t(1) this] show "step s u ((view s)(n := f (view s n))) (busy s)" by blast
  qed (use T in auto)
qed

end

definition clean :: "'a bio_st_scheme \<Rightarrow> u32 \<Rightarrow> bool" where
  "clean s n \<longleftrightarrow> n \<in> pinned s \<or> bview s n = disk s n"

definition fs_step :: "'a log_st_scheme \<Rightarrow> 'a log_st_scheme \<Rightarrow> (u32 \<Rightarrow> u8 list) \<Rightarrow> u32 set \<Rightarrow> bool" where
  "fs_step s t V H \<longleftrightarrow> log_inv t \<and> bview t = V \<and> held t = H \<and> tx_frame s t \<and> disk t = disk s \<and> dtrace t = dtrace s \<and>
     (\<forall>j k. owns_buf s j k \<longrightarrow> k \<in> H \<longrightarrow> owns_buf t j k \<and> (clean s k \<longrightarrow> clean t k))"

definition in_tx :: "'a log_st_scheme \<Rightarrow> u32 \<Rightarrow> bool" where
  "in_tx s n \<longleftrightarrow> n < disksize s \<and> n \<notin> log_region s \<and> 1 \<le> log_outstanding s"

lemma cabsD:
  assumes "cabs t = c"
  shows "held t = ah c" "pinned t = ap c" "bview t = av c" "disk t = ad c" "dtrace t = at c"
  unfolding assms [symmetric] by simp_all

lemma fs_stepI:
  assumes "bio_frame s t" "log_inv s" "cache_inv t" "cabs t = (cabs s)\<lparr>ah := H\<rparr>"
    and "\<And>j k. owns_buf s j k \<Longrightarrow> k \<in> H \<Longrightarrow> owns_buf t j k"
  shows "fs_step s t (bview s) H"
proof -
  have a: "held t = H" "pinned t = pinned s" "bview t = bview s" "disk t = disk s" "dtrace t = dtrace s"
    using cabsD [OF assms(4)] by simp_all
  have "log_inv t" by (rule log_inv_frame [OF assms(2,1,3) a(2)])
  then show ?thesis using assms(5) bio_frame_tx [OF assms(1)] a by (simp add: fs_step_def clean_def)
qed

lemma tx_frame_in_tx: "tx_frame s t \<Longrightarrow> in_tx t = in_tx s"
  by (auto simp: fun_eq_iff in_tx_def tx_frame_region) (simp_all add: tx_frame_def)

lemma bread_step:
  assumes "log_inv s" "n < disksize s" "n \<notin> held s"
  shows "outcome {''bget: no buffers''} (bread 1 n s)
    (\<lambda>(i, t). fs_step s t (bview s) (insert n (held s)) \<and> owns_buf t i n \<and> clean t n)"
proof (rule outcome_mono [OF bread_spec [OF log_inv_cache [OF assms(1)] assms(2,3)]], goal_cases)
  case 1
  then show ?case by simp
next
  case (2 x)
  obtain i t where x: "x = (i, t)" by (cases x)
  have t: "cache_inv t" "owns_buf t i n" "cabs t = (cabs s)\<lparr>ah := insert n (held s)\<rparr>" "bio_frame s t"
    "\<And>j k. owns_buf s j k \<Longrightarrow> owns_buf t j k" using 2 unfolding x by auto
  have "fs_step s t (bview s) (insert n (held s))" using fs_stepI [OF t(4) assms(1) t(1,3)] t(5) by simp
  moreover have "clean t n"
    using bview_clean [OF log_inv_cache [OF assms(1)] assms(3)] cabsD [OF t(3)] by (auto simp: clean_def)
  ultimately show ?case using t(2) by (simp add: x)
qed

lemma brelse_step:
  assumes "log_inv s" "owns_buf s i n" "clean s n"
  shows "succeeds (brelse i s) (\<lambda>t. fs_step s t (bview s) (held s - {n}))"
proof (rule succeeds_mono [OF brelse_spec [OF log_inv_cache [OF assms(1)] assms(2)]])
  show "n \<in> pinned s \<or> bview s n = disk s n" using assms(3) by (simp add: clean_def)
next
  fix t
  assume "cache_inv t \<and> cabs t = (cabs s)\<lparr>ah := held s - {n}\<rparr> \<and> bio_frame s t \<and> (\<forall>j k. owns_buf s j k \<longrightarrow> k \<noteq> n \<longrightarrow> owns_buf t j k)"
  then show "fs_step s t (bview s) (held s - {n})" using fs_stepI [of s t "held s - {n}"] assms(1) by blast
qed

lemma write_step:
  assumes "log_inv s" "owns_buf s i n" "in_tx s n" "length d = BSIZE"
  shows "outcome {''too big a transaction''} (log_write i (set_data i d s))
    (\<lambda>t. fs_step s t ((bview s)(n := d)) (held s) \<and> clean t n)"
proof -
  let ?p = "set_data i d s"
  note p = set_data_spec [OF log_inv_cache [OF assms(1)] assms(2,4)]
  have pc: "cabs ?p = (cabs s)\<lparr>av := (bview s)(n := d)\<rparr>" "cache_inv ?p" "bio_frame s ?p"
    "\<And>j k. owns_buf s j k \<Longrightarrow> owns_buf ?p j k" using p by simp_all
  have a: "held ?p = held s" "pinned ?p = pinned s" "bview ?p = (bview s)(n := d)" "disk ?p = disk s" "dtrace ?p = dtrace s"
    using cabsD [OF pc(1)] by simp_all
  have li: "log_inv ?p" by (rule log_inv_frame [OF assms(1) pc(3,2) a(2)])
  have f: "tx_frame s ?p" by (rule bio_frame_tx [OF pc(3)])
  have w: "n \<notin> log_region ?p" "1 \<le> log_outstanding ?p" using assms(3) [folded tx_frame_in_tx [OF f]] by (simp_all add: in_tx_def)
  show ?thesis
  proof (rule outcome_mono [OF log_write_spec [OF li pc(4) [OF assms(2)] w]], simp)
    fix t
    assume "log_inv t \<and> cabs t = (cabs ?p)\<lparr>ap := insert n (pinned ?p)\<rparr> \<and> tx_frame ?p t \<and>
      (\<forall>j k. owns_buf ?p j k \<longrightarrow> owns_buf t j k)"
    then have t: "log_inv t" "cabs t = (cabs ?p)\<lparr>ap := insert n (pinned ?p)\<rparr>" "tx_frame ?p t"
      "\<And>j k. owns_buf ?p j k \<Longrightarrow> owns_buf t j k" by blast+
    have b: "held t = held s" "pinned t = insert n (pinned s)" "bview t = (bview s)(n := d)" "disk t = disk s" "dtrace t = dtrace s"
      using cabsD [OF t(2)] a by simp_all
    have "tx_frame s t" by (rule tx_frame_trans [OF f t(3)])
    then show "fs_step s t ((bview s)(n := d)) (held s) \<and> clean t n"
      using t(1) b t(4) [OF pc(4)] by (auto simp: fs_step_def clean_def)
  qed
qed

interpretation logged: logged_blocks log_inv bview held owns_buf clean "\<lambda>s n. n < disksize s" in_tx fs_step
  "\<lambda>i s. bdata (bufs s i)" set_data "bread 1" log_write brelse
proof (unfold_locales, goal_cases)
  case (1 s n)
  then show ?case by (rule bread_step)
next
  case (2 s i n d)
  then show ?case by (rule write_step)
next
  case (3 s i n)
  then show ?case by (rule brelse_step)
next
  case (4 s i n)
  then show ?case using owns_buf_view [of s i n] by simp
next
  case (5 s n)
  then show ?case by (simp add: bview_length)
next
  case (6 s)
  then show ?case by (simp add: fs_step_def)
next
  case (7 s t V H u V' H')
  have "owns_buf u j k \<and> (clean s k \<longrightarrow> clean u k)" if "owns_buf s j k" "k \<in> H'" for j k
  proof -
    have "k \<in> held s" using owns_buf_view [of s j k] 7(1) that(1) by simp
    then have "k \<in> H" using that(2) 7(4) by blast
    then show ?thesis using 7(2,3) that unfolding fs_step_def by blast
  qed
  then show ?case using 7(2,3) tx_frame_trans [of s t u] by (simp add: fs_step_def)
next
  case (8 s t V H)
  then show ?case by (simp add: fs_step_def)
next
  case (9 s t V H j k)
  then show ?case by (simp add: fs_step_def)
next
  case (10 s t V H)
  then have f: "tx_frame s t" by (simp add: fs_step_def)
  then have "disksize t = disksize s" by (simp add: tx_frame_def)
  then show ?case by (simp add: tx_frame_in_tx [OF f])
next
  case (11 s n)
  then show ?case by (simp add: in_tx_def)
qed

section \<open>Properties\<close>


text \<open>The system after the log was initialised, inside a first transaction.\<close>

definition boot_log :: log_st where
  "boot_log = bio_st.extend boot_bio \<lparr>log_start = 2, log_size = 30, log_outstanding = 1, log_committing = False,
     log_dev = 1, lh_n = 0, lh_block = replicate LOGSIZE 0\<rparr>"

lemma boot_log_facts:
  "cache_inv boot_log" "cabs boot_log = \<lparr>ah = {}, ap = {}, av = (\<lambda>_. replicate 512 0), ad = (\<lambda>_. replicate 512 0), at = []\<rparr>"
  "disksize boot_log = 1000" "log_start boot_log = 2" "log_outstanding boot_log = 1" "lh_block boot_log = replicate LOGSIZE 0"
  "lh_n boot_log = 0" "log_dev boot_log = 1" "log_size boot_log = 30"
proof -
  have "bio_st.truncate boot_log = bio_st.truncate boot_bio" by (simp add: boot_log_def bio_st.defs)
  from cache_cong [OF this] show "cache_inv boot_log"
    "cabs boot_log = \<lparr>ah = {}, ap = {}, av = (\<lambda>_. replicate 512 0), ad = (\<lambda>_. replicate 512 0), at = []\<rparr>"
    using boot_bio_inv(1,2) by simp_all
  show "disksize boot_log = 1000" using boot_bio_inv(3) by (simp add: boot_log_def bio_st.defs)
qed (simp_all add: boot_log_def bio_st.defs)

lemma boot_log_inv: "log_inv boot_log" "bview boot_log = (\<lambda>_. replicate 512 0)"
  "disk boot_log = (\<lambda>_. replicate 512 0)" "held boot_log = {}" "pinned boot_log = {}"
proof -
  show a: "bview boot_log = (\<lambda>_. replicate 512 0)" "disk boot_log = (\<lambda>_. replicate 512 0)" "held boot_log = {}" "pinned boot_log = {}"
    using cabsD [OF boot_log_facts(2)] by simp_all
  have "pinned boot_log = log_blocks boot_log 0" using a(4) by (simp add: log_blocks_def)
  moreover have "log_ok boot_log 0" by (simp add: log_ok_def boot_log_facts LOGSIZE_def MAXOPBLOCKS_def)
  ultimately show "log_inv boot_log" using boot_log_facts(1) unfolding log_inv_def by (intro conjI exI [of _ 0]) simp_all
qed

lemma not_in_region: "(100 :: u32) \<notin> {2 + of_nat j | j. j \<le> LOGSIZE}"
proof -
  have "unat (of_nat (2 + j) :: u32) < 100" if "j \<le> LOGSIZE" for j
    using that by (simp only: unat_of_nat) (simp add: LOGSIZE_def MAXOPBLOCKS_def)
  then have "unat (2 + of_nat j :: u32) \<noteq> unat (100 :: u32)" if "j \<le> LOGSIZE" for j
    using that by fastforce
  then show ?thesis by fastforce
qed

lemma boot_tx:
  "\<exists>s :: log_st. tx s 1 \<and> bview s = (\<lambda>_. replicate 512 0)(100 := replicate 512 7) \<and>
    disk s = (\<lambda>_. replicate 512 0) \<and> dtrace s = [] \<and> log_start s = 2"
proof -
  note B = boot_log_facts boot_log_inv
  have "100 < disksize boot_log" "100 \<notin> held boot_log" by (simp_all add: B)
  from bread_spec [OF B(1) this]
  obtain i t where t: "owns_buf t i 100" "cache_inv t" "bio_frame boot_log t" "cabs t = (cabs boot_log)\<lparr>ah := {100}\<rparr>"
    by (auto simp: B succeeds_iff)
  note T = cabsD [OF t(4)] and M = log_more [OF t(3)]
  have ti: "log_inv t" by (rule log_inv_frame [OF B(10) t(3,2)]) (simp add: T B)
  let ?d = "replicate 512 (7 :: u8)"
  let ?p = "set_data i ?d t"
  have p: "cabs ?p = (cabs t)\<lparr>av := (bview t)(100 := ?d)\<rparr>" "cache_inv ?p" "bio_frame t ?p" "owns_buf ?p i 100"
    using set_data_spec [OF t(2,1), of ?d] t(1) by (simp_all add: BSIZE_def)
  note P = cabsD [OF p(1)] and N = log_more [OF p(3)]
  have pi: "log_inv ?p" by (rule log_inv_frame [OF ti p(3,2)]) (simp add: P)
  have out: "100 \<notin> log_region ?p" unfolding log_region_def N M B(4) by (rule not_in_region)
  have lt: "lh_n ?p < int LOGSIZE \<and> lh_n ?p < log_size ?p - 1" "1 \<le> log_outstanding ?p"
    by (simp_all add: N M B LOGSIZE_def MAXOPBLOCKS_def)
  from log_write_spec [OF pi p(4) out lt(2)]
  obtain u where u: "log_inv u" "cabs u = (cabs ?p)\<lparr>ap := insert 100 (pinned ?p)\<rparr>" "tx_frame ?p u" "owns_buf u i 100"
    using p(4) lt(1) by (auto simp: succeeds_iff)
  note U = cabsD [OF u(2)]
  from brelse_spec [OF log_inv_cache [OF u(1)] u(4)] obtain v where
    v: "cabs v = (cabs u)\<lparr>ah := held u - {100}\<rparr>" "cache_inv v" "bio_frame u v"
    by (auto simp: succeeds_iff U)
  note W = cabsD [OF v(1)]
  have V: "held v = {}" "bview v = (\<lambda>_. replicate 512 0)(100 := ?d)" "disk v = (\<lambda>_. replicate 512 0)" "dtrace v = []"
    "log_start v = 2" "pinned v = {100}"
    using u(3) log_more [OF v(3)] by (simp_all add: tx_frame_def W U P T B N M)
  have "log_inv v" by (rule log_inv_frame [OF u(1) v(3,2)]) (simp add: W)
  then obtain n where n: "log_ok v n" "distinct (take n (lh_block v))" "pinned v = log_blocks v n" by (auto simp: log_inv_def)
  then have n': "tx v n" using v(2) V(1) by (simp add: tx_def)
  have "n = 1" using card_log_blocks [OF n'] unfolding n(3) [symmetric] V(6) by simp
  with n' have "tx v 1" by simp
  then show ?thesis using V by (intro exI [of _ v] conjI)
qed


end
