(* ===== verification/Xv6_Fs.thy ===== *)
theory Xv6_Fs
  imports Xv6_Log
begin

text \<open>
  The file system \<^verbatim>\<open>fs.c\<close>: disk blocks and their bitmap, inodes on disk and in the inode cache,
  file contents, directories and path names.

  An inode pointer is the index of an entry of the inode cache, \<open>None\<close> is the null pointer. Data
  that the code copies from or to a buffer of the caller is a list of bytes that the operation
  takes or returns. The table \<^verbatim>\<open>devsw\<close> is the argument \<open>dv\<close>: the functions of a device number, if it
  has any. Path names and directory names are lists of bytes without the NUL.
\<close>

section \<open>State\<close>

record inode =
  i_dev :: u32
  i_inum :: u32
  i_ref :: int
  i_valid :: bool
  i_type :: u16
  i_major :: u16
  i_minor :: u16
  i_nlink :: u16
  i_size :: u32
  i_addrs :: "u32 list"

record fs_st = log_st +
  sb :: superblock
  inodes :: "nat \<Rightarrow> inode"

definition T_DIR :: u16 where "T_DIR = 1"
definition T_FILE :: u16 where "T_FILE = 2"
definition T_DEV :: u16 where "T_DEV = 3"

definition IPB :: nat where "IPB = BSIZE div 64"
definition IBLOCK :: "u32 \<Rightarrow> superblock \<Rightarrow> u32" where
  "IBLOCK i su = i div of_nat IPB + sb_inodestart su"
definition BBLOCK :: "u32 \<Rightarrow> superblock \<Rightarrow> u32" where
  "BBLOCK b su = b div of_nat BPB + sb_bmapstart su"

definition set_inode :: "nat \<Rightarrow> (inode \<Rightarrow> inode) \<Rightarrow> 'a fs_st_scheme \<Rightarrow> 'a fs_st_scheme" where
  "set_inode ip f s = s\<lparr>inodes := (inodes s)(ip := f (inodes s ip))\<rparr>"

text \<open>The devices: \<open>dread\<close> gets the inode and the number of bytes, \<open>dwrite\<close> the inode and the bytes.\<close>

record 's devsw =
  dread :: "nat \<Rightarrow> (nat \<Rightarrow> u32 \<Rightarrow> 's \<Rightarrow> (int \<times> u8 list \<times> 's) res) option"
  dwrite :: "nat \<Rightarrow> (nat \<Rightarrow> u8 list \<Rightarrow> 's \<Rightarrow> (int \<times> 's) res) option"

section \<open>Blocks\<close>

definition bzero :: "u32 \<Rightarrow> u32 \<Rightarrow> 'a fs_st_scheme \<Rightarrow> 'a fs_st_scheme res" where
  "bzero dev bno s =
     bindr (bread dev bno s) (\<lambda>(bp, s).
     bindr (log_write bp (set_data bp (replicate BSIZE 0) s)) (\<lambda>s.
     brelse bp s))"

definition block_free :: "u8 list \<Rightarrow> nat \<Rightarrow> bool" where
  "block_free d bi \<longleftrightarrow> d ! (bi div 8) AND push_bit (bi mod 8) 1 = 0"

definition mark_used :: "u8 list \<Rightarrow> nat \<Rightarrow> u8 list" where
  "mark_used d bi = d[bi div 8 := d ! (bi div 8) OR push_bit (bi mod 8) 1]"

definition mark_free :: "u8 list \<Rightarrow> nat \<Rightarrow> u8 list" where
  "mark_free d bi = d[bi div 8 := d ! (bi div 8) AND NOT (push_bit (bi mod 8) 1)]"

text \<open>The loop of \<^verbatim>\<open>balloc\<close> over the first block numbers \<open>b\<close> of the bitmap blocks.\<close>

fun balloc_loop :: "u32 \<Rightarrow> nat list \<Rightarrow> 'a fs_st_scheme \<Rightarrow> (u32 \<times> 'a fs_st_scheme) res" where
  "balloc_loop dev [] s = Panic ''balloc: out of blocks''"
| "balloc_loop dev (b # bs) s =
     bindr (bread dev (BBLOCK (of_nat b) (sb s)) s) (\<lambda>(bp, s).
     let d = bdata (bufs s bp)
     in case find (block_free d) [0..<min BPB (unat (sb_size (sb s)) - b)] of
          Some bi \<Rightarrow>
            bindr (log_write bp (set_data bp (mark_used d bi) s)) (\<lambda>s.
            bindr (brelse bp s) (\<lambda>s.
            bindr (bzero dev (of_nat (b + bi)) s) (\<lambda>s.
            Ok (of_nat (b + bi), s))))
        | None \<Rightarrow> bindr (brelse bp s) (balloc_loop dev bs))"

definition balloc :: "u32 \<Rightarrow> 'a fs_st_scheme \<Rightarrow> (u32 \<times> 'a fs_st_scheme) res" where
  "balloc dev s = balloc_loop dev (map (\<lambda>k. k * BPB) [0..<(unat (sb_size (sb s)) + BPB - 1) div BPB]) s"

definition bfree :: "u32 \<Rightarrow> u32 \<Rightarrow> 'a fs_st_scheme \<Rightarrow> 'a fs_st_scheme res" where
  "bfree dev b s =
     bindr (bread dev (BBLOCK b (sb s)) s) (\<lambda>(bp, s).
     let bi = unat b mod BPB; d = bdata (bufs s bp)
     in if block_free d bi then Panic ''freeing free block''
        else bindr (log_write bp (set_data bp (mark_free d bi) s)) (brelse bp))"

section \<open>Inodes\<close>

text \<open>\<^verbatim>\<open>struct dinode\<close> at byte \<open>j\<close> of a block.\<close>

definition load_dinode :: "u8 list \<Rightarrow> nat \<Rightarrow> inode \<Rightarrow> inode" where
  "load_dinode d j ip = ip\<lparr>i_type := get16 d j, i_major := get16 d (j + 2), i_minor := get16 d (j + 4),
     i_nlink := get16 d (j + 6), i_size := get32 d (j + 8),
     i_addrs := map (\<lambda>i. get32 d (j + 12 + 4 * i)) [0..<NDIRECT + 1]\<rparr>"

definition store_dinode :: "inode \<Rightarrow> u8 list \<Rightarrow> nat \<Rightarrow> u8 list" where
  "store_dinode ip d j =
     (let d = put16 d j (i_type ip);
          d = put16 d (j + 2) (i_major ip);
          d = put16 d (j + 4) (i_minor ip);
          d = put16 d (j + 6) (i_nlink ip);
          d = put32 d (j + 8) (i_size ip)
      in fold (\<lambda>i d. put32 d (j + 12 + 4 * i) (i_addrs ip ! i)) [0..<NDIRECT + 1] d)"

definition dinode_off :: "u32 \<Rightarrow> nat" where
  "dinode_off inum = 64 * (unat inum mod IPB)"

definition iinit :: "u32 \<Rightarrow> 'a fs_st_scheme \<Rightarrow> 'a fs_st_scheme res" where
  "iinit dev s =
     (let s = initlock IcacheLock s;
          s = fold (\<lambda>i. initsleeplock (ChInodeLock i)) [0..<NINODE] s
      in bindr (readsb dev s) (\<lambda>(b, s). Ok (s\<lparr>sb := b\<rparr>)))"

definition iget :: "u32 \<Rightarrow> u32 \<Rightarrow> 'a fs_st_scheme \<Rightarrow> (nat \<times> 'a fs_st_scheme) res" where
  "iget dev inum s =
     bindr (acquire IcacheLock s) (\<lambda>s.
     case find (\<lambda>i. i_ref (inodes s i) > 0 \<and> i_dev (inodes s i) = dev \<and> i_inum (inodes s i) = inum) [0..<NINODE] of
       Some ip \<Rightarrow>
         bindr (release IcacheLock (set_inode ip (\<lambda>x. x\<lparr>i_ref := i_ref x + 1\<rparr>) s)) (\<lambda>s. Ok (ip, s))
     | None \<Rightarrow>
         (case find (\<lambda>i. i_ref (inodes s i) = 0) [0..<NINODE] of
            None \<Rightarrow> Panic ''iget: no inodes''
          | Some ip \<Rightarrow>
              bindr (release IcacheLock (set_inode ip (\<lambda>x. x\<lparr>i_dev := dev, i_inum := inum, i_ref := 1, i_valid := False\<rparr>) s))
                (\<lambda>s. Ok (ip, s))))"

fun ialloc_loop :: "u32 \<Rightarrow> u16 \<Rightarrow> nat list \<Rightarrow> 'a fs_st_scheme \<Rightarrow> (nat \<times> 'a fs_st_scheme) res" where
  "ialloc_loop dev type [] s = Panic ''ialloc: no inodes''"
| "ialloc_loop dev type (inum # is) s =
     bindr (bread dev (IBLOCK (of_nat inum) (sb s)) s) (\<lambda>(bp, s).
     let d = bdata (bufs s bp); j = dinode_off (of_nat inum)
     in if get16 d j = 0 then
          let d = take j d @ replicate 64 0 @ drop (j + 64) d;
              d = put16 d j type
          in bindr (log_write bp (set_data bp d s)) (\<lambda>s.
             bindr (brelse bp s) (iget dev (of_nat inum)))
        else bindr (brelse bp s) (ialloc_loop dev type is))"

definition ialloc :: "u32 \<Rightarrow> u16 \<Rightarrow> 'a fs_st_scheme \<Rightarrow> (nat \<times> 'a fs_st_scheme) res" where
  "ialloc dev type s = ialloc_loop dev type [1..<unat (sb_ninodes (sb s))] s"

definition iupdate :: "nat \<Rightarrow> 'a fs_st_scheme \<Rightarrow> 'a fs_st_scheme res" where
  "iupdate ip s =
     (let i = inodes s ip
      in bindr (bread (i_dev i) (IBLOCK (i_inum i) (sb s)) s) (\<lambda>(bp, s).
         bindr (log_write bp (set_data bp (store_dinode i (bdata (bufs s bp)) (dinode_off (i_inum i))) s)) (\<lambda>s.
         brelse bp s)))"

definition idup :: "nat \<Rightarrow> 'a fs_st_scheme \<Rightarrow> (nat \<times> 'a fs_st_scheme) res" where
  "idup ip s =
     bindr (acquire IcacheLock s) (\<lambda>s.
     bindr (release IcacheLock (set_inode ip (\<lambda>x. x\<lparr>i_ref := i_ref x + 1\<rparr>) s)) (\<lambda>s. Ok (ip, s)))"

definition ilock :: "nat option \<Rightarrow> 'a fs_st_scheme \<Rightarrow> 'a fs_st_scheme res" where
  "ilock ip' s =
     (case ip' of None \<Rightarrow> Panic ''ilock'' | Some ip \<Rightarrow>
      if i_ref (inodes s ip) < 1 then Panic ''ilock''
      else bindr (acquiresleep (ChInodeLock ip) s) (\<lambda>s.
        if \<not> i_valid (inodes s ip) then
          let i = inodes s ip
          in bindr (bread (i_dev i) (IBLOCK (i_inum i) (sb s)) s) (\<lambda>(bp, s).
             let s = set_inode ip (load_dinode (bdata (bufs s bp)) (dinode_off (i_inum i))) s
             in bindr (brelse bp s) (\<lambda>s.
                let s = set_inode ip (\<lambda>x. x\<lparr>i_valid := True\<rparr>) s
                in if i_type (inodes s ip) = 0 then Panic ''ilock: no type'' else Ok s))
        else Ok s))"

definition iunlock :: "nat option \<Rightarrow> 'a fs_st_scheme \<Rightarrow> 'a fs_st_scheme res" where
  "iunlock ip' s =
     (case ip' of None \<Rightarrow> Panic ''iunlock'' | Some ip \<Rightarrow>
      bindr (holdingsleep (ChInodeLock ip) s) (\<lambda>(h, s).
      if \<not> h \<or> i_ref (inodes s ip) < 1 then Panic ''iunlock''
      else releasesleep (ChInodeLock ip) s))"

text \<open>The loops of \<^verbatim>\<open>itrunc\<close>, over the direct blocks and over the entries of the indirect block.\<close>

definition trunc_direct :: "nat \<Rightarrow> nat \<Rightarrow> 'a fs_st_scheme \<Rightarrow> 'a fs_st_scheme res" where
  "trunc_direct ip i s =
     (let x = inodes s ip
      in if i_addrs x ! i \<noteq> 0
         then bindr (bfree (i_dev x) (i_addrs x ! i) s) (\<lambda>s.
              Ok (set_inode ip (\<lambda>x. x\<lparr>i_addrs := (i_addrs x)[i := 0]\<rparr>) s))
         else Ok s)"

definition trunc_indirect :: "u32 \<Rightarrow> nat \<Rightarrow> nat \<Rightarrow> 'a fs_st_scheme \<Rightarrow> 'a fs_st_scheme res" where
  "trunc_indirect dev bp j s =
     (let a = get32 (bdata (bufs s bp)) (4 * j)
      in if a \<noteq> 0 then bfree dev a s else Ok s)"

definition itrunc :: "nat \<Rightarrow> 'a fs_st_scheme \<Rightarrow> 'a fs_st_scheme res" where
  "itrunc ip s =
     bindr (for_each (trunc_direct ip) [0..<NDIRECT] s) (\<lambda>s.
     bindr (let x = inodes s ip
            in if i_addrs x ! NDIRECT \<noteq> 0 then
                 bindr (bread (i_dev x) (i_addrs x ! NDIRECT) s) (\<lambda>(bp, s).
                 bindr (for_each (trunc_indirect (i_dev x) bp) [0..<NINDIRECT] s) (\<lambda>s.
                 bindr (brelse bp s) (\<lambda>s.
                 bindr (bfree (i_dev x) (i_addrs x ! NDIRECT) s) (\<lambda>s.
                 Ok (set_inode ip (\<lambda>x. x\<lparr>i_addrs := (i_addrs x)[NDIRECT := 0]\<rparr>) s)))))
               else Ok s) (\<lambda>s.
     iupdate ip (set_inode ip (\<lambda>x. x\<lparr>i_size := 0\<rparr>) s)))"

definition iput :: "nat \<Rightarrow> 'a fs_st_scheme \<Rightarrow> 'a fs_st_scheme res" where
  "iput ip s =
     bindr (acquiresleep (ChInodeLock ip) s) (\<lambda>s.
     bindr (if i_valid (inodes s ip) \<and> i_nlink (inodes s ip) = 0 then
              bindr (acquire IcacheLock s) (\<lambda>s.
              let r = i_ref (inodes s ip)
              in bindr (release IcacheLock s) (\<lambda>s.
                 if r = 1 then
                   bindr (itrunc ip s) (\<lambda>s.
                   bindr (iupdate ip (set_inode ip (\<lambda>x. x\<lparr>i_type := 0\<rparr>) s)) (\<lambda>s.
                   Ok (set_inode ip (\<lambda>x. x\<lparr>i_valid := False\<rparr>) s)))
                 else Ok s))
            else Ok s) (\<lambda>s.
     bindr (releasesleep (ChInodeLock ip) s) (\<lambda>s.
     bindr (acquire IcacheLock s) (\<lambda>s.
     release IcacheLock (set_inode ip (\<lambda>x. x\<lparr>i_ref := i_ref x - 1\<rparr>) s)))))"

definition iunlockput :: "nat \<Rightarrow> 'a fs_st_scheme \<Rightarrow> 'a fs_st_scheme res" where
  "iunlockput ip s = bindr (iunlock (Some ip) s) (iput ip)"

section \<open>Inode content\<close>

definition bmap :: "nat \<Rightarrow> nat \<Rightarrow> 'a fs_st_scheme \<Rightarrow> (u32 \<times> 'a fs_st_scheme) res" where
  "bmap ip bn s =
     (let x = inodes s ip
      in if bn < NDIRECT then
           if i_addrs x ! bn = 0 then
             bindr (balloc (i_dev x) s) (\<lambda>(addr, s).
             Ok (addr, set_inode ip (\<lambda>x. x\<lparr>i_addrs := (i_addrs x)[bn := addr]\<rparr>) s))
           else Ok (i_addrs x ! bn, s)
         else let bn = bn - NDIRECT
         in if bn < NINDIRECT then
              bindr (if i_addrs x ! NDIRECT = 0 then
                       bindr (balloc (i_dev x) s) (\<lambda>(addr, s).
                       Ok (addr, set_inode ip (\<lambda>x. x\<lparr>i_addrs := (i_addrs x)[NDIRECT := addr]\<rparr>) s))
                     else Ok (i_addrs x ! NDIRECT, s)) (\<lambda>(addr, s).
              bindr (bread (i_dev x) addr s) (\<lambda>(bp, s).
              let addr = get32 (bdata (bufs s bp)) (4 * bn)
              in bindr (if addr = 0 then
                          bindr (balloc (i_dev x) s) (\<lambda>(addr, s).
                          bindr (log_write bp (set_data bp (put32 (bdata (bufs s bp)) (4 * bn) addr) s)) (\<lambda>s.
                          Ok (addr, s)))
                        else Ok (addr, s)) (\<lambda>(addr, s).
                 bindr (brelse bp s) (\<lambda>s. Ok (addr, s)))))
            else Panic ''bmap: out of range'')"

record stat =
  st_type :: u16
  st_dev :: u32
  st_ino :: u32
  st_nlink :: u16
  st_size :: u32

definition stati :: "nat \<Rightarrow> 'a fs_st_scheme \<Rightarrow> stat" where
  "stati ip s = (let i = inodes s ip in \<lparr>st_type = i_type i, st_dev = i_dev i, st_ino = i_inum i,
     st_nlink = i_nlink i, st_size = i_size i\<rparr>)"

lemma chunk_less: "0 < n \<Longrightarrow> n - min n (BSIZE - off mod BSIZE) < n"
proof -
  assume "0 < n"
  moreover have "off mod BSIZE < BSIZE" by (simp add: BSIZE_def)
  ultimately show ?thesis by linarith
qed

text \<open>The loops of \<^verbatim>\<open>readi\<close> and \<^verbatim>\<open>writei\<close>: \<open>n\<close> bytes are left to copy from offset \<open>off\<close>.\<close>

function readi_loop :: "nat \<Rightarrow> nat \<Rightarrow> nat \<Rightarrow> 'a fs_st_scheme \<Rightarrow> (u8 list \<times> 'a fs_st_scheme) res" where
  "readi_loop ip off n s =
     (if n = 0 then Ok ([], s)
      else bindr (bmap ip (off div BSIZE) s) (\<lambda>(a, s).
           bindr (bread (i_dev (inodes s ip)) a s) (\<lambda>(bp, s).
           let m = min n (BSIZE - off mod BSIZE);
               d = take m (drop (off mod BSIZE) (bdata (bufs s bp)))
           in bindr (brelse bp s) (\<lambda>s.
              bindr (readi_loop ip (off + m) (n - m) s) (\<lambda>(ds, s). Ok (d @ ds, s))))))"
  by pat_completeness auto
termination by (relation "measure (\<lambda>(ip, off, n, s). n)") (simp_all add: chunk_less)

declare readi_loop.simps [simp del]

definition readi :: "('a fs_st_scheme) devsw \<Rightarrow> nat \<Rightarrow> u32 \<Rightarrow> u32 \<Rightarrow> 'a fs_st_scheme \<Rightarrow> (int \<times> u8 list \<times> 'a fs_st_scheme) res" where
  "readi dv ip off n s =
     (let i = inodes s ip; major = sint (i_major i)
      in if i_type i = T_DEV then
           if major < 0 \<or> major \<ge> int NDEV \<or> dread dv (nat major) = None then Ok (-1, [], s)
           else the (dread dv (nat major)) ip n s
         else if off > i_size i \<or> off + n < off then Ok (-1, [], s)
         else let n = (if off + n > i_size i then i_size i - off else n)
              in bindr (readi_loop ip (unat off) (unat n) s) (\<lambda>(d, s). Ok (uint n, d, s)))"

function writei_loop :: "nat \<Rightarrow> nat \<Rightarrow> u8 list \<Rightarrow> 'a fs_st_scheme \<Rightarrow> 'a fs_st_scheme res" where
  "writei_loop ip off src s =
     (if src = [] then Ok s
      else bindr (bmap ip (off div BSIZE) s) (\<lambda>(a, s).
           bindr (bread (i_dev (inodes s ip)) a s) (\<lambda>(bp, s).
           let m = min (length src) (BSIZE - off mod BSIZE);
               d = bdata (bufs s bp);
               d = take (off mod BSIZE) d @ take m src @ drop (off mod BSIZE + m) d
           in bindr (log_write bp (set_data bp d s)) (\<lambda>s.
              bindr (brelse bp s) (\<lambda>s.
              writei_loop ip (off + m) (drop m src) s)))))"
  by pat_completeness auto
termination by (relation "measure (\<lambda>(ip, off, src, s). length src)") (simp_all add: chunk_less)

declare writei_loop.simps [simp del]

definition writei :: "('a fs_st_scheme) devsw \<Rightarrow> nat \<Rightarrow> u8 list \<Rightarrow> u32 \<Rightarrow> 'a fs_st_scheme \<Rightarrow> (int \<times> 'a fs_st_scheme) res" where
  "writei dv ip src off s =
     (let i = inodes s ip; major = sint (i_major i); n = (of_nat (length src) :: u32)
      in if i_type i = T_DEV then
           if major < 0 \<or> major \<ge> int NDEV \<or> dwrite dv (nat major) = None then Ok (-1, s)
           else the (dwrite dv (nat major)) ip src s
         else if off > i_size i \<or> off + n < off then Ok (-1, s)
         else if off + n > of_nat (MAXFILE * BSIZE) then Ok (-1, s)
         else bindr (writei_loop ip (unat off) src s) (\<lambda>s.
              bindr (if n > 0 \<and> off + n > i_size (inodes s ip)
                     then iupdate ip (set_inode ip (\<lambda>x. x\<lparr>i_size := off + n\<rparr>) s)
                     else Ok s) (\<lambda>s.
              Ok (uint n, s))))"

section \<open>Directories\<close>

text \<open>
  \<^verbatim>\<open>namecmp\<close> is \<^verbatim>\<open>strncmp\<close> on at most \<open>n\<close> characters; a name that is shorter than the buffer it is in
  ends with NUL.
\<close>

fun name_ncmp :: "nat \<Rightarrow> u8 list \<Rightarrow> u8 list \<Rightarrow> int" where
  "name_ncmp 0 p q = 0"
| "name_ncmp (Suc n) p q =
     (let a = (case p of [] \<Rightarrow> 0 | x # _ \<Rightarrow> x); b = (case q of [] \<Rightarrow> 0 | x # _ \<Rightarrow> x)
      in if a \<noteq> 0 \<and> a = b then name_ncmp n (tl p) (tl q) else uint a - uint b)"

definition namecmp :: "u8 list \<Rightarrow> u8 list \<Rightarrow> int" where
  "namecmp s t = name_ncmp DIRSIZ s t"

definition dirent_inum :: "u8 list \<Rightarrow> u16" where "dirent_inum de = get16 de 0"
definition dirent_name :: "u8 list \<Rightarrow> u8 list" where "dirent_name de = take DIRSIZ (drop 2 de)"

definition mk_dirent :: "u8 list \<Rightarrow> u32 \<Rightarrow> u8 list" where
  "mk_dirent name inum = le16 (ucast inum) @ take DIRSIZ (name @ replicate DIRSIZ 0)"

text \<open>The loop of \<^verbatim>\<open>dirlookup\<close> over the offsets of the entries: the number and offset of the entry found.\<close>

fun dirlookup_loop :: "('a fs_st_scheme) devsw \<Rightarrow> nat \<Rightarrow> u8 list \<Rightarrow> nat list \<Rightarrow> 'a fs_st_scheme \<Rightarrow> ((u32 \<times> u32) option \<times> 'a fs_st_scheme) res" where
  "dirlookup_loop dv dp name [] s = Ok (None, s)"
| "dirlookup_loop dv dp name (off # offs) s =
     bindr (readi dv dp (of_nat off) 16 s) (\<lambda>(r, de, s).
     if r \<noteq> 16 then Panic ''dirlookup read''
     else if dirent_inum de = 0 then dirlookup_loop dv dp name offs s
     else if namecmp name (dirent_name de) = 0 then Ok (Some (ucast (dirent_inum de), of_nat off), s)
     else dirlookup_loop dv dp name offs s)"

definition dir_offs :: "u32 \<Rightarrow> nat list" where
  "dir_offs sz = map (\<lambda>k. 16 * k) [0..<(unat sz + 15) div 16]"

definition dirlookup :: "('a fs_st_scheme) devsw \<Rightarrow> nat \<Rightarrow> u8 list \<Rightarrow> 'a fs_st_scheme \<Rightarrow> ((nat \<times> u32) option \<times> 'a fs_st_scheme) res" where
  "dirlookup dv dp name s =
     (if i_type (inodes s dp) \<noteq> T_DIR then Panic ''dirlookup not DIR''
      else bindr (dirlookup_loop dv dp name (dir_offs (i_size (inodes s dp))) s) (\<lambda>(r, s).
           case r of None \<Rightarrow> Ok (None, s)
           | Some (inum, off) \<Rightarrow>
               bindr (iget (i_dev (inodes s dp)) inum s) (\<lambda>(ip, s). Ok (Some (ip, off), s))))"

text \<open>The search of \<^verbatim>\<open>dirlink\<close> for an empty entry; when there is none, the end of the directory.\<close>

fun dirlink_loop :: "('a fs_st_scheme) devsw \<Rightarrow> nat \<Rightarrow> nat list \<Rightarrow> 'a fs_st_scheme \<Rightarrow> (nat option \<times> 'a fs_st_scheme) res" where
  "dirlink_loop dv dp [] s = Ok (None, s)"
| "dirlink_loop dv dp (off # offs) s =
     bindr (readi dv dp (of_nat off) 16 s) (\<lambda>(r, de, s).
     if r \<noteq> 16 then Panic ''dirlink read''
     else if dirent_inum de = 0 then Ok (Some off, s)
     else dirlink_loop dv dp offs s)"

definition dirlink :: "('a fs_st_scheme) devsw \<Rightarrow> nat \<Rightarrow> u8 list \<Rightarrow> u32 \<Rightarrow> 'a fs_st_scheme \<Rightarrow> (int \<times> 'a fs_st_scheme) res" where
  "dirlink dv dp name inum s =
     bindr (dirlookup dv dp name s) (\<lambda>(r, s).
     case r of Some (ip, _) \<Rightarrow> bindr (iput ip s) (\<lambda>s. Ok (-1, s))
     | None \<Rightarrow>
         let offs = dir_offs (i_size (inodes s dp))
         in bindr (dirlink_loop dv dp offs s) (\<lambda>(free, s).
            let off = (case free of Some off \<Rightarrow> off | None \<Rightarrow> 16 * length offs)
            in bindr (writei dv dp (mk_dirent name inum) (of_nat off) s) (\<lambda>(r, s).
               if r \<noteq> 16 then Panic ''dirlink'' else Ok (0, s))))"

section \<open>Paths\<close>

abbreviation (input) slash :: u8 where "slash \<equiv> 0x2F"

text \<open>\<^verbatim>\<open>skipelem\<close> returns the element, cut at \<open>DIRSIZ\<close> characters, and the rest of the path.\<close>

definition skipelem :: "u8 list \<Rightarrow> (u8 list \<times> u8 list) option" where
  "skipelem path =
     (let path = dropWhile (\<lambda>c. c = slash) path
      in if path = [] then None
         else let s = takeWhile (\<lambda>c. c \<noteq> slash) path;
                  rest = dropWhile (\<lambda>c. c \<noteq> slash) path
              in Some (take DIRSIZ s, dropWhile (\<lambda>c. c = slash) rest))"

lemma dropWhile_shorter: "xs \<noteq> [] \<Longrightarrow> P (hd xs) \<Longrightarrow> length (dropWhile P xs) < length xs"
  by (cases xs) (simp_all add: le_imp_less_Suc length_dropWhile_le)

lemma skip_shorter:
  assumes "dropWhile P path \<noteq> []"
  shows "length (dropWhile P (dropWhile (\<lambda>c. \<not> P c) (dropWhile P path))) < length path"
proof -
  let ?p = "dropWhile P path"
  have "length (dropWhile (\<lambda>c. \<not> P c) ?p) < length ?p"
    using dropWhile_shorter [OF assms, of "\<lambda>c. \<not> P c"] hd_dropWhile [OF assms] by simp
  moreover have "length (dropWhile P (dropWhile (\<lambda>c. \<not> P c) ?p)) \<le> length (dropWhile (\<lambda>c. \<not> P c) ?p)"
    by (rule length_dropWhile_le)
  moreover have "length ?p \<le> length path" by (rule length_dropWhile_le)
  ultimately show ?thesis by linarith
qed

lemma skipelem_shorter:
  assumes "skipelem path = Some (name, rest)"
  shows "length rest < length path"
proof (cases "dropWhile (\<lambda>c. c = slash) path = []")
  case True
  then have "skipelem path = None" by (simp only: skipelem_def Let_def if_True refl)
  then show ?thesis using assms by simp
next
  case False
  then have "rest = dropWhile (\<lambda>c. c = slash) (dropWhile (\<lambda>c. c \<noteq> slash) (dropWhile (\<lambda>c. c = slash) path))"
    using assms by (simp only: skipelem_def Let_def if_False option.inject prod.inject)
  then show ?thesis using skip_shorter [OF False] by (simp only:)
qed

lemma skipelem_len: "skipelem path = Some r \<Longrightarrow> (name, rest) = r \<Longrightarrow> length rest < length path"
  using skipelem_shorter by blast

function namex_loop :: "('a fs_st_scheme) devsw \<Rightarrow> bool \<Rightarrow> u8 list \<Rightarrow> nat \<Rightarrow> u8 list \<Rightarrow> 'a fs_st_scheme \<Rightarrow> ((nat \<times> u8 list) option \<times> 'a fs_st_scheme) res" where
  "namex_loop dv par path ip name s =
     (case skipelem path of
        None \<Rightarrow> if par then bindr (iput ip s) (\<lambda>s. Ok (None, s)) else Ok (Some (ip, name), s)
      | Some (name, path) \<Rightarrow>
          bindr (ilock (Some ip) s) (\<lambda>s.
          if i_type (inodes s ip) \<noteq> T_DIR then bindr (iunlockput ip s) (\<lambda>s. Ok (None, s))
          else if par \<and> path = [] then bindr (iunlock (Some ip) s) (\<lambda>s. Ok (Some (ip, name), s))
          else bindr (dirlookup dv ip name s) (\<lambda>(r, s).
               case r of None \<Rightarrow> bindr (iunlockput ip s) (\<lambda>s. Ok (None, s))
               | Some (next, _) \<Rightarrow>
                   bindr (iunlockput ip s) (namex_loop dv par path next name))))"
  by pat_completeness auto
termination
  by (relation "measure (\<lambda>(dv, par, path, ip, name, s). length path)", simp, simp, erule (1) skipelem_len)

declare namex_loop.simps [simp del]

definition namex :: "('a fs_st_scheme) devsw \<Rightarrow> u8 list \<Rightarrow> bool \<Rightarrow> 'a fs_st_scheme \<Rightarrow> ((nat \<times> u8 list) option \<times> 'a fs_st_scheme) res" where
  "namex dv path par s =
     bindr (if path \<noteq> [] \<and> hd path = slash then iget ROOTDEV ROOTINO s
            else bindr (myproc s) (\<lambda>(p, s). idup (the (cwd (procs s ! the p))) s)) (\<lambda>(ip, s).
     namex_loop dv par path ip [] s)"

definition namei :: "('a fs_st_scheme) devsw \<Rightarrow> u8 list \<Rightarrow> 'a fs_st_scheme \<Rightarrow> (nat option \<times> 'a fs_st_scheme) res" where
  "namei dv path s = bindr (namex dv path False s) (\<lambda>(r, s). Ok (map_option fst r, s))"

definition nameiparent :: "('a fs_st_scheme) devsw \<Rightarrow> u8 list \<Rightarrow> 'a fs_st_scheme \<Rightarrow> ((nat \<times> u8 list) option \<times> 'a fs_st_scheme) res" where
  "nameiparent dv path s = namex dv path True s"

section \<open>The block allocator\<close>

lemma bit_mask8 [simp]: "bit (2 ^ (i mod 8) :: u8) j \<longleftrightarrow> j = i mod 8"
  by (auto simp: bit_exp_iff)

lemma block_free_iff: "block_free d i \<longleftrightarrow> \<not> bit (d ! (i div 8)) (i mod 8)"
proof -
  let ?w = "d ! (i div 8) AND push_bit (i mod 8) 1"
  have w: "bit ?w j \<longleftrightarrow> j = i mod 8 \<and> bit (d ! (i div 8)) j" for j
    by (auto simp: bit_and_iff)
  have "?w = 0" if "\<not> bit (d ! (i div 8)) (i mod 8)"
    by (rule bit_word_eqI) (use that w in auto)
  moreover have "\<not> bit (d ! (i div 8)) (i mod 8)" if "?w = 0" using w [of "i mod 8"] that by simp
  ultimately show ?thesis unfolding block_free_def by blast
qed

lemma div_mod_eq8: "(i :: nat) = j \<longleftrightarrow> i div 8 = j div 8 \<and> i mod 8 = j mod 8"
  by (metis div_mult_mod_eq)

lemma mark_used_iff: "i div 8 < length d \<Longrightarrow> block_free (mark_used d i) j \<longleftrightarrow> j \<noteq> i \<and> block_free d j"
  using div_mod_eq8 [of i j]
  by (auto simp: block_free_iff mark_used_def nth_list_update bit_or_iff)

lemma mark_free_iff: "i div 8 < length d \<Longrightarrow> block_free (mark_free d i) j \<longleftrightarrow> j = i \<or> block_free d j"
  using div_mod_eq8 [of i j]
  by (auto simp: block_free_iff mark_free_def nth_list_update bit_and_iff bit_not_iff)

lemma mark_length [simp]: "length (mark_used d i) = length d" "length (mark_free d i) = length d"
  by (simp_all add: mark_used_def mark_free_def)

lemma fs_step_more:
  fixes s t :: "'a fs_st_scheme"
  assumes "fs_step s t V H"
  shows "sb t = sb s" "inodes t = inodes s"
  using assms by (cases s; cases t; simp add: fs_step_def tx_frame_def)+

text \<open>
  \<open>bit_free\<close>: the bitmap says that block \<open>n\<close> is free. \<open>bitmap_ok\<close>: the bitmap blocks can be
  written by the transaction, and so can every free block, which is no bitmap block.
\<close>

definition bit_free :: "'a fs_st_scheme \<Rightarrow> u32 \<Rightarrow> bool" where
  "bit_free s n \<longleftrightarrow> block_free (bview s (BBLOCK n (sb s))) (unat n mod BPB)"

definition bitmap_ok :: "'a fs_st_scheme \<Rightarrow> bool" where
  "bitmap_ok s \<longleftrightarrow> log_inv s \<and>
     (\<forall>n < sb_size (sb s). in_tx s (BBLOCK n (sb s)) \<and> BBLOCK n (sb s) \<notin> held s \<and>
       (bit_free s n \<longrightarrow> in_tx s n \<and> n \<notin> held s \<and> (\<forall>m < sb_size (sb s). BBLOCK m (sb s) \<noteq> n)))"

lemma bzero_step:
  assumes "log_inv s" "in_tx s n" "n \<notin> held s"
  shows "outcome {''bget: no buffers'', ''too big a transaction''} (bzero 1 n s)
    (\<lambda>u. fs_step s u ((bview s)(n := replicate BSIZE 0)) (held s))"
  using logged.modify_block [OF assms, of "\<lambda>_. replicate BSIZE 0"] by (simp add: bzero_def cong: bindr_cong)

lemma BBLOCK_of_nat: "n < 2 ^ 32 \<Longrightarrow> BBLOCK (of_nat n) x = of_nat (n div BPB) + sb_bmapstart x"
proof -
  assume n: "n < 2 ^ 32"
  have "n div BPB \<le> n" by (rule div_le_dividend)
  then have "unat ((of_nat n :: u32) div of_nat BPB) = unat (of_nat (n div BPB) :: u32)"
    using n by (simp add: unat_div_distrib unat_of_nat BPB_def BSIZE_def)
  then have "(of_nat n :: u32) div of_nat BPB = of_nat (n div BPB)" by (rule unsigned_word_eqI)
  then show ?thesis by (simp add: BBLOCK_def)
qed

lemma BBLOCK_eq: "bi < BPB \<Longrightarrow> k * BPB + bi < 2 ^ 32 \<Longrightarrow> BBLOCK (of_nat (k * BPB + bi)) x = BBLOCK (of_nat (k * BPB)) x"
  using BBLOCK_of_nat [of "k * BPB + bi"] BBLOCK_of_nat [of "k * BPB"] by (simp add: BPB_def BSIZE_def)

lemma unat_eqI: "unat (a :: 'a :: len word) = unat b \<Longrightarrow> a = b"
  by (rule unsigned_word_eqI)

lemma find_upt: "find P [0..<m] = Some i \<Longrightarrow> i < m \<and> P i \<and> (\<forall>j<i. \<not> P j)"
  by (auto simp: find_Some_iff)

definition allocated :: "'a fs_st_scheme \<Rightarrow> u32 \<times> 'a fs_st_scheme \<Rightarrow> bool" where
  "allocated s = (\<lambda>(b, t). b < sb_size (sb s) \<and> bit_free s b \<and> (\<forall>n<b. \<not> bit_free s n) \<and>
     fs_step s t ((bview s)(BBLOCK b (sb s) := mark_used (bview s (BBLOCK b (sb s))) (unat b mod BPB),
       b := replicate BSIZE 0)) (held s))"

lemma balloc_take:
  fixes s0 s t :: "'a fs_st_scheme" and k bi :: nat
  defines "n \<equiv> of_nat (k * BPB + bi) :: u32" and "B \<equiv> BBLOCK (of_nat (k * BPB)) (sb s0)"
  assumes ok: "bitmap_ok s0" and n: "bi < BPB" "k * BPB + bi < unat (sb_size (sb s0))" "bit_free s0 n" "\<forall>m<n. \<not> bit_free s0 m"
    and t: "fs_step s0 t (bview s0) (insert B (held s0))" "owns_buf t i B"
  shows "outcome {''bget: no buffers'', ''too big a transaction''}
    (bindr (log_write i (set_data i (mark_used (bview s0 B) bi) t)) (\<lambda>s.
     bindr (brelse i s) (\<lambda>s. bindr (bzero 1 n s) (\<lambda>s. Ok (n, s))))) (allocated s0)"
proof -
  have lt: "k * BPB + bi < 2 ^ 32" using n(2) unsigned_less [of "sb_size (sb s0)", where 'a = nat] by simp
  have un: "unat n = k * BPB + bi" using lt by (simp only: n_def unat_of_nat) simp
  have nz: "n < sb_size (sb s0)" using un n(2) by (simp add: word_less_nat_alt)
  have B: "BBLOCK n (sb s0) = B" unfolding n_def B_def by (rule BBLOCK_eq [OF n(1) lt])
  have o: "log_inv s0" "in_tx s0 B" "B \<notin> held s0" "in_tx s0 n" "n \<notin> held s0" "n \<noteq> B"
    using ok [unfolded bitmap_ok_def, THEN conjunct2, rule_format, OF nz] ok nz n(3) B unfolding bitmap_ok_def by blast+
  note T = logged.step_to [OF t(1)] and X = logged.step_valid [OF t(1)]
  let ?d = "mark_used (bview s0 B) bi"
  have len: "length ?d = BSIZE" using logged.length_law [OF o(1)] by simp
  have w: "outcome {''too big a transaction''} (bindr (log_write i (set_data i ?d t)) (brelse i))
      (\<lambda>u. fs_step t u ((bview t)(B := ?d)) (held t - {B}))"
    by (rule logged.write_rel) (use T X t(2) len o(2) in \<open>auto simp: fun_eq_iff\<close>)
  have "outcome {''bget: no buffers'', ''too big a transaction''}
    (bindr (bindr (log_write i (set_data i ?d t)) (brelse i)) (\<lambda>s. bindr (bzero 1 n s) (\<lambda>s. Ok (n, s)))) (allocated s0)"
  proof (subst outcome_bindr, rule outcome_mono [OF w], blast)
    fix u
    assume "fs_step t u ((bview t)(B := ?d)) (held t - {B})"
    then have "fs_step t u ((bview s0)(B := ?d)) (held s0)" using T o(3) by simp
    then have u: "fs_step s0 u ((bview s0)(B := ?d)) (held s0)" by (rule logged.step_trans [OF o(1) t(1)]) auto
    note U = logged.step_to [OF u] and Y = logged.step_valid [OF u]
    have z: "outcome {''bget: no buffers'', ''too big a transaction''} (bzero 1 n u)
        (\<lambda>v. fs_step u v ((bview u)(n := replicate BSIZE 0)) (held u))"
      by (rule bzero_step) (use U Y o in \<open>auto simp: fun_eq_iff\<close>)
    show "outcome {''bget: no buffers'', ''too big a transaction''} (bindr (bzero 1 n u) (\<lambda>s. Ok (n, s))) (allocated s0)"
    proof (subst outcome_bindr, rule outcome_post [OF z])
      fix v
      assume "fs_step u v ((bview u)(n := replicate BSIZE 0)) (held u)"
      then have "fs_step u v ((bview s0)(B := ?d, n := replicate BSIZE 0)) (held s0)" using U by simp
      then have "fs_step s0 v ((bview s0)(B := ?d, n := replicate BSIZE 0)) (held s0)"
        by (rule logged.step_trans [OF o(1) u]) auto
      moreover have "unat n mod BPB = bi" using un n(1) by simp
      ultimately show "outcome {''bget: no buffers'', ''too big a transaction''} (Ok (n, v)) (allocated s0)"
        using n nz B by (simp add: allocated_def)
    qed
  qed
  then show ?thesis by (simp only: bindr_assoc)
qed

lemma balloc_loop_spec:
  fixes s0 :: "'a fs_st_scheme"
  defines "Z \<equiv> unat (sb_size (sb s0))"
  assumes ok: "bitmap_ok s0"
  shows "fs_step s0 s (bview s0) (held s0) \<Longrightarrow> (\<forall>n. unat n < k * BPB \<longrightarrow> n < sb_size (sb s0) \<longrightarrow> \<not> bit_free s0 n) \<Longrightarrow>
    outcome ({''bget: no buffers'', ''too big a transaction''} \<union> (if \<exists>n < sb_size (sb s0). bit_free s0 n then {} else {''balloc: out of blocks''}))
      (balloc_loop 1 (map (\<lambda>k. k * BPB) [k..<(Z + BPB - 1) div BPB]) s) (allocated s0)"
    (is "_ \<Longrightarrow> _ \<Longrightarrow> outcome ?E _ _")
proof (induction "(Z + BPB - 1) div BPB - k" arbitrary: k s)
  case 0
  have "Z \<le> k * BPB" using 0(1) by (simp add: BPB_def BSIZE_def)
  then have "\<not> (\<exists>n < sb_size (sb s0). bit_free s0 n)"
    using 0(3) by (auto simp: Z_def word_less_nat_alt)
  then show ?case using 0(1) by simp
next
  case (Suc m)
  let ?N = "(Z + BPB - 1) div BPB" and ?b = "k * BPB" and ?B = "BBLOCK (of_nat (k * BPB)) (sb s0)"
  have kN: "k < ?N" and bZ: "?b < Z" using Suc(2) by (simp_all add: BPB_def BSIZE_def)
  have lt: "Z < 2 ^ 32" using unsigned_less [of "sb_size (sb s0)", where 'a = nat] by (simp add: Z_def)
  have ub: "unat (of_nat j :: u32) = j" if "j < Z" for j using that lt by (simp add: unat_of_nat)
  have lessZ: "(of_nat j :: u32) < sb_size (sb s0)" if "j < Z" for j using ub [OF that] that by (simp add: word_less_nat_alt Z_def)
  note S = logged.step_to [OF Suc(3)] and X = logged.step_valid [OF Suc(3)] and M = fs_step_more [OF Suc(3)]
  have o: "log_inv s0" "in_tx s0 ?B" "?B \<notin> held s0" using ok lessZ [OF bZ] unfolding bitmap_ok_def by auto
  have v: "?B < disksize s" "?B \<notin> held s" using S X o logged.writable_valid [OF o(2)] by (auto simp: fun_eq_iff)
  have l: "[k..<?N] = k # [Suc k..<?N]" using kN by (simp add: upt_conv_Cons)
  have fr: "bit_free s0 (of_nat (?b + j)) \<longleftrightarrow> block_free (bview s0 ?B) j" if "j < BPB" "?b + j < Z" for j
    using that lt BBLOCK_eq [of j k "sb s0"] ub [of "?b + j"] by (simp add: bit_free_def)
  show ?case unfolding l list.map balloc_loop.simps M
  proof (subst outcome_bindr, rule outcome_mono [OF logged.get_law [OF _ v]])
    show "log_inv s" using S by blast
    show "{''bget: no buffers''} \<subseteq> ?E" by blast
    fix x
    assume "case x of (i, t) \<Rightarrow> fs_step s t (bview s) (insert ?B (held s)) \<and> owns_buf t i ?B \<and> clean t ?B"
    then obtain i t where x: "x = (i, t)" and t1: "fs_step s t (bview s) (insert ?B (held s))" and t: "owns_buf t i ?B" "clean t ?B"
      by (cases x) auto
    have t0: "fs_step s0 t (bview s0) (insert ?B (held s0))"
      by (rule logged.step_trans [OF o(1) Suc(3)]) (use t1 S in auto)
    note T = logged.step_to [OF t0]
    have d: "bdata (bufs t i) = bview s0 ?B" using logged.data_law [OF _ t(1)] T by simp
    have ts: "sb t = sb s0" using fs_step_more [OF t0] by simp
    show "outcome ?E (case x of (bp, s) \<Rightarrow> let d = bdata (bufs s bp)
        in case find (block_free d) [0..<min BPB (unat (sb_size (sb s)) - ?b)] of
          None \<Rightarrow> bindr (brelse bp s) (balloc_loop 1 (map (\<lambda>k. k * BPB) [Suc k..<?N]))
        | Some bi \<Rightarrow> bindr (log_write bp (set_data bp (mark_used d bi) s)) (\<lambda>s.
            bindr (brelse bp s) (\<lambda>s. bindr (bzero 1 (of_nat (?b + bi)) s) (\<lambda>s. Ok (of_nat (?b + bi), s))))) (allocated s0)"
    proof (cases "find (block_free (bview s0 ?B)) [0..<min BPB (Z - ?b)]")
      case (Some bi)
      from find_upt [OF Some] have bi: "bi < BPB" "?b + bi < Z" "block_free (bview s0 ?B) bi" "\<forall>j<bi. \<not> block_free (bview s0 ?B) j" by auto
      have "\<not> bit_free s0 n" if "n < of_nat (?b + bi)" for n
      proof (cases "unat n < ?b")
        case True
        then show ?thesis using Suc(4) lessZ [OF bZ] ub [OF bZ] by (auto simp: word_less_nat_alt)
      next
        case False
        have "unat n < ?b + bi" using that ub [OF bi(2)] by (simp add: word_less_nat_alt)
        then obtain j where j: "unat n = ?b + j" "j < bi" using False by (metis le_Suc_ex nat_add_left_cancel_less not_less)
        then have "n = of_nat (?b + j)" using ub [of "?b + j"] bi(2) by (intro unat_eqI) simp
        then show ?thesis using fr [of j] bi j by simp
      qed
      then have "outcome {''bget: no buffers'', ''too big a transaction''}
        (bindr (log_write i (set_data i (mark_used (bview s0 ?B) bi) t)) (\<lambda>s.
         bindr (brelse i s) (\<lambda>s. bindr (bzero 1 (of_nat (?b + bi)) s) (\<lambda>s. Ok (of_nat (?b + bi), s))))) (allocated s0)"
        using bi fr [of bi] by (intro balloc_take [OF ok _ _ _ _ t0 t(1)]) (auto simp: Z_def)
      then show ?thesis unfolding x prod.case Let_def d ts Z_def [symmetric] Some option.case by (rule outcome_mono) auto
    next
      case None
      have r: "outcome ?E (bindr (brelse i t) (balloc_loop 1 (map (\<lambda>k. k * BPB) [Suc k..<?N]))) (allocated s0)"
      proof (subst outcome_bindr, rule outcome_succeeds [THEN outcome_mono])
        show "succeeds (brelse i t) (\<lambda>u. fs_step t u (bview t) (held t - {?B}))"
          by (rule logged.rel_law) (use T t in auto)
      next
        fix u
        assume "fs_step t u (bview t) (held t - {?B})"
        then have "fs_step t u (bview s0) (held s0)" using T o(3) by simp
        then have u: "fs_step s0 u (bview s0) (held s0)" by (rule logged.step_trans [OF o(1) t0]) auto
        have "\<not> bit_free s0 n" if n: "unat n < Suc k * BPB" "n < sb_size (sb s0)" for n
        proof (cases "unat n < ?b")
          case True
          then show ?thesis using Suc(4) n by blast
        next
          case False
          then obtain j where j: "unat n = ?b + j" "j < BPB" using n(1) by (metis add.commute le_Suc_ex mult_Suc nat_add_left_cancel_less not_less)
          have "?b + j < Z" using n(2) j by (simp add: word_less_nat_alt Z_def)
          moreover from ub [OF this] have nj: "n = of_nat (?b + j)" using j by (intro unat_eqI) simp
          ultimately show ?thesis using None fr [OF j(2)] j nj by (simp add: find_None_iff)
        qed
        then show "outcome ?E (balloc_loop 1 (map (\<lambda>k. k * BPB) [Suc k..<?N]) u) (allocated s0)"
          using Suc(1) [of "Suc k" u] Suc(2) u by auto
      qed auto
      then show ?thesis unfolding x prod.case Let_def d ts Z_def [symmetric] None option.case .
    qed
  qed
qed

lemma BBLOCK_same: "BBLOCK n x = BBLOCK b x \<longleftrightarrow> unat n div BPB = unat b div BPB"
proof -
  have "BBLOCK n x = BBLOCK b x \<longleftrightarrow> unat (n div of_nat BPB) = unat (b div of_nat BPB)"
    by (auto simp: BBLOCK_def intro: unat_eqI)
  moreover have "unat (of_nat BPB :: u32) = BPB" by (simp add: BPB_def BSIZE_def)
  ultimately show ?thesis by (simp add: unat_div_distrib)
qed

lemma bit_mark:
  assumes "log_inv s" "bview t (BBLOCK n (sb s)) = (if BBLOCK n (sb s) = BBLOCK b (sb s)
      then m (bview s (BBLOCK b (sb s))) (unat b mod BPB) else bview s (BBLOCK n (sb s)))" "sb t = sb s"
    and m: "\<And>d i j. i div 8 < length d \<Longrightarrow> block_free (m d i) j \<longleftrightarrow> P (j = i) (block_free d j)" "\<And>x. P False x = x"
  shows "bit_free t n \<longleftrightarrow> P (n = b) (bit_free s n)"
proof (cases "BBLOCK n (sb s) = BBLOCK b (sb s)")
  case True
  have "(unat b mod BPB) div 8 < length (bview s (BBLOCK b (sb s)))"
    using logged.length_law [OF assms(1)] by (simp add: BPB_def BSIZE_def less_mult_imp_div_less)
  moreover have "n = b \<longleftrightarrow> unat n mod BPB = unat b mod BPB"
    using True unfolding BBLOCK_same by (metis div_mult_mod_eq unat_eqI)
  ultimately show ?thesis using True assms(2) m(1) by (simp add: bit_free_def assms(3))
next
  case False
  then have "n \<noteq> b" by blast
  then show ?thesis using False assms(2) m(2) by (simp add: bit_free_def assms(3))
qed

text \<open>
  C0: \<^verbatim>\<open>balloc\<close> returns the lowest block that the bitmap has as free. Afterwards the block is
  zeroed and marked as used, no other bit of the bitmap and no other block has changed, nothing
  has been written to disk outside the log, and no buffer is left locked. It panics only when
  there is no free block, all buffers are busy, or the transaction is too big for the log.
\<close>

theorem balloc_correct:
  assumes "bitmap_ok s"
  shows "outcome ({''bget: no buffers'', ''too big a transaction''} \<union>
      (if \<exists>n < sb_size (sb s). bit_free s n then {} else {''balloc: out of blocks''})) (balloc 1 s)
    (\<lambda>(b, t). b < sb_size (sb s) \<and> bit_free s b \<and> (\<forall>n<b. \<not> bit_free s n) \<and>
       bview t b = replicate BSIZE 0 \<and> (\<forall>n < sb_size (sb s). bit_free t n \<longleftrightarrow> n \<noteq> b \<and> bit_free s n) \<and>
       (\<forall>n. n \<noteq> b \<longrightarrow> n \<noteq> BBLOCK b (sb s) \<longrightarrow> bview t n = bview s n) \<and>
       log_inv t \<and> disk t = disk s \<and> held t = held s)"
proof -
  have li: "log_inv s" using assms by (simp add: bitmap_ok_def)
  have L: "outcome ({''bget: no buffers'', ''too big a transaction''} \<union>
      (if \<exists>n < sb_size (sb s). bit_free s n then {} else {''balloc: out of blocks''}))
    (balloc_loop 1 (map (\<lambda>k. k * BPB) [0..<(unat (sb_size (sb s)) + BPB - 1) div BPB]) s) (allocated s)"
    by (rule balloc_loop_spec [OF assms logged.step_refl [OF li]]) simp
  show ?thesis unfolding balloc_def
  proof (rule outcome_post [OF L], clarify)
    fix b t
    assume "allocated s (b, t)"
    then have a: "b < sb_size (sb s)" "bit_free s b" "\<forall>n<b. \<not> bit_free s n"
      and st: "fs_step s t ((bview s)(BBLOCK b (sb s) := mark_used (bview s (BBLOCK b (sb s))) (unat b mod BPB),
        b := replicate BSIZE 0)) (held s)" by (simp_all add: allocated_def)
    note T = logged.step_to [OF st] and M = fs_step_more [OF st]
    have ne: "BBLOCK n (sb s) \<noteq> b" if "n < sb_size (sb s)" for n
      using assms a that unfolding bitmap_ok_def by blast
    have "bit_free t n \<longleftrightarrow> n \<noteq> b \<and> bit_free s n" if "n < sb_size (sb s)" for n
      by (rule bit_mark [OF li _ M(1), where m = mark_used and P = "\<lambda>x y. \<not> x \<and> y"])
        (use T ne [OF that] in \<open>simp_all add: mark_used_iff\<close>)
    moreover have "disk t = disk s" using st by (simp add: fs_step_def)
    ultimately show "b < sb_size (sb s) \<and> bit_free s b \<and> (\<forall>n<b. \<not> bit_free s n) \<and>
       bview t b = replicate BSIZE 0 \<and> (\<forall>n < sb_size (sb s). bit_free t n \<longleftrightarrow> n \<noteq> b \<and> bit_free s n) \<and>
       (\<forall>n. n \<noteq> b \<longrightarrow> n \<noteq> BBLOCK b (sb s) \<longrightarrow> bview t n = bview s n) \<and>
       log_inv t \<and> disk t = disk s \<and> held t = held s"
      using a T by simp
  qed
qed

text \<open>
  A small file system: two blocks, both free, with the bitmap in block 50, and an inode for a file of
  ten bytes in block 60.
\<close>

definition boot_fs :: fs_st where
  "boot_fs = log_st.extend boot_log \<lparr>sb = \<lparr>sb_size = 2, sb_nblocks = 2, sb_ninodes = 0, sb_nlog = 30,
     sb_logstart = 2, sb_inodestart = 40, sb_bmapstart = 50\<rparr>, inodes = (\<lambda>_. \<lparr>i_dev = 1, i_inum = 1, i_ref = 1, i_valid = True, i_type = T_FILE,
     i_major = 0, i_minor = 0, i_nlink = 1, i_size = 10, i_addrs = 60 # replicate 12 0\<rparr>)\<rparr>"

lemma boot_fs_facts: "log_inv boot_fs" "bview boot_fs = (\<lambda>_. replicate 512 0)" "held boot_fs = {}" "disksize boot_fs = 1000"
  "log_start boot_fs = 2" "log_outstanding boot_fs = 1" "sb_size (sb boot_fs) = 2" "sb_bmapstart (sb boot_fs) = 50"
proof -
  show f: "log_start boot_fs = 2" "log_outstanding boot_fs = 1" "sb_size (sb boot_fs) = 2" "sb_bmapstart (sb boot_fs) = 50"
    by (simp_all add: boot_fs_def log_st.defs boot_log_facts)
  have "bio_st.truncate boot_fs = bio_st.truncate boot_log" by (simp add: boot_fs_def log_st.defs bio_st.defs)
  note c = cache_cong [OF this]
  have c': "cabs boot_fs = \<lparr>ah = {}, ap = {}, av = (\<lambda>_. replicate 512 0), ad = (\<lambda>_. replicate 512 0), at = []\<rparr>"
    using c(2) boot_log_facts(2) by simp
  show d: "disksize boot_fs = 1000" by (simp add: boot_fs_def log_st.defs boot_log_facts)
  show "bview boot_fs = (\<lambda>_. replicate 512 0)" "held boot_fs = {}" using cabsD [OF c'] by simp_all
  have "pinned boot_fs = log_blocks boot_fs 0" using cabsD [OF c'] by (simp add: log_blocks_def)
  moreover have "log_ok boot_fs 0"
    by (simp add: log_ok_def f d) (simp add: boot_fs_def log_st.defs boot_log_facts LOGSIZE_def MAXOPBLOCKS_def)
  ultimately show "log_inv boot_fs" using c(1) boot_log_facts(1) unfolding log_inv_def by (intro conjI exI [of _ 0]) simp_all
qed

lemma two_below: "(n :: u32) < 2 \<Longrightarrow> n = 0 \<or> n = 1"
proof -
  assume "n < 2"
  then have "unat n < 2" by (simp add: word_less_nat_alt)
  then have "unat n = unat (0 :: u32) \<or> unat n = unat (1 :: u32)" by auto
  then show ?thesis using unat_eqI by blast
qed

lemma boot_fs_tx: "in_tx boot_fs 0" "in_tx boot_fs 1" "in_tx boot_fs 40" "in_tx boot_fs 50" "in_tx boot_fs 60"
proof -
  have r: "n \<notin> log_region boot_fs" if "unat n < 2 \<or> 32 < unat n" for n
  proof
    assume "n \<in> log_region boot_fs"
    then obtain j where j: "n = of_nat (2 + j)" "j \<le> LOGSIZE" by (auto simp: log_region_def boot_fs_facts)
    then have "unat n = 2 + j" by (simp only: j(1) unat_of_nat) (simp add: LOGSIZE_def MAXOPBLOCKS_def)
    then show False using that j(2) by (simp add: LOGSIZE_def MAXOPBLOCKS_def)
  qed
  show "in_tx boot_fs 0" "in_tx boot_fs 1" "in_tx boot_fs 40" "in_tx boot_fs 50" "in_tx boot_fs 60"
    using r by (simp_all add: in_tx_def boot_fs_facts)
qed

text \<open>No devices.\<close>

definition dev0 :: "fs_st devsw" where "dev0 = \<lparr>dread = (\<lambda>_. None), dwrite = (\<lambda>_. None)\<rparr>"

lemma boot_fs_bitmap: "bitmap_ok boot_fs" "bit_free boot_fs 0" "BBLOCK 0 (sb boot_fs) = 50" "in_tx boot_fs 50"
proof -
  have b: "BBLOCK 0 (sb boot_fs) = 50" "BBLOCK 1 (sb boot_fs) = 50"
    by (simp_all add: BBLOCK_def boot_fs_facts BPB_def BSIZE_def)
  note x = boot_fs_tx(4,1,2)
  have "BBLOCK n (sb boot_fs) = 50" "in_tx boot_fs n" if "n < 2" for n using two_below [OF that] b x by auto
  then show "bitmap_ok boot_fs"
    unfolding bitmap_ok_def using x(1) by (auto simp: boot_fs_facts)
  show "in_tx boot_fs 50" by (rule x)
  show "bit_free boot_fs 0" by (simp add: bit_free_def boot_fs_facts block_free_def)
  show "BBLOCK 0 (sb boot_fs) = 50" by (rule b)
qed

theorem balloc_correct_witness:
  "outcome {''bget: no buffers'', ''too big a transaction''} (balloc 1 boot_fs)
    (\<lambda>(b, t). b = 0 \<and> bview t 0 = replicate BSIZE 0 \<and> \<not> bit_free t 0 \<and> bview t 60 = replicate 512 0)"
proof -
  have e: "\<exists>n < sb_size (sb boot_fs). bit_free boot_fs n"
    by (rule exI [of _ 0]) (simp add: boot_fs_bitmap boot_fs_facts)
  show ?thesis
  proof (rule outcome_mono [OF balloc_correct [OF boot_fs_bitmap(1)]])
    fix x
    assume "case x of (b, t) \<Rightarrow> b < sb_size (sb boot_fs) \<and> bit_free boot_fs b \<and> (\<forall>n<b. \<not> bit_free boot_fs n) \<and>
       bview t b = replicate BSIZE 0 \<and> (\<forall>n < sb_size (sb boot_fs). bit_free t n \<longleftrightarrow> n \<noteq> b \<and> bit_free boot_fs n) \<and>
       (\<forall>n. n \<noteq> b \<longrightarrow> n \<noteq> BBLOCK b (sb boot_fs) \<longrightarrow> bview t n = bview boot_fs n) \<and>
       log_inv t \<and> disk t = disk boot_fs \<and> held t = held boot_fs"
    then obtain b t where x: "x = (b, t)" and b: "b < 2" "\<forall>n<b. \<not> bit_free boot_fs n" "bview t b = replicate BSIZE 0"
      "\<forall>n < 2. bit_free t n \<longleftrightarrow> n \<noteq> b \<and> bit_free boot_fs n"
      "\<forall>n. n \<noteq> b \<longrightarrow> n \<noteq> BBLOCK b (sb boot_fs) \<longrightarrow> bview t n = bview boot_fs n" by (cases x) (auto simp: boot_fs_facts)
    have "\<not> 0 < b" using b(2) boot_fs_bitmap(2) by blast
    then have "b = 0" by (simp add: word_gt_0)
    then show "case x of (b, t) \<Rightarrow> b = 0 \<and> bview t 0 = replicate BSIZE 0 \<and> \<not> bit_free t 0 \<and> bview t 60 = replicate 512 0"
      using x b(3-5) boot_fs_bitmap(3) by (simp add: boot_fs_facts)
  qed (use e in auto)
qed

text \<open>
  C0: \<^verbatim>\<open>bfree\<close> panics exactly when the bitmap has the block as free already; otherwise it clears
  that one bit, and \<^verbatim>\<open>balloc\<close> can hand the block out again.
\<close>

theorem bfree_correct:
  assumes "log_inv s" "in_tx s (BBLOCK b (sb s))" "BBLOCK b (sb s) \<notin> held s"
  shows "outcome ({''bget: no buffers'', ''too big a transaction''} \<union> (if bit_free s b then {''freeing free block''} else {}))
    (bfree 1 b s) (\<lambda>t. \<not> bit_free s b \<and> (\<forall>n. bit_free t n \<longleftrightarrow> n = b \<or> bit_free s n) \<and>
      (\<forall>n. n \<noteq> BBLOCK b (sb s) \<longrightarrow> bview t n = bview s n) \<and> log_inv t \<and> disk t = disk s \<and> held t = held s)"
    (is "outcome ?E _ ?Q")
proof -
  let ?B = "BBLOCK b (sb s)" and ?i = "unat b mod BPB"
  show ?thesis unfolding bfree_def
  proof (subst outcome_bindr, rule outcome_mono [OF logged.get_law [OF assms(1) logged.writable_valid [OF assms(2)] assms(3)]], blast, clarify)
    fix i t
    assume t: "fs_step s t (bview s) (insert ?B (held s))" "owns_buf t i ?B" "clean t ?B"
    note T = logged.step_to [OF t(1)] and X = logged.step_valid [OF t(1)]
    have d: "bdata (bufs t i) = bview s ?B" using logged.data_law [OF _ t(2)] T by simp
    let ?d = "mark_free (bview s ?B) ?i"
    have len: "length ?d = BSIZE" using logged.length_law [OF assms(1)] by simp
    have w: "outcome {''too big a transaction''} (bindr (log_write i (set_data i ?d t)) (brelse i))
        (\<lambda>u. fs_step t u ((bview t)(?B := ?d)) (held t - {?B}))"
      by (rule logged.write_rel) (use T X t(2) len assms(2) in \<open>auto simp: fun_eq_iff\<close>)
    have "outcome ?E (bindr (log_write i (set_data i ?d t)) (brelse i)) ?Q" if nf: "\<not> bit_free s b"
    proof (rule outcome_mono [OF w], blast)
      fix u
      assume "fs_step t u ((bview t)(?B := ?d)) (held t - {?B})"
      then have "fs_step t u ((bview s)(?B := ?d)) (held s)" using T assms(3) by simp
      then have u: "fs_step s u ((bview s)(?B := ?d)) (held s)" by (rule logged.step_trans [OF assms(1) t(1)]) auto
      note U = logged.step_to [OF u] and M = fs_step_more [OF u]
      have "bit_free u n \<longleftrightarrow> n = b \<or> bit_free s n" for n
        by (rule bit_mark [OF assms(1) _ M(1), where m = mark_free and P = "(\<or>)"]) (use U in \<open>simp_all add: mark_free_iff\<close>)
      moreover have "disk u = disk s" using u by (simp add: fs_step_def)
      ultimately show "?Q u" using U nf by simp
    qed
    then show "outcome ?E (let bi = ?i; d = bdata (bufs t i) in if block_free d bi then Panic ''freeing free block''
        else bindr (log_write i (set_data i (mark_free d bi) t)) (brelse i)) ?Q"
      unfolding Let_def d bit_free_def by simp
  qed
qed

theorem bfree_correct_witness: "outcome {''bget: no buffers'', ''too big a transaction'', ''freeing free block''} (bfree 1 0 boot_fs) (\<lambda>t. False)"
  by (intro outcome_mono [OF bfree_correct [of boot_fs 0]]) (simp_all add: boot_fs_bitmap boot_fs_facts)

section \<open>Reading and overwriting files\<close>

text \<open>
  The block of file block \<open>bn\<close> and byte \<open>k\<close> of a file, as the inode and the block contents \<open>V\<close>
  determine them. \<open>mapped s ip n\<close>: the first \<open>n\<close> bytes have blocks, which are valid and not in use.
\<close>

definition baddr :: "(u32 \<Rightarrow> u8 list) \<Rightarrow> inode \<Rightarrow> nat \<Rightarrow> u32" where
  "baddr V x bn = (if bn < NDIRECT then i_addrs x ! bn else get32 (V (i_addrs x ! NDIRECT)) (4 * (bn - NDIRECT)))"

definition fbyte :: "(u32 \<Rightarrow> u8 list) \<Rightarrow> inode \<Rightarrow> nat \<Rightarrow> u8" where
  "fbyte V x k = V (baddr V x (k div BSIZE)) ! (k mod BSIZE)"

definition usable :: "'a fs_st_scheme \<Rightarrow> u32 \<Rightarrow> bool" where
  "usable s a \<longleftrightarrow> a \<noteq> 0 \<and> a < disksize s \<and> a \<notin> held s"

definition mapped :: "'a fs_st_scheme \<Rightarrow> nat \<Rightarrow> nat \<Rightarrow> bool" where
  "mapped s ip n \<longleftrightarrow> log_inv s \<and> i_dev (inodes s ip) = 1 \<and>
     (\<forall>bn. bn * BSIZE < n \<longrightarrow> bn < MAXFILE \<and> usable s (baddr (bview s) (inodes s ip) bn) \<and>
       (NDIRECT \<le> bn \<longrightarrow> usable s (i_addrs (inodes s ip) ! NDIRECT)))"

lemma mapped_step:
  assumes "mapped s ip n" "fs_step s t (bview s) (held s)"
  shows "mapped t ip n"
proof -
  note T = logged.step_to [OF assms(2)] and M = fs_step_more [OF assms(2)]
  have "disksize t = disksize s" using assms(2) by (simp add: fs_step_def tx_frame_def)
  then have "usable t = usable s" using T by (simp add: usable_def fun_eq_iff)
  then show ?thesis using assms(1) T M by (simp add: mapped_def)
qed

lemma bmap_mapped:
  assumes "mapped s ip n" "bn * BSIZE < n"
  shows "outcome {''bget: no buffers''} (bmap ip bn s)
    (\<lambda>(a, t). a = baddr (bview s) (inodes s ip) bn \<and> fs_step s t (bview s) (held s))"
proof -
  have li: "log_inv s" and dev: "i_dev (inodes s ip) = 1" and bn: "bn < MAXFILE"
    and a: "usable s (baddr (bview s) (inodes s ip) bn)" and b: "NDIRECT \<le> bn \<Longrightarrow> usable s (i_addrs (inodes s ip) ! NDIRECT)"
    using assms by (auto simp: mapped_def)
  show ?thesis
  proof (cases "bn < NDIRECT")
    case True
    then show ?thesis using a logged.step_refl [OF li] by (simp add: bmap_def baddr_def usable_def)
  next
    case False
    let ?i = "i_addrs (inodes s ip) ! NDIRECT" and ?j = "4 * (bn - NDIRECT)"
    have i: "?i \<noteq> 0" "?i < disksize s" "?i \<notin> held s" using b False by (auto simp: usable_def)
    have j: "bn - NDIRECT < NINDIRECT" using bn by (simp add: MAXFILE_def NINDIRECT_def BSIZE_def NDIRECT_def)
    have g: "baddr (bview s) (inodes s ip) bn = get32 (bview s ?i) ?j" using False by (simp add: baddr_def)
    show ?thesis unfolding bmap_def Let_def
    proof (simp only: False j i dev if_False if_True bindr.simps prod.case, subst outcome_bindr,
        rule outcome_post [OF logged.get_law [OF li i(2,3)]], clarify)
      fix p t
      assume t: "fs_step s t (bview s) (insert ?i (held s))" "owns_buf t p ?i" "clean t ?i"
      note T = logged.step_to [OF t(1)]
      have d: "get32 (bdata (bufs t p)) ?j = baddr (bview s) (inodes s ip) bn" using logged.data_law [OF _ t(2)] T g by simp
      have nz: "baddr (bview s) (inodes s ip) bn \<noteq> 0" using a by (simp add: usable_def)
      show "outcome {''bget: no buffers''} (bindr (if get32 (bdata (bufs t p)) ?j = 0
            then bindr (balloc 1 t) (\<lambda>(addr, s). bindr (log_write p (set_data p (put32 (bdata (bufs s p)) ?j addr) s)) (\<lambda>s. Ok (addr, s)))
            else Ok (get32 (bdata (bufs t p)) ?j, t)) (\<lambda>(addr, s). bindr (brelse p s) (\<lambda>s. Ok (addr, s))))
          (\<lambda>(a, t). a = baddr (bview s) (inodes s ip) bn \<and> fs_step s t (bview s) (held s))"
      proof (simp only: d nz if_False bindr.simps prod.case outcome_bindr, rule outcome_succeeds,
          rule succeeds_mono [OF logged.rel_law [OF _ t(2,3)]])
        show "log_inv t" using T by blast
        fix u
        assume "fs_step t u (bview t) (held t - {?i})"
        then have "fs_step t u (bview s) (held s)" using T i(3) by simp
        from logged.step_trans [OF li t(1) this]
        show "outcome {''bget: no buffers''} (Ok (baddr (bview s) (inodes s ip) bn, u))
            (\<lambda>(a, t). a = baddr (bview s) (inodes s ip) bn \<and> fs_step s t (bview s) (held s))" by auto
      qed
    qed
  qed
qed

lemma map_upt_split: "m \<le> n \<Longrightarrow> map f [i..<i + n] = map f [i..<i + m] @ map f [i + m..<i + n]"
  by (metis add_diff_cancel_left' map_append upt_add_eq_append le_add1 le_add_diff_inverse add.assoc)

lemma fbyte_chunk:
  assumes "log_inv s" "off mod BSIZE + m \<le> BSIZE"
  shows "take m (drop (off mod BSIZE) (bview s (baddr (bview s) x (off div BSIZE)))) = map (fbyte (bview s) x) [off..<off + m]"
proof (rule nth_equalityI)
  have len: "length (bview s a) = BSIZE" for a using logged.length_law [OF assms(1)] by simp
  show "length (take m (drop (off mod BSIZE) (bview s (baddr (bview s) x (off div BSIZE))))) = length (map (fbyte (bview s) x) [off..<off + m])"
    using assms(2) by (simp add: len)
  fix i
  assume "i < length (take m (drop (off mod BSIZE) (bview s (baddr (bview s) x (off div BSIZE)))))"
  then have i: "i < m" by simp
  have "(off + i) div BSIZE = off div BSIZE" "(off + i) mod BSIZE = off mod BSIZE + i"
    using i assms(2) by (simp_all add: div_add1_eq [of off i] mod_add_eq [of off BSIZE i, symmetric])
  then show "take m (drop (off mod BSIZE) (bview s (baddr (bview s) x (off div BSIZE)))) ! i = map (fbyte (bview s) x) [off..<off + m] ! i"
    using i assms(2) by (simp add: fbyte_def len)
qed

lemma readi_loop_spec:
  assumes "mapped s ip (off + n)"
  shows "outcome {''bget: no buffers''} (readi_loop ip off n s)
    (\<lambda>(d, t). d = map (fbyte (bview s) (inodes s ip)) [off..<off + n] \<and> fs_step s t (bview s) (held s))"
  using assms
proof (induction n arbitrary: off s rule: less_induct)
  case (less n)
  have li: "log_inv s" and dev: "i_dev (inodes s ip) = 1" using less.prems by (auto simp: mapped_def)
  show ?case
  proof (cases "n = 0")
    case True
    then show ?thesis using logged.step_refl [OF li] by (simp add: readi_loop.simps)
  next
    case False
    let ?bn = "off div BSIZE" and ?m = "min n (BSIZE - off mod BSIZE)"
    let ?a = "baddr (bview s) (inodes s ip) ?bn"
    have bn: "?bn * BSIZE < off + n" using False div_times_less_eq_dividend [of off BSIZE] by linarith
    have us: "usable s ?a" using less.prems bn by (simp add: mapped_def)
    have bs: "off mod BSIZE < BSIZE" by (simp add: BSIZE_def)
    show ?thesis unfolding readi_loop.simps [of ip off n s] if_not_P [OF False]
    proof (subst outcome_bindr, rule outcome_post [OF bmap_mapped [OF less.prems bn]], clarify)
      fix t
      assume t: "fs_step s t (bview s) (held s)"
      note T = logged.step_to [OF t] and X = logged.step_valid [OF t] and M = fs_step_more [OF t]
      have a: "?a < disksize t" "?a \<notin> held t" using us T X by (auto simp: usable_def fun_eq_iff)
      have dt: "i_dev (inodes t ip) = 1" using dev M by simp
      show "outcome {''bget: no buffers''} (bindr (bread (i_dev (inodes t ip)) ?a t) (\<lambda>(bp, s).
          let m = ?m; d = take m (drop (off mod BSIZE) (bdata (bufs s bp)))
          in bindr (brelse bp s) (\<lambda>s. bindr (readi_loop ip (off + m) (n - m) s) (\<lambda>(ds, s). Ok (d @ ds, s)))))
        (\<lambda>(d, t). d = map (fbyte (bview s) (inodes s ip)) [off..<off + n] \<and> fs_step s t (bview s) (held s))"
        unfolding dt
      proof (subst outcome_bindr, rule outcome_post [OF logged.get_law [OF _ a]], use T in blast, clarify)
        fix p u
        assume u1: "fs_step t u (bview t) (insert ?a (held t))" and u: "owns_buf u p ?a" "clean u ?a"
        note U = logged.step_to [OF u1]
        have d: "bdata (bufs u p) = bview s ?a" using logged.data_law [OF _ u(1)] U T by simp
        show "outcome {''bget: no buffers''} (let m = ?m; d = take m (drop (off mod BSIZE) (bdata (bufs u p)))
            in bindr (brelse p u) (\<lambda>s. bindr (readi_loop ip (off + m) (n - m) s) (\<lambda>(ds, s). Ok (d @ ds, s))))
          (\<lambda>(d, t). d = map (fbyte (bview s) (inodes s ip)) [off..<off + n] \<and> fs_step s t (bview s) (held s))"
          unfolding Let_def d
        proof (subst outcome_bindr, rule outcome_succeeds, rule succeeds_mono [OF logged.rel_law [OF _ u]], use U in blast)
          fix v
          assume "fs_step u v (bview u) (held u - {?a})"
          then have "fs_step u v (bview t) (held t)" using U a by simp
          then have "fs_step t v (bview t) (held t)" using logged.step_trans [OF _ u1] T by blast
          then have v: "fs_step s v (bview s) (held s)" using logged.step_trans [OF li t] T by auto
          note V = logged.step_to [OF v] and N = fs_step_more [OF v]
          have mv: "mapped v ip ((off + ?m) + (n - ?m))" using mapped_step [OF less.prems v] by simp
          have ih: "outcome {''bget: no buffers''} (readi_loop ip (off + ?m) (n - ?m) v)
            (\<lambda>(d, t). d = map (fbyte (bview v) (inodes v ip)) [off + ?m..<(off + ?m) + (n - ?m)] \<and> fs_step v t (bview v) (held v))"
            using less.IH [OF chunk_less mv] False by simp
          show "outcome {''bget: no buffers''} (bindr (readi_loop ip (off + ?m) (n - ?m) v)
              (\<lambda>(ds, s'). Ok (take ?m (drop (off mod BSIZE) (bview s ?a)) @ ds, s')))
            (\<lambda>(d, t). d = map (fbyte (bview s) (inodes s ip)) [off..<off + n] \<and> fs_step s t (bview s) (held s))"
          proof (subst outcome_bindr, rule outcome_post [OF ih], clarify)
            fix w
            assume "fs_step v w (bview v) (held v)"
            then have "fs_step s w (bview s) (held s)" using logged.step_trans [OF li v] V by auto
            moreover have "take ?m (drop (off mod BSIZE) (bview s ?a)) = map (fbyte (bview s) (inodes s ip)) [off..<off + ?m]"
              by (rule fbyte_chunk [OF li]) (use bs in linarith)
            ultimately show "outcome {''bget: no buffers''} (Ok (take ?m (drop (off mod BSIZE) (bview s ?a)) @
                map (fbyte (bview v) (inodes v ip)) [off + ?m..<(off + ?m) + (n - ?m)], w))
              (\<lambda>(d, t). d = map (fbyte (bview s) (inodes s ip)) [off..<off + n] \<and> fs_step s t (bview s) (held s))"
              using V N map_upt_split [of ?m n "fbyte (bview s) (inodes s ip)" off] by simp
          qed
        qed
      qed
    qed
  qed
qed

lemma readi_bytes:
  assumes "mapped s ip (unat (i_size (inodes s ip)))" "i_type (inodes s ip) \<noteq> T_DEV"
  shows "outcome {''bget: no buffers''} (readi dv ip off n s)
    (\<lambda>(r, bs, t). if off > i_size (inodes s ip) \<or> 2 ^ 32 \<le> unat off + unat n then r = -1 \<and> bs = [] \<and> t = s
       else r = int (length bs) \<and> fs_step s t (bview s) (held s) \<and>
         bs = map (fbyte (bview s) (inodes s ip)) [unat off..<min (unat off + unat n) (unat (i_size (inodes s ip)))])"
proof -
  let ?z = "i_size (inodes s ip)"
  have wrap: "off + n < off \<longleftrightarrow> 2 ^ 32 \<le> unat off + unat n"
    by (simp only: word_less_nat_alt unat_word_ariths) (use unsigned_less [of off, where 'a = nat] unsigned_less [of n, where 'a = nat] in \<open>auto simp: mod_if\<close>)
  show ?thesis
  proof (cases "off > ?z \<or> 2 ^ 32 \<le> unat off + unat n")
    case True
    then show ?thesis using assms(2) wrap by (auto simp: readi_def Let_def)
  next
    case False
    let ?n = "if off + n > ?z then ?z - off else n"
    have u: "unat (off + n) = unat off + unat n" using False by (simp add: unat_word_ariths)
    have n: "unat off + unat ?n = min (unat off + unat n) (unat ?z)"
      using False u by (auto simp: word_less_nat_alt unat_sub_if' word_le_nat_alt)
    have "mapped s ip (unat off + unat ?n)" using assms(1) unfolding n by (auto simp: mapped_def)
    note R = readi_loop_spec [OF this]
    have "readi dv ip off n s = bindr (readi_loop ip (unat off) (unat ?n) s) (\<lambda>(d, s). Ok (uint ?n, d, s))"
      using False assms(2) wrap by (simp add: readi_def Let_def)
    moreover have "outcome {''bget: no buffers''} (bindr (readi_loop ip (unat off) (unat ?n) s) (\<lambda>(d, s). Ok (uint ?n, d, s)))
      (\<lambda>(r, bs, t). r = int (length bs) \<and> fs_step s t (bview s) (held s) \<and>
         bs = map (fbyte (bview s) (inodes s ip)) [unat off..<min (unat off + unat n) (unat ?z)])"
      unfolding n [symmetric] by (subst outcome_bindr, rule outcome_post [OF R]) (auto simp del: upt_conv_Nil)
    ultimately show ?thesis using False by simp
  qed
qed

text \<open>
  C0: \<^verbatim>\<open>readi\<close> on a file whose blocks are allocated returns exactly the bytes of the file from
  \<^verbatim>\<open>off\<close> on, \<^verbatim>\<open>n\<close> of them or as many as there are up to the end of the file, across block
  boundaries and through the indirect block; a start after the end of the file and a wrap-around of
  \<^verbatim>\<open>off + n\<close> give \<^verbatim>\<open>-1\<close>. No block changes and no buffer stays locked.
\<close>

theorem readi_correct:
  assumes "mapped s ip (unat (i_size (inodes s ip)))" "i_type (inodes s ip) \<noteq> T_DEV"
  shows "outcome {''bget: no buffers''} (readi dv ip off n s)
    (\<lambda>(r, bs, t). if off > i_size (inodes s ip) \<or> 2 ^ 32 \<le> unat off + unat n then r = -1 \<and> bs = [] \<and> t = s
       else r = int (length bs) \<and> fs_step s t (bview s) (held s) \<and>
         bs = map (fbyte (bview s) (inodes s ip)) [unat off..<min (unat off + unat n) (unat (i_size (inodes s ip)))])"
  using assms by (rule readi_bytes)

text \<open>
  The file's blocks can be written by the transaction, no two positions of the file share a
  block, and none is the indirect block.
\<close>

definition owned :: "'a fs_st_scheme \<Rightarrow> nat \<Rightarrow> nat \<Rightarrow> bool" where
  "owned s ip n \<longleftrightarrow> mapped s ip n \<and>
     (\<forall>bn. bn * BSIZE < n \<longrightarrow> in_tx s (baddr (bview s) (inodes s ip) bn) \<and>
       baddr (bview s) (inodes s ip) bn \<noteq> i_addrs (inodes s ip) ! NDIRECT \<and>
       (\<forall>bm. bm * BSIZE < n \<longrightarrow> baddr (bview s) (inodes s ip) bm = baddr (bview s) (inodes s ip) bn \<longrightarrow> bm = bn))"

definition patched :: "u8 list \<Rightarrow> nat \<Rightarrow> u8 list \<Rightarrow> u8 list" where
  "patched d j xs = take j d @ xs @ drop (j + length xs) d"

lemma patched_nth: "j + length xs \<le> length d \<Longrightarrow> i < length d \<Longrightarrow>
    patched d j xs ! i = (if j \<le> i \<and> i < j + length xs then xs ! (i - j) else d ! i)"
  by (auto simp: patched_def nth_append min_def)

lemma patched_length: "j + length xs \<le> length d \<Longrightarrow> length (patched d j xs) = length d"
  by (simp add: patched_def)

lemma baddr_upd: "a \<noteq> i_addrs x ! NDIRECT \<Longrightarrow> baddr (V(a := d)) x bn = baddr V x bn"
  by (simp add: baddr_def)

lemma owned_step:
  assumes "owned s ip n" "fs_step s t V (held s)" "\<And>bn. baddr V (inodes s ip) bn = baddr (bview s) (inodes s ip) bn"
  shows "owned t ip n"
proof -
  note T = logged.step_to [OF assms(2)] and M = fs_step_more [OF assms(2)] and X = logged.step_valid [OF assms(2)]
  have "disksize t = disksize s" using assms(2) by (simp add: fs_step_def tx_frame_def)
  then have "usable t = usable s" using T by (simp add: usable_def fun_eq_iff)
  then show ?thesis using assms(1,3) T M X by (simp add: owned_def mapped_def)
qed

lemma fbyte_patched:
  assumes ow: "owned s ip N" and k: "k < N" and off: "off < N" and m: "off mod BSIZE + length xs \<le> BSIZE"
  shows "fbyte ((bview s)(baddr (bview s) (inodes s ip) (off div BSIZE) :=
      patched (bview s (baddr (bview s) (inodes s ip) (off div BSIZE))) (off mod BSIZE) xs)) (inodes s ip) k =
    (if off \<le> k \<and> k < off + length xs then xs ! (k - off) else fbyte (bview s) (inodes s ip) k)"
proof -
  let ?b = "baddr (bview s) (inodes s ip)"
  let ?V = "(bview s)(?b (off div BSIZE) := patched (bview s (?b (off div BSIZE))) (off mod BSIZE) xs)"
  have li: "log_inv s" using ow by (simp add: owned_def mapped_def)
  have bl: "j div BSIZE * BSIZE < N" if "j < N" for j using that div_times_less_eq_dividend [of j BSIZE] by linarith
  have b: "baddr ?V (inodes s ip) bn = ?b bn" for bn
    using ow bl [OF off] by (intro baddr_upd) (simp add: owned_def)
  have len: "length (bview s a) = BSIZE" for a using logged.length_law [OF li] by simp
  have km: "k mod BSIZE < BSIZE" by (simp add: BSIZE_def)
  show ?thesis
  proof (cases "k div BSIZE = off div BSIZE")
    case True
    have e: "k = off div BSIZE * BSIZE + k mod BSIZE" "off = off div BSIZE * BSIZE + off mod BSIZE"
      using div_mult_mod_eq [of k BSIZE] div_mult_mod_eq [of off BSIZE] True by simp_all
    then have "off \<le> k \<longleftrightarrow> off mod BSIZE \<le> k mod BSIZE" "k < off + length xs \<longleftrightarrow> k mod BSIZE < off mod BSIZE + length xs"
      "off \<le> k \<Longrightarrow> k - off = k mod BSIZE - off mod BSIZE" by linarith+
    then show ?thesis unfolding fbyte_def b True using m km by (simp add: patched_nth len)
  next
    case False
    have "?b (k div BSIZE) \<noteq> ?b (off div BSIZE)" using ow bl [OF off] bl [OF k] False by (simp add: owned_def) blast
    moreover have "\<not> (off \<le> k \<and> k < off + length xs)"
    proof
      assume a: "off \<le> k \<and> k < off + length xs"
      then obtain i where i: "k = off + i" "i < length xs" by (metis le_Suc_ex nat_add_left_cancel_less)
      then have "(off + i) div BSIZE = off div BSIZE" using m by (simp add: div_add1_eq [of off i])
      then show False using False i by simp
    qed
    ultimately show ?thesis unfolding fbyte_def b by auto
  qed
qed

text \<open>What a write of \<open>src\<close> at \<open>off\<close> leaves: the bytes written, the other bytes of the file, the same blocks.\<close>

definition overwritten :: "nat \<Rightarrow> nat \<Rightarrow> nat \<Rightarrow> u8 list \<Rightarrow> 'a fs_st_scheme \<Rightarrow> 'a fs_st_scheme \<Rightarrow> bool" where
  "overwritten ip N off src s t \<longleftrightarrow>
     (\<exists>V. fs_step s t V (held s) \<and> (\<forall>bn. baddr V (inodes s ip) bn = baddr (bview s) (inodes s ip) bn) \<and>
       (\<forall>k<N. fbyte V (inodes s ip) k = (if off \<le> k \<and> k < off + length src then src ! (k - off) else fbyte (bview s) (inodes s ip) k)) \<and>
       (\<forall>a. (\<forall>bn. bn * BSIZE < N \<longrightarrow> a \<noteq> baddr (bview s) (inodes s ip) bn) \<longrightarrow> V a = bview s a))"

lemma overwritten_trans:
  assumes li: "log_inv s" and a: "overwritten ip N off xs s t" and b: "overwritten ip N (off + length xs) ys t u"
  shows "overwritten ip N off (xs @ ys) s u"
proof -
  from a obtain V where V: "fs_step s t V (held s)" "\<And>bn. baddr V (inodes s ip) bn = baddr (bview s) (inodes s ip) bn"
    "\<And>k. k < N \<Longrightarrow> fbyte V (inodes s ip) k = (if off \<le> k \<and> k < off + length xs then xs ! (k - off) else fbyte (bview s) (inodes s ip) k)"
    "\<And>a. (\<forall>bn. bn * BSIZE < N \<longrightarrow> a \<noteq> baddr (bview s) (inodes s ip) bn) \<Longrightarrow> V a = bview s a"
    unfolding overwritten_def by auto
  note T = logged.step_to [OF V(1)] and M = fs_step_more [OF V(1)]
  have t: "bview t = V" "held t = held s" "inodes t = inodes s" using T M by auto
  from b obtain W where W: "fs_step t u W (held s)" "\<And>bn. baddr W (inodes s ip) bn = baddr V (inodes s ip) bn"
    "\<And>k. k < N \<Longrightarrow> fbyte W (inodes s ip) k = (if off + length xs \<le> k \<and> k < off + length xs + length ys then ys ! (k - (off + length xs)) else fbyte V (inodes s ip) k)"
    "\<And>a. (\<forall>bn. bn * BSIZE < N \<longrightarrow> a \<noteq> baddr V (inodes s ip) bn) \<Longrightarrow> W a = V a"
    unfolding overwritten_def t by auto
  have "fs_step s u W (held s)" by (rule logged.step_trans [OF li V(1) W(1)]) auto
  moreover have "fbyte W (inodes s ip) k = (if off \<le> k \<and> k < off + length (xs @ ys) then (xs @ ys) ! (k - off) else fbyte (bview s) (inodes s ip) k)"
    if "k < N" for k
    using W(3) [OF that] V(3) [OF that] by (auto simp: nth_append diff_diff_left)
  moreover have "W a = bview s a" if "\<forall>bn. bn * BSIZE < N \<longrightarrow> a \<noteq> baddr (bview s) (inodes s ip) bn" for a
    using W(4) [of a] V(2,4) that by simp
  ultimately show ?thesis unfolding overwritten_def using W(2) V(2) by (intro exI [of _ W]) simp
qed

lemma writei_loop_spec:
  assumes "owned s ip N" "off + length src \<le> N"
  shows "outcome {''bget: no buffers'', ''too big a transaction''} (writei_loop ip off src s) (overwritten ip N off src s)"
  using assms
proof (induction "length src" arbitrary: off src s rule: less_induct)
  case less
  let ?x = "inodes s ip"
  have mp: "mapped s ip N" and li: "log_inv s" and dev: "i_dev ?x = 1" using less.prems(1) by (auto simp: owned_def mapped_def)
  show ?case
  proof (cases "src = []")
    case True
    then show ?thesis using logged.step_refl [OF li] by (auto simp: writei_loop.simps overwritten_def)
  next
    case False
    let ?bn = "off div BSIZE" and ?m = "min (length src) (BSIZE - off mod BSIZE)"
    let ?a = "baddr (bview s) ?x ?bn"
    have offN: "off < N" using False less.prems(2) by (cases src) simp_all
    have bn: "?bn * BSIZE < N" using offN div_times_less_eq_dividend [of off BSIZE] by linarith
    have us: "usable s ?a" "in_tx s ?a" "?a \<noteq> i_addrs ?x ! NDIRECT"
      using less.prems(1) bn by (simp_all add: owned_def mapped_def)
    have bs: "off mod BSIZE < BSIZE" by (simp add: BSIZE_def)
    have lm: "length (take ?m src) = ?m" "off mod BSIZE + ?m \<le> BSIZE" using bs by simp_all
    show ?thesis unfolding writei_loop.simps [of ip off src s] if_not_P [OF False]
    proof (subst outcome_bindr, rule outcome_mono [OF bmap_mapped [OF mp bn]], blast, clarify)
      fix t
      assume t: "fs_step s t (bview s) (held s)"
      note T = logged.step_to [OF t] and X = logged.step_valid [OF t] and M = fs_step_more [OF t]
      have a: "?a < disksize t" "?a \<notin> held t" "in_tx t ?a" using us T X by (auto simp: usable_def fun_eq_iff)
      have dt: "i_dev (inodes t ip) = 1" using dev M by simp
      show "outcome {''bget: no buffers'', ''too big a transaction''} (bindr (bread (i_dev (inodes t ip)) ?a t) (\<lambda>(bp, s).
          let m = ?m; d = bdata (bufs s bp); d = take (off mod BSIZE) d @ take m src @ drop (off mod BSIZE + m) d
          in bindr (log_write bp (set_data bp d s)) (\<lambda>s. bindr (brelse bp s) (writei_loop ip (off + m) (drop m src)))))
        (overwritten ip N off src s)"
        unfolding dt
      proof (subst outcome_bindr, rule outcome_mono [OF logged.get_law [OF _ a(1,2)]], use T in blast, blast, clarify)
        fix p u
        assume u1: "fs_step t u (bview t) (insert ?a (held t))" and u: "owns_buf u p ?a" "clean u ?a"
        note U = logged.step_to [OF u1] and Y = logged.step_valid [OF u1]
        let ?d = "patched (bview s ?a) (off mod BSIZE) (take ?m src)"
        have d: "bdata (bufs u p) = bview s ?a" using logged.data_law [OF _ u(1)] U T by simp
        have sp: "take (off mod BSIZE) (bview s ?a) @ take ?m src @ drop (off mod BSIZE + ?m) (bview s ?a) = ?d"
          unfolding patched_def lm(1) ..
        have len: "length ?d = BSIZE" using logged.length_law [OF li] lm by (simp add: patched_length)
        have w: "outcome {''too big a transaction''} (bindr (log_write p (set_data p ?d u)) (brelse p))
            (\<lambda>v. fs_step u v ((bview u)(?a := ?d)) (held u - {?a}))"
          by (rule logged.write_rel) (use U Y u(1) len a(3) in \<open>auto simp: fun_eq_iff\<close>)
        have "outcome {''bget: no buffers'', ''too big a transaction''}
            (bindr (bindr (log_write p (set_data p ?d u)) (brelse p)) (writei_loop ip (off + ?m) (drop ?m src))) (overwritten ip N off src s)"
        proof (subst outcome_bindr, rule outcome_mono [OF w], blast)
          fix v
          assume "fs_step u v ((bview u)(?a := ?d)) (held u - {?a})"
          then have "fs_step u v ((bview s)(?a := ?d)) (held t)" using U T a(2) by simp
          then have "fs_step t v ((bview s)(?a := ?d)) (held t)" using logged.step_trans [OF _ u1] T by blast
          then have v: "fs_step s v ((bview s)(?a := ?d)) (held s)" using logged.step_trans [OF li t] T by auto
          have bd: "baddr ((bview s)(?a := ?d)) ?x j = baddr (bview s) ?x j" for j by (rule baddr_upd [OF us(3)])
          have ov: "overwritten ip N off (take ?m src) s v"
            unfolding overwritten_def
          proof (intro exI conjI allI impI)
            show "fs_step s v ((bview s)(?a := ?d)) (held s)" by (rule v)
          next
            fix j
            show "baddr ((bview s)(?a := ?d)) ?x j = baddr (bview s) ?x j" by (rule bd)
          next
            fix k assume k: "k < N"
            show "fbyte ((bview s)(?a := ?d)) ?x k = (if off \<le> k \<and> k < off + length (take ?m src) then take ?m src ! (k - off) else fbyte (bview s) ?x k)"
              by (rule fbyte_patched [OF less.prems(1) k offN]) (simp only: lm)
          next
            fix b assume "\<forall>j. j * BSIZE < N \<longrightarrow> b \<noteq> baddr (bview s) ?x j"
            then show "((bview s)(?a := ?d)) b = bview s b" using bn by simp
          qed
          have "length (drop ?m src) < length src" using chunk_less [of "length src" off] False by simp
          moreover have "off + ?m + length (drop ?m src) \<le> N" using less.prems(2) by simp
          ultimately have "outcome {''bget: no buffers'', ''too big a transaction''} (writei_loop ip (off + ?m) (drop ?m src) v) (overwritten ip N (off + ?m) (drop ?m src) v)"
            using less.hyps owned_step [OF less.prems(1) v bd] by blast
          then show "outcome {''bget: no buffers'', ''too big a transaction''} (writei_loop ip (off + ?m) (drop ?m src) v) (overwritten ip N off src s)"
            by (rule outcome_post) (use overwritten_trans [OF li ov] lm(1) append_take_drop_id [of ?m src] in metis)
        qed
        then show "outcome {''bget: no buffers'', ''too big a transaction''}
            (let m = ?m; d = bdata (bufs u p); d = take (off mod BSIZE) d @ take m src @ drop (off mod BSIZE + m) d
             in bindr (log_write p (set_data p d u)) (\<lambda>s. bindr (brelse p s) (writei_loop ip (off + m) (drop m src)))) (overwritten ip N off src s)"
          unfolding Let_def d sp by (simp only: bindr_assoc)
      qed
    qed
  qed
qed

lemma boot_fs_file: "owned boot_fs 0 10" "i_size (inodes boot_fs 0) = 10" "i_type (inodes boot_fs 0) = T_FILE"
  "fbyte (bview boot_fs) (inodes boot_fs 0) k = 0"
proof -
  have x: "inodes boot_fs 0 = \<lparr>i_dev = 1, i_inum = 1, i_ref = 1, i_valid = True, i_type = T_FILE,
     i_major = 0, i_minor = 0, i_nlink = 1, i_size = 10, i_addrs = 60 # replicate 12 0\<rparr>"
    by (simp add: boot_fs_def log_st.defs)
  show "i_size (inodes boot_fs 0) = 10" "i_type (inodes boot_fs 0) = T_FILE" by (simp_all add: x)
  have b: "bn * BSIZE < 10 \<longleftrightarrow> bn = 0" for bn by (auto simp: BSIZE_def)
  have a: "baddr V (inodes boot_fs 0) 0 = 60" for V by (simp add: baddr_def x NDIRECT_def)
  have t: "in_tx boot_fs 60" "60 < disksize boot_fs" using boot_fs_tx by (simp_all add: boot_fs_facts)
  show "owned boot_fs 0 10"
    unfolding owned_def mapped_def b using t
    by (simp add: a usable_def boot_fs_facts) (simp add: x NDIRECT_def MAXFILE_def)
  have "k mod BSIZE < 512" by (simp add: BSIZE_def)
  then show "fbyte (bview boot_fs) (inodes boot_fs 0) k = 0" by (simp add: fbyte_def boot_fs_facts)
qed

theorem readi_correct_witness:
  "outcome {''bget: no buffers''} (readi dev0 0 7 20 boot_fs) (\<lambda>(r, bs, t). r = 3 \<and> bs = [0, 0, 0])"
proof -
  have m: "mapped boot_fs 0 (unat (i_size (inodes boot_fs 0)))" using boot_fs_file by (simp add: owned_def)
  have l: "[7..<10] = [7, 8, 9 :: nat]" by (simp add: upt_rec)
  show ?thesis
    by (rule outcome_post [OF readi_correct [OF m]])
      (auto simp: boot_fs_file T_FILE_def T_DEV_def l split: if_splits)
qed

text \<open>
  C0: \<^verbatim>\<open>writei\<close> inside a file, also across block boundaries, replaces exactly the bytes it is
  given: every other byte of the file and every block that is not the file's keeps its contents,
  the inode does not change, and a \<^verbatim>\<open>readi\<close> of the range returns what was written.
\<close>

theorem writei_correct:
  assumes "owned s ip (unat (i_size (inodes s ip)))" "i_type (inodes s ip) \<noteq> T_DEV"
    and "unat off + length src \<le> unat (i_size (inodes s ip))"
  shows "outcome {''bget: no buffers'', ''too big a transaction''} (writei dv ip src off s)
    (\<lambda>(r, t). r = int (length src) \<and> inodes t = inodes s \<and> held t = held s \<and> disk t = disk s \<and>
       (\<forall>k < unat (i_size (inodes s ip)). fbyte (bview t) (inodes t ip) k =
         (if unat off \<le> k \<and> k < unat off + length src then src ! (k - unat off) else fbyte (bview s) (inodes s ip) k)) \<and>
       (\<forall>a. (\<forall>bn. bn * BSIZE < unat (i_size (inodes s ip)) \<longrightarrow> a \<noteq> baddr (bview s) (inodes s ip) bn) \<longrightarrow> bview t a = bview s a) \<and>
       outcome {''bget: no buffers''} (readi dv ip off (of_nat (length src)) t) (\<lambda>(r, bs, u). bs = src))"
proof -
  let ?z = "i_size (inodes s ip)" and ?n = "of_nat (length src) :: u32"
  have z: "unat ?z < 2 ^ 32" using unsigned_less [of ?z, where 'a = nat] by simp
  have n: "unat ?n = length src" using assms(3) z by (simp add: unat_of_nat)
  have on: "unat (off + ?n) = unat off + length src" using n assms(3) z by (simp add: unat_word_ariths)
  have c: "\<not> off > ?z" "\<not> off + ?n < off" "\<not> off + ?n > ?z" using on assms(3) by (simp_all add: word_less_nat_alt)
  have "unat ?z \<le> MAXFILE * BSIZE"
  proof (rule ccontr)
    assume "\<not> ?thesis"
    then have "MAXFILE * BSIZE < unat ?z" by simp
    moreover have "\<forall>bn. bn * BSIZE < unat ?z \<longrightarrow> bn < MAXFILE" using assms(1) by (simp add: owned_def mapped_def)
    ultimately show False by blast
  qed
  then have m: "\<not> off + ?n > of_nat (MAXFILE * BSIZE)"
    using on assms(3) by (simp add: word_less_nat_alt MAXFILE_def NINDIRECT_def NDIRECT_def BSIZE_def)
  have e: "writei dv ip src off s = bindr (writei_loop ip (unat off) src s) (\<lambda>s.
      bindr (if ?n > 0 \<and> off + ?n > i_size (inodes s ip) then iupdate ip (set_inode ip (\<lambda>x. x\<lparr>i_size := off + ?n\<rparr>) s) else Ok s) (\<lambda>s.
      Ok (uint ?n, s)))"
    using assms(2) c m by (simp add: writei_def Let_def del: of_nat_mult)
  show ?thesis unfolding e
  proof (subst outcome_bindr, rule outcome_post [OF writei_loop_spec [OF assms(1,3)]])
    fix t
    assume "overwritten ip (unat ?z) (unat off) src s t"
    then obtain V where V: "fs_step s t V (held s)" "\<And>bn. baddr V (inodes s ip) bn = baddr (bview s) (inodes s ip) bn"
      and b: "\<And>k. k < unat ?z \<Longrightarrow> fbyte V (inodes s ip) k = (if unat off \<le> k \<and> k < unat off + length src then src ! (k - unat off) else fbyte (bview s) (inodes s ip) k)"
      and o: "\<And>a. (\<forall>bn. bn * BSIZE < unat ?z \<longrightarrow> a \<noteq> baddr (bview s) (inodes s ip) bn) \<Longrightarrow> V a = bview s a"
      unfolding overwritten_def by auto
    note T = logged.step_to [OF V(1)] and M = fs_step_more [OF V(1)]
    have "mapped t ip (unat (i_size (inodes t ip)))" using owned_step [OF assms(1) V] M by (simp add: owned_def)
    moreover have "i_type (inodes t ip) \<noteq> T_DEV" using assms(2) M by simp
    ultimately have rd: "outcome {''bget: no buffers''} (readi dv ip off ?n t) (\<lambda>(r, bs, u). bs = src)"
    proof (rule outcome_post [OF readi_bytes], clarify)
      fix r bs u
      assume a: "if i_size (inodes t ip) < off \<or> 2 ^ 32 \<le> unat off + unat ?n then r = -1 \<and> bs = [] \<and> u = t
        else r = int (length bs) \<and> fs_step t u (bview t) (held t) \<and>
          bs = map (fbyte (bview t) (inodes t ip)) [unat off..<min (unat off + unat ?n) (unat (i_size (inodes t ip)))]"
      have "bs = map (fbyte V (inodes s ip)) [unat off..<unat off + length src]"
        using a c(1) z assms(3) M T by (simp add: n min_def split: if_splits)
      also have "\<dots> = src" by (rule nth_equalityI) (use b assms(3) in auto)
      finally show "bs = src" .
    qed
    have "disk t = disk s" using V(1) by (simp add: fs_step_def)
    then show "outcome {''bget: no buffers'', ''too big a transaction''}
        (bindr (if ?n > 0 \<and> off + ?n > i_size (inodes t ip) then iupdate ip (set_inode ip (\<lambda>x. x\<lparr>i_size := off + ?n\<rparr>) t) else Ok t) (\<lambda>s. Ok (uint ?n, s)))
      (\<lambda>(r, t). r = int (length src) \<and> inodes t = inodes s \<and> held t = held s \<and> disk t = disk s \<and>
       (\<forall>k < unat ?z. fbyte (bview t) (inodes t ip) k =
         (if unat off \<le> k \<and> k < unat off + length src then src ! (k - unat off) else fbyte (bview s) (inodes s ip) k)) \<and>
       (\<forall>a. (\<forall>bn. bn * BSIZE < unat ?z \<longrightarrow> a \<noteq> baddr (bview s) (inodes s ip) bn) \<longrightarrow> bview t a = bview s a) \<and>
       outcome {''bget: no buffers''} (readi dv ip off ?n t) (\<lambda>(r, bs, u). bs = src))"
      using T M c(3) b o rd n by (simp add: uint_nat)
  qed
qed

theorem writei_correct_witness:
  "outcome {''bget: no buffers'', ''too big a transaction''} (writei dev0 0 [1, 2, 3] 5 boot_fs)
    (\<lambda>(r, t). r = 3 \<and> outcome {''bget: no buffers''} (readi dev0 0 5 3 t) (\<lambda>(r, bs, u). bs = [1, 2, 3]))"
proof -
  have o: "owned boot_fs 0 (unat (i_size (inodes boot_fs 0)))" using boot_fs_file by simp
  show ?thesis
    by (rule outcome_post [OF writei_correct [OF o]]) (auto simp: boot_fs_file T_FILE_def T_DEV_def)
qed

section \<open>Inodes on disk\<close>

lemma put_addrs:
  fixes f :: "nat \<Rightarrow> u32"
  assumes "j + 12 + 4 * n \<le> length d"
  defines "e \<equiv> fold (\<lambda>i d. put32 d (j + 12 + 4 * i) (f i)) [0..<n] d"
  shows "length e = length d \<and> (\<forall>k. k < j + 12 \<or> j + 12 + 4 * n \<le> k \<longrightarrow> e ! k = d ! k) \<and>
    (\<forall>i<n. get32 e (j + 12 + 4 * i) = f i)"
  using assms(1) unfolding e_def
proof (induction n)
  case (Suc n)
  let ?d = "fold (\<lambda>i d. put32 d (j + 12 + 4 * i) (f i)) [0..<n] d"
  have d: "length ?d = length d" "\<forall>k. k < j + 12 \<or> j + 12 + 4 * n \<le> k \<longrightarrow> ?d ! k = d ! k" "\<forall>i<n. get32 ?d (j + 12 + 4 * i) = f i"
    using Suc.IH Suc.prems by simp_all
  have "get32 (put32 ?d (j + 12 + 4 * n) (f n)) (j + 12 + 4 * i) = f i" if "i < Suc n" for i
    using that d Suc.prems by (cases "i = n") simp_all
  then show ?case using d by simp
qed simp

text \<open>The inode fields that are kept on disk.\<close>

definition same_dinode :: "inode \<Rightarrow> inode \<Rightarrow> bool" where
  "same_dinode x y \<longleftrightarrow> i_type x = i_type y \<and> i_major x = i_major y \<and> i_minor x = i_minor y \<and> i_nlink x = i_nlink y \<and>
     i_size x = i_size y \<and> i_addrs x = i_addrs y"

lemma dinode_stored:
  assumes "j + 64 \<le> length d" "length (i_addrs x) = NDIRECT + 1"
  shows "length (store_dinode x d j) = length d"
    and "same_dinode (load_dinode (store_dinode x d j) j y) x"
    and "k < j \<or> j + 64 \<le> k \<Longrightarrow> store_dinode x d j ! k = d ! k"
proof -
  let ?d = "put32 (put16 (put16 (put16 (put16 d j (i_type x)) (j + 2) (i_major x)) (j + 4) (i_minor x)) (j + 6) (i_nlink x)) (j + 8) (i_size x)"
  have e: "store_dinode x d j = fold (\<lambda>i d. put32 d (j + 12 + 4 * i) (i_addrs x ! i)) [0..<NDIRECT + 1] ?d"
    by (simp only: store_dinode_def Let_def)
  have l: "j + 12 + 4 * (NDIRECT + 1) \<le> length ?d" using assms(1) by (simp add: NDIRECT_def)
  note p = put_addrs [OF l, where f = "\<lambda>i. i_addrs x ! i", THEN conjunct1]
    put_addrs [OF l, where f = "\<lambda>i. i_addrs x ! i", THEN conjunct2, THEN conjunct1, rule_format]
    put_addrs [OF l, where f = "\<lambda>i. i_addrs x ! i", THEN conjunct2, THEN conjunct2, rule_format]
  show "length (store_dinode x d j) = length d" unfolding e p(1) by simp
  show "store_dinode x d j ! k = d ! k" if "k < j \<or> j + 64 \<le> k"
  proof -
    have "k < j + 12 \<or> j + 12 + 4 * (NDIRECT + 1) \<le> k" using that by (auto simp: NDIRECT_def)
    then show ?thesis unfolding e by (subst p(2)) (use that in auto)
  qed
  have lo: "store_dinode x d j ! k = ?d ! k" if "k < j + 12" for k unfolding e using p(2) [of k] that by simp
  have a: "map (\<lambda>i. get32 (store_dinode x d j) (j + 12 + 4 * i)) [0..<NDIRECT + 1] = i_addrs x"
    unfolding e by (rule nth_equalityI) (use p(3) assms(2) in \<open>simp_all del: upt_Suc\<close>)
  have h: "get16 (store_dinode x d j) (j + i) = get16 ?d (j + i)" if "i < 8" for i
    using that lo [of "j + i"] lo [of "j + i + 1"] by (simp add: get16_def)
  have z: "get32 (store_dinode x d j) (j + 8) = get32 ?d (j + 8)"
    using lo [of "j + 8"] lo [of "j + 8 + 1"] lo [of "j + 8 + 2"] lo [of "j + 8 + 3"] by (simp add: get32_def)
  show "same_dinode (load_dinode (store_dinode x d j) j y) x"
    using h [of 0] h [of 2] h [of 4] h [of 6] z a assms(1) by (simp add: same_dinode_def load_dinode_def)
qed

lemma dinode_off_bound: "dinode_off n + 64 \<le> BSIZE" "dinode_off m \<noteq> dinode_off n \<Longrightarrow> dinode_off m + 64 \<le> dinode_off n \<or> dinode_off n + 64 \<le> dinode_off m"
proof -
  have "unat n mod IPB < 8" by (simp add: IPB_def BSIZE_def)
  then show "dinode_off n + 64 \<le> BSIZE" by (simp add: dinode_off_def BSIZE_def)
  show "dinode_off m + 64 \<le> dinode_off n \<or> dinode_off n + 64 \<le> dinode_off m" if "dinode_off m \<noteq> dinode_off n"
    using that unfolding dinode_off_def by (cases "unat m mod IPB" "unat n mod IPB" rule: linorder_cases) auto
qed

lemma load_dinode_cong: "(\<And>k. j \<le> k \<Longrightarrow> k < j + 64 \<Longrightarrow> d ! k = d' ! k) \<Longrightarrow> load_dinode d j y = load_dinode d' j y"
  by (simp add: load_dinode_def get16_def get32_def NDIRECT_def)

text \<open>
  C0: \<^verbatim>\<open>iupdate\<close> stores an inode so that reading it back, as \<^verbatim>\<open>ilock\<close> does, yields all its fields
  and block addresses; the other inodes in the same block and all other blocks stay as they are.
\<close>

theorem iupdate_correct:
  assumes "log_inv s" "i_dev (inodes s ip) = 1" "length (i_addrs (inodes s ip)) = NDIRECT + 1"
    and "in_tx s (IBLOCK (i_inum (inodes s ip)) (sb s))" "IBLOCK (i_inum (inodes s ip)) (sb s) \<notin> held s"
  shows "outcome {''bget: no buffers'', ''too big a transaction''} (iupdate ip s)
    (\<lambda>t. log_inv t \<and> held t = held s \<and> inodes t = inodes s \<and>
       same_dinode (load_dinode (bview t (IBLOCK (i_inum (inodes s ip)) (sb s))) (dinode_off (i_inum (inodes s ip))) y) (inodes s ip) \<and>
       (\<forall>n. dinode_off n \<noteq> dinode_off (i_inum (inodes s ip)) \<longrightarrow>
         load_dinode (bview t (IBLOCK (i_inum (inodes s ip)) (sb s))) (dinode_off n) y = load_dinode (bview s (IBLOCK (i_inum (inodes s ip)) (sb s))) (dinode_off n) y) \<and>
       (\<forall>a. a \<noteq> IBLOCK (i_inum (inodes s ip)) (sb s) \<longrightarrow> bview t a = bview s a))"
proof -
  let ?B = "IBLOCK (i_inum (inodes s ip)) (sb s)" and ?j = "dinode_off (i_inum (inodes s ip))"
  let ?f = "\<lambda>d. store_dinode (inodes s ip) d ?j"
  have len: "length (?f d) = BSIZE" if "length d = BSIZE" for d
    using dinode_stored(1) [OF _ assms(3), of ?j d] dinode_off_bound(1) that by simp
  have m: "outcome {''bget: no buffers'', ''too big a transaction''} (iupdate ip s)
      (\<lambda>u. fs_step s u ((bview s)(?B := ?f (bview s ?B))) (held s))"
    using logged.modify_block [OF assms(1,4,5) len] assms(2) by (simp add: iupdate_def Let_def cong: bindr_cong)
  show ?thesis
  proof (rule outcome_post [OF m])
    fix t
    assume t: "fs_step s t ((bview s)(?B := ?f (bview s ?B))) (held s)"
    note T = logged.step_to [OF t] and M = fs_step_more [OF t]
    have bl: "?j + 64 \<le> length (bview s ?B)" using dinode_off_bound(1) logged.length_law [OF assms(1)] by simp
    have "load_dinode (?f (bview s ?B)) (dinode_off n) y = load_dinode (bview s ?B) (dinode_off n) y" if "dinode_off n \<noteq> ?j" for n
      by (rule load_dinode_cong, rule dinode_stored(3) [OF bl assms(3)]) (use dinode_off_bound(2) [OF that] in auto)
    then show "log_inv t \<and> held t = held s \<and> inodes t = inodes s \<and>
       same_dinode (load_dinode (bview t (IBLOCK (i_inum (inodes s ip)) (sb s))) (dinode_off (i_inum (inodes s ip))) y) (inodes s ip) \<and>
       (\<forall>n. dinode_off n \<noteq> dinode_off (i_inum (inodes s ip)) \<longrightarrow>
         load_dinode (bview t (IBLOCK (i_inum (inodes s ip)) (sb s))) (dinode_off n) y = load_dinode (bview s (IBLOCK (i_inum (inodes s ip)) (sb s))) (dinode_off n) y) \<and>
       (\<forall>a. a \<noteq> IBLOCK (i_inum (inodes s ip)) (sb s) \<longrightarrow> bview t a = bview s a)"
      using T M dinode_stored(2) [OF bl assms(3)] by simp
  qed
qed

theorem iupdate_correct_witness:
  "outcome {''bget: no buffers'', ''too big a transaction''} (iupdate 0 boot_fs)
    (\<lambda>t. same_dinode (load_dinode (bview t 40) 64 (inodes boot_fs 0)) (inodes boot_fs 0))"
proof -
  have x: "i_dev (inodes boot_fs 0) = 1" "i_inum (inodes boot_fs 0) = 1" "length (i_addrs (inodes boot_fs 0)) = NDIRECT + 1" "sb_inodestart (sb boot_fs) = 40"
    by (simp_all add: boot_fs_def log_st.defs NDIRECT_def)
  have b: "IBLOCK 1 (sb boot_fs) = 40" "dinode_off 1 = 64" by (simp_all add: IBLOCK_def IPB_def BSIZE_def x dinode_off_def)
  have t: "in_tx boot_fs (IBLOCK (i_inum (inodes boot_fs 0)) (sb boot_fs))" "IBLOCK (i_inum (inodes boot_fs 0)) (sb boot_fs) \<notin> held boot_fs"
    using boot_fs_tx by (simp_all add: x b boot_fs_facts)
  show ?thesis
    by (rule outcome_post [OF iupdate_correct [OF boot_fs_facts(1) x(1,3) t]]) (auto simp: x b)
qed

section \<open>Path resolution\<close>

text \<open>\<open>split_on c\<close> cuts a string at every \<open>c\<close>; \<open>walk\<close> resolves a list of path elements.\<close>

fun split_on :: "'c \<Rightarrow> 'c list \<Rightarrow> 'c list list" where
  "split_on c [] = [[]]"
| "split_on c (x # xs) = (if x = c then [] # split_on c xs else case split_on c xs of y # ys \<Rightarrow> (x # y) # ys)"

definition elements :: "u8 list \<Rightarrow> u8 list list" where
  "elements path = map (take DIRSIZ) (filter (\<lambda>x. x \<noteq> []) (split_on slash path))"

fun walk :: "('a fs_st_scheme) devsw \<Rightarrow> bool \<Rightarrow> u8 list list \<Rightarrow> nat \<Rightarrow> u8 list \<Rightarrow> 'a fs_st_scheme \<Rightarrow> ((nat \<times> u8 list) option \<times> 'a fs_st_scheme) res" where
  "walk dv par [] ip name s = (if par then bindr (iput ip s) (\<lambda>s. Ok (None, s)) else Ok (Some (ip, name), s))"
| "walk dv par (n # ns) ip name s =
     bindr (ilock (Some ip) s) (\<lambda>s.
     if i_type (inodes s ip) \<noteq> T_DIR then bindr (iunlockput ip s) (\<lambda>s. Ok (None, s))
     else if par \<and> ns = [] then bindr (iunlock (Some ip) s) (\<lambda>s. Ok (Some (ip, n), s))
     else bindr (dirlookup dv ip n s) (\<lambda>(r, s).
          case r of None \<Rightarrow> bindr (iunlockput ip s) (\<lambda>s. Ok (None, s))
          | Some (next, _) \<Rightarrow> bindr (iunlockput ip s) (walk dv par ns next n)))"

lemma split_on_ne: "split_on c xs \<noteq> []"
  by (induction xs) (auto split: list.splits)

lemma split_drop: "filter (\<lambda>x. x \<noteq> []) (split_on c (dropWhile (\<lambda>x. x = c) xs)) = filter (\<lambda>x. x \<noteq> []) (split_on c xs)"
  by (induction xs) simp_all

lemma split_first:
  "split_on c xs = (case dropWhile (\<lambda>x. x \<noteq> c) xs of [] \<Rightarrow> [takeWhile (\<lambda>x. x \<noteq> c) xs]
     | _ # r \<Rightarrow> takeWhile (\<lambda>x. x \<noteq> c) xs # split_on c r)"
proof (induction xs)
  case (Cons a xs)
  then show ?case by (cases "dropWhile (\<lambda>x. x \<noteq> c) xs") (simp_all del: dropWhile_eq_Nil_conv)
qed simp

lemma elements_skip:
  "elements path = (case skipelem path of None \<Rightarrow> [] | Some (n, rest) \<Rightarrow> n # elements rest)"
proof -
  let ?p = "dropWhile (\<lambda>c. c = slash) path" and ?ne = "filter (\<lambda>x. x \<noteq> [])"
  let ?t = "takeWhile (\<lambda>c. c \<noteq> slash) ?p" and ?r = "dropWhile (\<lambda>c. c \<noteq> slash) ?p"
  have e: "elements path = map (take DIRSIZ) (?ne (split_on slash ?p))" by (simp only: elements_def split_drop)
  show ?thesis
  proof (cases "?p = []")
    case True
    have "skipelem path = None" unfolding skipelem_def Let_def True by simp
    moreover have "elements path = []" unfolding e True by simp
    ultimately show ?thesis by simp
  next
    case False
    have "hd ?p \<noteq> slash" using hd_dropWhile [OF False] .
    then have t: "?t \<noteq> []" using False by (cases ?p) simp_all
    have s: "?ne (split_on slash ?p) = ?t # ?ne (split_on slash (dropWhile (\<lambda>c. c = slash) ?r))"
    proof (cases ?r)
      case Nil
      show ?thesis unfolding split_first [of slash ?p] Nil using t by simp
    next
      case (Cons x r)
      have "x = slash" using hd_dropWhile [of "\<lambda>c. c \<noteq> slash" ?p] Cons by simp
      then show ?thesis unfolding split_first [of slash ?p] Cons split_drop using t by simp
    qed
    have "skipelem path = Some (take DIRSIZ ?t, dropWhile (\<lambda>c. c = slash) ?r)"
      unfolding skipelem_def Let_def using False by (simp only: if_False)
    then show ?thesis unfolding e s by (simp add: elements_def)
  qed
qed

lemma elements_rest_Nil:
  assumes "skipelem path = Some (n, rest)"
  shows "elements rest = [] \<longleftrightarrow> rest = []"
proof -
  obtain q where q: "rest = dropWhile (\<lambda>c. c = slash) q"
    using assms by (auto simp: skipelem_def Let_def simp del: dropWhile_eq_Nil_conv split: if_splits)
  have "skipelem rest \<noteq> None" if "rest \<noteq> []"
  proof -
    have "dropWhile (\<lambda>c. c = slash) rest = rest" unfolding q by (rule dropWhile_idem)
    then show ?thesis using that by (simp add: skipelem_def Let_def)
  qed
  then have "elements rest \<noteq> []" if "rest \<noteq> []" using that elements_skip [of rest] by (auto split: option.splits)
  moreover have "elements [] = []" by (simp add: elements_def)
  ultimately show ?thesis by blast
qed

text \<open>
  C0: \<^verbatim>\<open>namex\<close> resolves a path by its elements, that is, the non-empty parts between slashes, cut to
  \<^verbatim>\<open>DIRSIZ\<close> characters, one after the other from the starting inode; with \<^verbatim>\<open>nameiparent\<close> set it
  stops at the directory of the last element, also when slashes follow that element. The scanner
  \<^verbatim>\<open>skipelem\<close> is equivalent to splitting the path.
\<close>

theorem namex_walks: "namex_loop dv par path ip name s = walk dv par (elements path) ip name s"
proof (induction "length path" arbitrary: path ip name s rule: less_induct)
  case less
  show ?case
  proof (cases "skipelem path")
    case None
    then show ?thesis by (subst namex_loop.simps, subst elements_skip) simp
  next
    case (Some r)
    obtain n rest where r: "r = (n, rest)" by (cases r)
    have ih: "namex_loop dv par rest = walk dv par (elements rest)"
      using less [OF skipelem_shorter] Some r by (simp add: fun_eq_iff)
    show ?thesis
      unfolding namex_loop.simps [of _ _ path] elements_skip [of path] Some r option.case prod.case walk.simps
        ih elements_rest_Nil [OF Some [unfolded r]] ..
  qed
qed

end
