(* ===== verification/Xv6_File.thy ===== *)
theory Xv6_File
  imports Xv6_Fs
begin

text \<open>
  Open files and pipes, \<^verbatim>\<open>file.c\<close> and \<^verbatim>\<open>pipe.c\<close>.

  A file pointer is an index of the file table. A pipe lives in a page of its own; it is kept in
  the map \<open>pipes\<close> from the address of the page to the structure, beside the bytes of memory. Bytes
  that a call copies from or to its caller are a list it takes or returns. A call that has to
  sleep has the result \<open>Blocks\<close>; the interleavings of readers and writers are a step relation on
  the pipe below.
\<close>

section \<open>State\<close>

datatype filetype = FD_NONE | FD_PIPE | FD_INODE

record kfile =
  f_type :: filetype
  f_ref :: int
  f_readable :: bool
  f_writable :: bool
  f_pipe :: addr
  f_ip :: nat
  f_off :: u32

definition PIPESIZE :: nat where "PIPESIZE = 512"

record pipe =
  pdata :: "u8 list"
  nread :: u32
  nwrite :: u32
  readopen :: bool
  writeopen :: bool

record file_st = fs_st +
  ftable :: "nat \<Rightarrow> kfile"
  pipes :: "addr \<Rightarrow> pipe"

definition set_file :: "nat \<Rightarrow> (kfile \<Rightarrow> kfile) \<Rightarrow> 'a file_st_scheme \<Rightarrow> 'a file_st_scheme" where
  "set_file f g s = s\<lparr>ftable := (ftable s)(f := g (ftable s f))\<rparr>"

definition set_pipe :: "addr \<Rightarrow> (pipe \<Rightarrow> pipe) \<Rightarrow> 'a file_st_scheme \<Rightarrow> 'a file_st_scheme" where
  "set_pipe p g s = s\<lparr>pipes := (pipes s)(p := g (pipes s p))\<rparr>"

definition am_killed :: "'a proc_st_scheme \<Rightarrow> (bool \<times> 'a proc_st_scheme) res" where
  "am_killed s = bindr (myproc s) (\<lambda>(p, s). Ok (killed (procs s ! the p), s))"

section \<open>Pipes\<close>

definition pipeclose :: "addr \<Rightarrow> bool \<Rightarrow> 'a file_st_scheme \<Rightarrow> 'a file_st_scheme res" where
  "pipeclose p writable s =
     bindr (acquire (PipeLock p) s) (\<lambda>s.
     bindr (if writable then wakeup (ChPipeRead p) (set_pipe p (\<lambda>x. x\<lparr>writeopen := False\<rparr>) s)
            else wakeup (ChPipeWrite p) (set_pipe p (\<lambda>x. x\<lparr>readopen := False\<rparr>) s)) (\<lambda>s.
     if \<not> readopen (pipes s p) \<and> \<not> writeopen (pipes s p)
     then bindr (release (PipeLock p) s) (kfree p)
     else release (PipeLock p) s))"

definition pfull :: "pipe \<Rightarrow> bool" where "pfull x \<longleftrightarrow> nwrite x = nread x + of_nat PIPESIZE"
definition pempty :: "pipe \<Rightarrow> bool" where "pempty x \<longleftrightarrow> nread x = nwrite x"

definition pput :: "u8 \<Rightarrow> pipe \<Rightarrow> pipe" where
  "pput b x = x\<lparr>pdata := (pdata x)[unat (nwrite x) mod PIPESIZE := b], nwrite := nwrite x + 1\<rparr>"

definition pget :: "pipe \<Rightarrow> u8" where "pget x = pdata x ! (unat (nread x) mod PIPESIZE)"

text \<open>The copying loops: \<open>fill\<close> stops at a full pipe with the bytes left, \<open>drain\<close> at an empty one.\<close>

fun fill :: "pipe \<Rightarrow> u8 list \<Rightarrow> pipe \<times> u8 list" where
  "fill x [] = (x, [])"
| "fill x (b # bs) = (if pfull x then (x, b # bs) else fill (pput b x) bs)"

fun drain :: "pipe \<Rightarrow> nat \<Rightarrow> u8 list \<times> pipe" where
  "drain x 0 = ([], x)"
| "drain x (Suc n) =
     (if pempty x then ([], x)
      else let (bs, x') = drain (x\<lparr>nread := nread x + 1\<rparr>) n in (pget x # bs, x'))"

definition pipewrite :: "addr \<Rightarrow> u8 list \<Rightarrow> 'a file_st_scheme \<Rightarrow> (int \<times> 'a file_st_scheme) res" where
  "pipewrite p src s =
     bindr (acquire (PipeLock p) s) (\<lambda>s.
     let (x, rest) = fill (pipes s p) src;
         s = set_pipe p (\<lambda>_. x) s
     in if rest = [] then
          bindr (wakeup (ChPipeRead p) s) (\<lambda>s.
          bindr (release (PipeLock p) s) (\<lambda>s. Ok (int (length src), s)))
        else if \<not> readopen x then bindr (release (PipeLock p) s) (\<lambda>s. Ok (-1, s))
        else bindr (am_killed s) (\<lambda>(k, s).
             if k then bindr (release (PipeLock p) s) (\<lambda>s. Ok (-1, s))
             else bindr (wakeup (ChPipeRead p) s) (\<lambda>s. Blocks)))"

definition piperead :: "addr \<Rightarrow> int \<Rightarrow> 'a file_st_scheme \<Rightarrow> (int \<times> u8 list \<times> 'a file_st_scheme) res" where
  "piperead p n s =
     bindr (acquire (PipeLock p) s) (\<lambda>s.
     if pempty (pipes s p) \<and> writeopen (pipes s p) then
       bindr (am_killed s) (\<lambda>(k, s).
       if k then bindr (release (PipeLock p) s) (\<lambda>s. Ok (-1, [], s)) else Blocks)
     else let (bs, x) = drain (pipes s p) (nat n);
              s = set_pipe p (\<lambda>_. x) s
          in bindr (wakeup (ChPipeWrite p) s) (\<lambda>s.
             bindr (release (PipeLock p) s) (\<lambda>s. Ok (int (length bs), bs, s))))"

section \<open>Files\<close>

definition fileinit :: "'a file_st_scheme \<Rightarrow> 'a file_st_scheme" where
  "fileinit s = initlock FtableLock s"

definition filealloc :: "'a file_st_scheme \<Rightarrow> (nat option \<times> 'a file_st_scheme) res" where
  "filealloc s =
     bindr (acquire FtableLock s) (\<lambda>s.
     case find (\<lambda>f. f_ref (ftable s f) = 0) [0..<NFILE] of
       Some f \<Rightarrow>
         let s = set_file f (\<lambda>x. x\<lparr>f_ref := 1\<rparr>) s
         in bindr (release FtableLock s) (\<lambda>s. Ok (Some f, s))
     | None \<Rightarrow> bindr (release FtableLock s) (\<lambda>s. Ok (None, s)))"

definition filedup :: "nat \<Rightarrow> 'a file_st_scheme \<Rightarrow> (nat \<times> 'a file_st_scheme) res" where
  "filedup f s =
     bindr (acquire FtableLock s) (\<lambda>s.
     if f_ref (ftable s f) < 1 then Panic ''filedup''
     else let s = set_file f (\<lambda>x. x\<lparr>f_ref := f_ref x + 1\<rparr>) s
          in bindr (release FtableLock s) (\<lambda>s. Ok (f, s)))"

definition fileclose :: "nat \<Rightarrow> 'a file_st_scheme \<Rightarrow> 'a file_st_scheme res" where
  "fileclose f s =
     bindr (acquire FtableLock s) (\<lambda>s.
     if f_ref (ftable s f) < 1 then Panic ''fileclose''
     else let s = set_file f (\<lambda>x. x\<lparr>f_ref := f_ref x - 1\<rparr>) s
          in if f_ref (ftable s f) > 0 then release FtableLock s
             else let ff = ftable s f;
                      s = set_file f (\<lambda>x. x\<lparr>f_ref := 0, f_type := FD_NONE\<rparr>) s
                  in bindr (release FtableLock s) (\<lambda>s.
                     if f_type ff = FD_PIPE then pipeclose (f_pipe ff) (f_writable ff) s
                     else if f_type ff = FD_INODE then
                       bindr (begin_op s) (\<lambda>s.
                       bindr (iput (f_ip ff) s) end_op)
                     else Ok s))"

definition pipe_bad :: "addr \<Rightarrow> nat option \<Rightarrow> nat option \<Rightarrow> 'a file_st_scheme \<Rightarrow> ((nat \<times> nat) option \<times> 'a file_st_scheme) res" where
  "pipe_bad p f0 f1 s =
     bindr (if p \<noteq> 0 then kfree p s else Ok s) (\<lambda>s.
     bindr (case f0 of Some f \<Rightarrow> fileclose f s | None \<Rightarrow> Ok s) (\<lambda>s.
     bindr (case f1 of Some f \<Rightarrow> fileclose f s | None \<Rightarrow> Ok s) (\<lambda>s.
     Ok (None, s))))"

definition pipealloc :: "'a file_st_scheme \<Rightarrow> ((nat \<times> nat) option \<times> 'a file_st_scheme) res" where
  "pipealloc s =
     bindr (filealloc s) (\<lambda>(f0, s).
     case f0 of None \<Rightarrow> pipe_bad 0 None None s
     | Some a \<Rightarrow>
       bindr (filealloc s) (\<lambda>(f1, s).
       case f1 of None \<Rightarrow> pipe_bad 0 (Some a) None s
       | Some b \<Rightarrow>
         bindr (kalloc s) (\<lambda>(p, s).
         if p = 0 then pipe_bad 0 (Some a) (Some b) s
         else let s = set_pipe p (\<lambda>x. x\<lparr>readopen := True, writeopen := True, nwrite := 0, nread := 0\<rparr>) s;
                  s = initlock (PipeLock p) s;
                  s = set_file a (\<lambda>x. x\<lparr>f_type := FD_PIPE, f_readable := True, f_writable := False, f_pipe := p\<rparr>) s;
                  s = set_file b (\<lambda>x. x\<lparr>f_type := FD_PIPE, f_readable := False, f_writable := True, f_pipe := p\<rparr>) s
              in Ok (Some (a, b), s))))"

definition filestat :: "nat \<Rightarrow> 'a file_st_scheme \<Rightarrow> (stat option \<times> 'a file_st_scheme) res" where
  "filestat f s =
     (let x = ftable s f
      in if f_type x = FD_INODE then
           bindr (ilock (Some (f_ip x)) s) (\<lambda>s.
           let st = stati (f_ip x) s
           in bindr (iunlock (Some (f_ip x)) s) (\<lambda>s. Ok (Some st, s)))
         else Ok (None, s))"

definition fileread :: "('a file_st_scheme) devsw \<Rightarrow> nat \<Rightarrow> int \<Rightarrow> 'a file_st_scheme \<Rightarrow> (int \<times> u8 list \<times> 'a file_st_scheme) res" where
  "fileread dv f n s =
     (let x = ftable s f
      in if \<not> f_readable x then Ok (-1, [], s)
         else if f_type x = FD_PIPE then piperead (f_pipe x) n s
         else if f_type x = FD_INODE then
           bindr (ilock (Some (f_ip x)) s) (\<lambda>s.
           bindr (readi dv (f_ip x) (f_off (ftable s f)) (word_of_int n) s) (\<lambda>(r, bs, s).
           let s = (if r > 0 then set_file f (\<lambda>x. x\<lparr>f_off := f_off x + word_of_int r\<rparr>) s else s)
           in bindr (iunlock (Some (f_ip x)) s) (\<lambda>s. Ok (r, bs, s))))
         else Panic ''fileread'')"

definition max_write :: nat where "max_write = ((MAXOPBLOCKS - 1 - 1 - 2) div 2) * 512"

text \<open>The loop of \<^verbatim>\<open>filewrite\<close>: one transaction per chunk; the result tells whether everything was written.\<close>

function filewrite_loop :: "('a file_st_scheme) devsw \<Rightarrow> nat \<Rightarrow> u8 list \<Rightarrow> 'a file_st_scheme \<Rightarrow> (bool \<times> 'a file_st_scheme) res" where
  "filewrite_loop dv f src s =
     (if src = [] then Ok (True, s)
      else let n1 = min (length src) max_write; ip = f_ip (ftable s f)
           in bindr (begin_op s) (\<lambda>s.
              bindr (ilock (Some ip) s) (\<lambda>s.
              bindr (writei dv ip (take n1 src) (f_off (ftable s f)) s) (\<lambda>(r, s).
              let s = (if r > 0 then set_file f (\<lambda>x. x\<lparr>f_off := f_off x + word_of_int r\<rparr>) s else s)
              in bindr (iunlock (Some ip) s) (\<lambda>s.
                 bindr (end_op s) (\<lambda>s.
                 if r < 0 then Ok (False, s)
                 else if r \<noteq> int n1 then Panic ''short filewrite''
                 else filewrite_loop dv f (drop n1 src) s))))))"
  by pat_completeness auto
termination
  by (relation "measure (\<lambda>(dv, f, src, s). length src)") (simp_all add: max_write_def MAXOPBLOCKS_def)

declare filewrite_loop.simps [simp del]

definition filewrite :: "('a file_st_scheme) devsw \<Rightarrow> nat \<Rightarrow> u8 list \<Rightarrow> 'a file_st_scheme \<Rightarrow> (int \<times> 'a file_st_scheme) res" where
  "filewrite dv f src s =
     (let x = ftable s f
      in if \<not> f_writable x then Ok (-1, s)
         else if f_type x = FD_PIPE then pipewrite (f_pipe x) src s
         else if f_type x = FD_INODE then
           bindr (filewrite_loop dv f src s) (\<lambda>(ok, s). Ok (if ok then int (length src) else -1, s))
         else Panic ''filewrite'')"

section \<open>Interleavings of readers and writers\<close>

text \<open>
  Between two sleeps a writer copies what fits and a reader takes what is there, each with the
  pipe's lock held. \<open>pstep\<close> are these activations in any order, on the pipe with the bytes
  written and the bytes read so far.
\<close>

inductive pstep :: "pipe \<times> u8 list \<times> u8 list \<Rightarrow> pipe \<times> u8 list \<times> u8 list \<Rightarrow> bool" where
  wr: "fill x src = (x', rest) \<Longrightarrow> pstep (x, w, r) (x', w @ take (length src - length rest) src, r)"
| rd: "drain x n = (bs, x') \<Longrightarrow> pstep (x, w, r) (x', w, r @ bs)"

text \<open>The bytes in the pipe, in order.\<close>

definition contents :: "pipe \<Rightarrow> u8 list" where
  "contents x = map (\<lambda>k. pdata x ! (unat (nread x + of_nat k) mod PIPESIZE)) [0..<unat (nwrite x - nread x)]"

definition pipe_inv :: "pipe \<Rightarrow> bool" where
  "pipe_inv x \<longleftrightarrow> length (pdata x) = PIPESIZE \<and> unat (nwrite x - nread x) \<le> PIPESIZE"

lemma wrap_mod: "unat (a + of_nat k :: u32) mod PIPESIZE = (unat a + k) mod PIPESIZE"
proof -
  have "unat (a + of_nat k :: u32) = (unat a + k) mod 2 ^ 32"
    by (simp add: unat_word_ariths unat_of_nat mod_add_right_eq)
  moreover have "PIPESIZE dvd 2 ^ 32" by (simp add: PIPESIZE_def)
  ultimately show ?thesis by (simp add: mod_mod_cancel)
qed

lemma nwrite_eq: "nwrite x = nread x + of_nat (unat (nwrite x - nread x))"
  by simp

lemma pfull_iff: "pfull x \<longleftrightarrow> unat (nwrite x - nread x) = PIPESIZE"
proof -
  have "unat (of_nat PIPESIZE :: u32) = PIPESIZE" by (simp add: PIPESIZE_def)
  moreover have "pfull x \<longleftrightarrow> nwrite x - nread x = of_nat PIPESIZE" by (auto simp: pfull_def algebra_simps)
  ultimately show ?thesis by (metis unsigned_word_eqI)
qed

lemma pempty_iff: "pempty x \<longleftrightarrow> unat (nwrite x - nread x) = 0"
  by (auto simp: pempty_def unat_eq_0)

lemma mod_far: "i < PIPESIZE \<Longrightarrow> 0 < i \<Longrightarrow> (a + (k + i)) mod PIPESIZE \<noteq> (a + k) mod PIPESIZE"
proof
  assume i: "i < PIPESIZE" "0 < i" and "(a + (k + i)) mod PIPESIZE = (a + k) mod PIPESIZE"
  then have "((a + k) + i) mod PIPESIZE = (a + k) mod PIPESIZE" by (simp add: add.assoc)
  then have "i mod PIPESIZE = 0" by (metis add_diff_cancel_left' le_add1 mod_eq_dvd_iff_nat mod_eq_0_iff_dvd)
  then show False using i by simp
qed

lemma pput_contents:
  assumes "pipe_inv x" "\<not> pfull x"
  shows "pipe_inv (pput b x) \<and> contents (pput b x) = contents x @ [b]"
proof -
  let ?c = "unat (nwrite x - nread x)"
  have c: "?c < PIPESIZE" using assms by (simp add: pipe_inv_def pfull_iff)
  have c': "unat (nwrite x + 1 - nread x) = ?c + 1"
  proof -
    have "nwrite x + 1 - nread x = (nwrite x - nread x) + 1" by simp
    moreover have "unat ((nwrite x - nread x) + 1) = ?c + 1" using c by (simp add: unat_word_ariths PIPESIZE_def)
    ultimately show ?thesis by (simp only:)
  qed
  have w: "unat (nwrite x) mod PIPESIZE = (unat (nread x) + ?c) mod PIPESIZE" using wrap_mod [of "nread x" ?c] by simp
  have old: "(pdata x)[unat (nwrite x) mod PIPESIZE := b] ! (unat (nread x + of_nat k) mod PIPESIZE) =
      pdata x ! (unat (nread x + of_nat k) mod PIPESIZE)" if "k < ?c" for k
  proof -
    have "(unat (nread x) + (k + (?c - k))) mod PIPESIZE \<noteq> (unat (nread x) + k) mod PIPESIZE"
      by (rule mod_far) (use that c in auto)
    then show ?thesis unfolding w wrap_mod using that by simp
  qed
  have "unat (nwrite x) mod PIPESIZE < length (pdata x)" using assms(1) by (simp add: pipe_inv_def PIPESIZE_def)
  then have "contents (pput b x) = contents x @ [b]"
    using old by (simp add: contents_def pput_def c')
  then show ?thesis using assms(1) c c' by (simp add: pipe_inv_def pput_def)
qed

lemma pget_contents:
  assumes "pipe_inv x" "\<not> pempty x"
  shows "pipe_inv (x\<lparr>nread := nread x + 1\<rparr>) \<and> contents x = pget x # contents (x\<lparr>nread := nread x + 1\<rparr>)"
proof -
  let ?c = "unat (nwrite x - nread x)"
  have c: "0 < ?c" "?c \<le> PIPESIZE" using assms by (auto simp: pipe_inv_def pempty_iff)
  have c': "unat (nwrite x - (nread x + 1)) = ?c - 1"
  proof -
    have "nwrite x - (nread x + 1) = (nwrite x - nread x) - 1" by simp
    moreover have "unat ((nwrite x - nread x) - 1) = ?c - 1" using c by (simp add: unat_sub_if' word_le_nat_alt)
    ultimately show ?thesis by (simp only:)
  qed
  have "[0..<?c] = 0 # map Suc [0..<?c - 1]" using c(1) by (simp add: upt_conv_Cons map_Suc_upt)
  then have "contents x = pget x # contents (x\<lparr>nread := nread x + 1\<rparr>)"
    by (simp add: contents_def pget_def c' add.assoc)
  then show ?thesis using assms(1) c c' by (simp add: pipe_inv_def)
qed

lemma fill_contents:
  assumes "pipe_inv x" "fill x src = (x', rest)"
  shows "pipe_inv x' \<and> (\<exists>done. src = done @ rest \<and> contents x' = contents x @ done \<and> (rest \<noteq> [] \<longrightarrow> pfull x'))"
  using assms
proof (induction src arbitrary: x)
  case (Cons b bs)
  show ?case
  proof (cases "pfull x")
    case False
    note P = pput_contents [OF Cons.prems(1) False]
    then have "fill (pput b x) bs = (x', rest)" using Cons.prems(2) False by simp
    from Cons.IH [OF _ this] P obtain dn where "bs = dn @ rest" "contents x' = contents (pput b x) @ dn" "pipe_inv x'"
      "rest \<noteq> [] \<longrightarrow> pfull x'" by auto
    then show ?thesis using P by (auto intro!: exI [of _ "b # dn"])
  qed (use Cons.prems in auto)
qed auto

lemma drain_contents:
  assumes "pipe_inv x" "drain x n = (bs, x')"
  shows "pipe_inv x' \<and> contents x = bs @ contents x' \<and> length bs = min n (length (contents x))"
  using assms
proof (induction n arbitrary: x bs)
  case (Suc n)
  show ?case
  proof (cases "pempty x")
    case True
    then have "contents x = []" by (simp add: contents_def pempty_iff)
    then show ?thesis using Suc.prems True by simp
  next
    case False
    define y where "y = x\<lparr>nread := nread x + 1\<rparr>"
    have P: "pipe_inv y" "contents x = pget x # contents y"
      using pget_contents [OF Suc.prems(1) False] unfolding y_def by blast+
    obtain bs' x2 where d: "drain y n = (bs', x2)" by (cases "drain y n")
    then have e: "bs = pget x # bs'" "x2 = x'" using Suc.prems(2) False by (simp_all add: y_def)
    have r: "pipe_inv x' \<and> contents y = bs' @ contents x' \<and> length bs' = min n (length (contents y))"
      by (rule Suc.IH [OF P(1)]) (use d e in simp)
    have "length bs = min (Suc n) (length (contents x))" using r unfolding P(2) e(1) by (simp only: length_Cons min_Suc_Suc)
    moreover have "contents x = bs @ contents x'" using r unfolding P(2) e(1) by (simp only: append_Cons)
    ultimately show ?thesis using r by blast
  qed
qed simp

lemma pstep_inv:
  assumes "pstep (x, w, r) (x', w', r')" "pipe_inv x" "w = r @ contents x"
  shows "pipe_inv x' \<and> w' = r' @ contents x'"
  using assms(1)
proof (cases rule: pstep.cases)
  case (wr src rest)
  from fill_contents [OF assms(2) wr(3)] obtain dn where "src = dn @ rest" "contents x' = contents x @ dn" "pipe_inv x'" by blast
  then show ?thesis using wr assms(3) by simp
next
  case (rd n bs)
  then show ?thesis using drain_contents [OF assms(2) rd(3)] assms(3) by simp
qed

definition new_pipe :: pipe where
  "new_pipe = \<lparr>pdata = replicate PIPESIZE 0, nread = 0, nwrite = 0, readopen = True, writeopen = True\<rparr>"

lemma pstep_reach:
  assumes "pstep\<^sup>*\<^sup>* (x, [], []) t" "pipe_inv x" "pempty x"
  shows "\<exists>x' w r. t = (x', w, r) \<and> pipe_inv x' \<and> w = r @ contents x'"
  using assms(1)
proof (induction rule: rtranclp_induct)
  case base
  then show ?case using assms(2,3) by (simp add: contents_def pempty_iff)
next
  case (step t u)
  then obtain x' w r where "t = (x', w, r)" "pipe_inv x'" "w = r @ contents x'" by blast
  then show ?case using step(2) pstep_inv by (cases u) blast
qed

section \<open>Properties\<close>

text \<open>
  C5: a pipe is a bounded FIFO queue. In every interleaving of the copying turns of any readers and
  writers, starting with an empty pipe whose counters may be anywhere and wrap around, what has
  been read is a prefix of what has been written, and the rest, at most \<^verbatim>\<open>PIPESIZE\<close> bytes, is in
  the pipe in order: no byte is lost, duplicated or reordered.
\<close>

theorem pipe_fifo:
  assumes "pstep\<^sup>*\<^sup>* (x, [], []) (x', w, r)" "length (pdata x) = PIPESIZE" "nread x = nwrite x"
  shows "w = r @ contents x' \<and> length (contents x') \<le> PIPESIZE"
proof -
  have "pipe_inv x" "pempty x" using assms(2,3) by (simp_all add: pipe_inv_def pempty_def)
  from pstep_reach [OF assms(1) this] show ?thesis by (auto simp: contents_def pipe_inv_def)
qed

theorem pipe_fifo_witness:
  "\<exists>x'. pstep\<^sup>*\<^sup>* (new_pipe\<lparr>nread := - 1, nwrite := - 1\<rparr>, [], []) (x', [1, 2, 3], [1, 2]) \<and> contents x' = [3]"
proof -
  let ?x = "new_pipe\<lparr>nread := - 1, nwrite := - 1\<rparr>"
  obtain x1 rest where f: "fill ?x [1, 2, 3] = (x1, rest)" by (cases "fill ?x [1, 2, 3]")
  have i: "pipe_inv ?x" "pempty ?x" by (simp_all add: pipe_inv_def new_pipe_def pempty_def)
  then have c: "contents ?x = []" by (simp add: contents_def)
  from fill_contents [OF i(1) f] obtain dn where dn: "[1, 2, 3] = dn @ rest" "contents x1 = dn" "rest \<noteq> [] \<longrightarrow> pfull x1" "pipe_inv x1"
    using c by auto
  have "length dn \<le> 3" using arg_cong [OF dn(1), of length] by simp
  then have "\<not> pfull x1" using dn(2) by (auto simp: pfull_iff contents_def PIPESIZE_def)
  then have r: "rest = []" "dn = [1, 2, 3]" using dn(1,3) by auto
  obtain bs x2 where d: "drain x1 2 = (bs, x2)" by (cases "drain x1 2")
  from drain_contents [OF dn(4) d] have bs: "bs = [1, 2]" using dn(2) r(2)
    by (auto simp: append_eq_Cons_conv min_def length_Suc_conv numeral_2_eq_2)
  have "pstep (?x, [], []) (x1, [] @ take (length [1, 2, 3 :: u8] - length rest) [1, 2, 3], [])" by (rule pstep.wr [OF f])
  moreover have "pstep (x1, [1, 2, 3], []) (x2, [1, 2, 3], [] @ bs)" by (rule pstep.rd [OF d])
  ultimately have st: "pstep\<^sup>*\<^sup>* (?x, [], []) (x2, [1, 2, 3], [1, 2])"
    using r bs by (simp add: converse_rtranclp_into_rtranclp)
  then have "[1, 2, 3] = [1, 2] @ contents x2 \<and> length (contents x2) \<le> PIPESIZE"
    by (rule pipe_fifo) (simp_all add: new_pipe_def)
  then show ?thesis using st by auto
qed

end
