(* ===== verification/Xv6_Vm.thy ===== *)
theory Xv6_Vm
  imports Xv6_Proc
begin

text \<open>
  Virtual memory, \<^verbatim>\<open>vm.c\<close>: two-level page tables kept in physical memory pages, their
  construction, copying and release, and the translation of user addresses.

  Pointers to page directories and page-table entries are kernel addresses; 0 is the null
  pointer. \<^verbatim>\<open>data\<close>, the address the linker gives the kernel's data, is an argument. Loops that walk
  the address space page by page take fuel: an address space has \<open>2\<^sup>20\<close> pages.
\<close>

section \<open>Page-table entries\<close>

definition PTE_P :: u32 where "PTE_P = 1"
definition PTE_W :: u32 where "PTE_W = 2"
definition PTE_U :: u32 where "PTE_U = 4"
definition PTE_ADDR :: "u32 \<Rightarrow> u32" where "PTE_ADDR pte = pte AND NOT 0xFFF"
definition PTE_FLAGS :: "u32 \<Rightarrow> u32" where "PTE_FLAGS pte = pte AND 0xFFF"
definition PDX :: "addr \<Rightarrow> u32" where "PDX va = drop_bit 22 va AND 0x3FF"
definition PTX :: "addr \<Rightarrow> u32" where "PTX va = drop_bit 12 va AND 0x3FF"
definition PGADDR :: "u32 \<Rightarrow> u32 \<Rightarrow> u32 \<Rightarrow> addr" where
  "PGADDR d t o' = push_bit 22 d OR push_bit 12 t OR o'"
definition NPDENTRIES :: nat where "NPDENTRIES = 1024"
definition NPAGES :: nat where "NPAGES = 2 ^ 20"

definition ld :: "'a kmem_st_scheme \<Rightarrow> addr \<Rightarrow> u32" where "ld s a = load32 (mem s) a"
definition st :: "addr \<Rightarrow> u32 \<Rightarrow> 'a kmem_st_scheme \<Rightarrow> 'a kmem_st_scheme" where
  "st a v s = s\<lparr>mem := store32 (mem s) a v\<rparr>"

section \<open>Walking and mapping\<close>

definition walkpgdir :: "addr \<Rightarrow> addr \<Rightarrow> bool \<Rightarrow> 'a kmem_st_scheme \<Rightarrow> (addr \<times> 'a kmem_st_scheme) res" where
  "walkpgdir pd va alloc s =
     (let pde = pd + 4 * PDX va
      in if ld s pde AND PTE_P \<noteq> 0 then Ok (P2V (PTE_ADDR (ld s pde)) + 4 * PTX va, s)
         else if \<not> alloc then Ok (0, s)
         else bindr (kalloc s) (\<lambda>(pgtab, s).
              if pgtab = 0 then Ok (0, s)
              else let s = s\<lparr>mem := memset (mem s) pgtab 0 PGSIZE\<rparr>;
                       s = st pde (V2P pgtab OR PTE_P OR PTE_W OR PTE_U) s
                   in Ok (pgtab + 4 * PTX va, s)))"

fun mappages_loop :: "nat \<Rightarrow> addr \<Rightarrow> addr \<Rightarrow> addr \<Rightarrow> u32 \<Rightarrow> u32 \<Rightarrow> 'a kmem_st_scheme \<Rightarrow> (int \<times> 'a kmem_st_scheme) res" where
  "mappages_loop 0 pd a la pa perm s = Blocks"
| "mappages_loop (Suc k) pd a la pa perm s =
     bindr (walkpgdir pd a True s) (\<lambda>(pte, s).
     if pte = 0 then Ok (-1, s)
     else if ld s pte AND PTE_P \<noteq> 0 then Panic ''remap''
     else let s = st pte (pa OR perm OR PTE_P) s
          in if a = la then Ok (0, s)
             else mappages_loop k pd (a + PGSIZE) la (pa + PGSIZE) perm s)"

definition mappages :: "addr \<Rightarrow> addr \<Rightarrow> u32 \<Rightarrow> u32 \<Rightarrow> u32 \<Rightarrow> 'a kmem_st_scheme \<Rightarrow> (int \<times> 'a kmem_st_scheme) res" where
  "mappages pd va sz pa perm s =
     mappages_loop NPAGES pd (PGROUNDDOWN va) (PGROUNDDOWN (va + sz - 1)) pa perm s"

section \<open>Releasing pages\<close>

fun dealloc_loop :: "nat \<Rightarrow> addr \<Rightarrow> u32 \<Rightarrow> u32 \<Rightarrow> 'a kmem_st_scheme \<Rightarrow> 'a kmem_st_scheme res" where
  "dealloc_loop 0 pd a oldsz s = Blocks"
| "dealloc_loop (Suc k) pd a oldsz s =
     (if a < oldsz then
        bindr (walkpgdir pd a False s) (\<lambda>(pte, s).
        if pte = 0 then dealloc_loop k pd (PGADDR (PDX a + 1) 0 0 - PGSIZE + PGSIZE) oldsz s
        else if ld s pte AND PTE_P \<noteq> 0 then
          let pa = PTE_ADDR (ld s pte)
          in if pa = 0 then Panic ''kfree''
             else bindr (kfree (P2V pa) s) (\<lambda>s.
                  dealloc_loop k pd (a + PGSIZE) oldsz (st pte 0 s))
        else dealloc_loop k pd (a + PGSIZE) oldsz s)
      else Ok s)"

definition deallocuvm :: "addr \<Rightarrow> u32 \<Rightarrow> u32 \<Rightarrow> 'a kmem_st_scheme \<Rightarrow> (u32 \<times> 'a kmem_st_scheme) res" where
  "deallocuvm pd oldsz newsz s =
     (if newsz \<ge> oldsz then Ok (oldsz, s)
      else bindr (dealloc_loop (NPAGES + 1) pd (PGROUNDUP newsz) oldsz s) (\<lambda>s. Ok (newsz, s)))"

definition free_table :: "addr \<Rightarrow> nat \<Rightarrow> 'a kmem_st_scheme \<Rightarrow> 'a kmem_st_scheme res" where
  "free_table pd i s =
     (let pde = ld s (pd + 4 * of_nat i)
      in if pde AND PTE_P \<noteq> 0 then kfree (P2V (PTE_ADDR pde)) s else Ok s)"

definition freevm :: "addr \<Rightarrow> 'a kmem_st_scheme \<Rightarrow> 'a kmem_st_scheme res" where
  "freevm pd s =
     (if pd = 0 then Panic ''freevm: no pd''
      else bindr (deallocuvm pd KERNBASE 0 s) (\<lambda>(_, s).
           bindr (for_each (free_table pd) [0..<NPDENTRIES] s) (\<lambda>s.
           kfree pd s)))"

section \<open>The kernel part of a page table\<close>

definition kmap :: "addr \<Rightarrow> (addr \<times> u32 \<times> u32 \<times> u32) list" where
  "kmap data =
     [(KERNBASE, 0, EXTMEM, PTE_W),
      (KERNLINK, V2P KERNLINK, V2P data, 0),
      (data, V2P data, PHYSTOP, PTE_W),
      (DEVSPACE, DEVSPACE, 0, PTE_W)]"

fun setup_loop :: "addr \<Rightarrow> (addr \<times> u32 \<times> u32 \<times> u32) list \<Rightarrow> 'a kmem_st_scheme \<Rightarrow> (addr \<times> 'a kmem_st_scheme) res" where
  "setup_loop pd [] s = Ok (pd, s)"
| "setup_loop pd ((virt, phys_start, phys_end, perm) # ks) s =
     bindr (mappages pd virt (phys_end - phys_start) phys_start perm s) (\<lambda>(r, s).
     if r < 0 then bindr (freevm pd s) (\<lambda>s. Ok (0, s))
     else setup_loop pd ks s)"

definition setupkvm :: "addr \<Rightarrow> 'a kmem_st_scheme \<Rightarrow> (addr \<times> 'a kmem_st_scheme) res" where
  "setupkvm data s =
     bindr (kalloc s) (\<lambda>(pd, s).
     if pd = 0 then Ok (0, s)
     else let s = s\<lparr>mem := memset (mem s) pd 0 PGSIZE\<rparr>
          in if P2V PHYSTOP > DEVSPACE then Panic ''PHYSTOP too high''
             else setup_loop pd (kmap data) s)"

definition kvmalloc :: "addr \<Rightarrow> 'a proc_st_scheme \<Rightarrow> 'a proc_st_scheme res" where
  "kvmalloc data s = bindr (setupkvm data s) (\<lambda>(pd, s). Ok (switchkvm (s\<lparr>kpgdir := pd\<rparr>)))"

section \<open>User memory\<close>

text \<open>\<open>put_bytes\<close> copies a list of bytes to memory, as \<^verbatim>\<open>memmove\<close> does from a buffer outside the model's memory.\<close>

fun put_bytes :: "memory \<Rightarrow> addr \<Rightarrow> u8 list \<Rightarrow> memory" where
  "put_bytes m a [] = m"
| "put_bytes m a (b # bs) = put_bytes (m(a := b)) (a + 1) bs"

definition inituvm :: "addr \<Rightarrow> u8 list \<Rightarrow> 'a kmem_st_scheme \<Rightarrow> 'a kmem_st_scheme res" where
  "inituvm pd init s =
     (if length init \<ge> unat PGSIZE then Panic ''inituvm: more than a page''
      else bindr (kalloc s) (\<lambda>(m, s).
           let s = s\<lparr>mem := memset (mem s) m 0 PGSIZE\<rparr>
           in bindr (mappages pd 0 PGSIZE (V2P m) (PTE_W OR PTE_U) s) (\<lambda>(_, s).
              Ok (s\<lparr>mem := put_bytes (mem s) m init\<rparr>))))"

fun alloc_loop :: "nat \<Rightarrow> addr \<Rightarrow> u32 \<Rightarrow> u32 \<Rightarrow> u32 \<Rightarrow> 'a kmem_st_scheme \<Rightarrow> (u32 \<times> 'a kmem_st_scheme) res" where
  "alloc_loop 0 pd a oldsz newsz s = Blocks"
| "alloc_loop (Suc k) pd a oldsz newsz s =
     (if a < newsz then
        bindr (kalloc s) (\<lambda>(m, s).
        if m = 0 then bindr (deallocuvm pd newsz oldsz s) (\<lambda>(_, s). Ok (0, s))
        else let s = s\<lparr>mem := memset (mem s) m 0 PGSIZE\<rparr>
             in bindr (mappages pd a PGSIZE (V2P m) (PTE_W OR PTE_U) s) (\<lambda>(r, s).
                if r < 0 then
                  bindr (deallocuvm pd newsz oldsz s) (\<lambda>(_, s).
                  bindr (kfree m s) (\<lambda>s. Ok (0, s)))
                else alloc_loop k pd (a + PGSIZE) oldsz newsz s))
      else Ok (newsz, s))"

definition allocuvm :: "addr \<Rightarrow> u32 \<Rightarrow> u32 \<Rightarrow> 'a kmem_st_scheme \<Rightarrow> (u32 \<times> 'a kmem_st_scheme) res" where
  "allocuvm pd oldsz newsz s =
     (if newsz \<ge> KERNBASE then Ok (0, s)
      else if newsz < oldsz then Ok (oldsz, s)
      else alloc_loop (NPAGES + 1) pd (PGROUNDUP oldsz) oldsz newsz s)"

definition clearpteu :: "addr \<Rightarrow> addr \<Rightarrow> 'a kmem_st_scheme \<Rightarrow> 'a kmem_st_scheme res" where
  "clearpteu pd uva s =
     bindr (walkpgdir pd uva False s) (\<lambda>(pte, s).
     if pte = 0 then Panic ''clearpteu'' else Ok (st pte (ld s pte AND NOT PTE_U) s))"

fun copy_loop :: "addr \<Rightarrow> addr \<Rightarrow> nat list \<Rightarrow> 'a kmem_st_scheme \<Rightarrow> (addr \<times> 'a kmem_st_scheme) res" where
  "copy_loop pd d [] s = Ok (d, s)"
| "copy_loop pd d (i # is) s =
     bindr (walkpgdir pd (of_nat i) False s) (\<lambda>(pte, s).
     if pte = 0 then Panic ''copyuvm: pte should exist''
     else if ld s pte AND PTE_P = 0 then Panic ''copyuvm: page not present''
     else let pa = PTE_ADDR (ld s pte); flags = PTE_FLAGS (ld s pte)
          in bindr (kalloc s) (\<lambda>(m, s).
             if m = 0 then bindr (freevm d s) (\<lambda>s. Ok (0, s))
             else let s = s\<lparr>mem := memmove (mem s) m (P2V pa) PGSIZE\<rparr>
                  in bindr (mappages d (of_nat i) PGSIZE (V2P m) flags s) (\<lambda>(r, s).
                     if r < 0 then bindr (kfree m s) (\<lambda>s. bindr (freevm d s) (\<lambda>s. Ok (0, s)))
                     else copy_loop pd d is s)))"

definition page_offs :: "u32 \<Rightarrow> nat list" where
  "page_offs sz = map (\<lambda>k. unat PGSIZE * k) [0..<(unat sz + unat PGSIZE - 1) div unat PGSIZE]"

definition copyuvm :: "addr \<Rightarrow> addr \<Rightarrow> u32 \<Rightarrow> 'a kmem_st_scheme \<Rightarrow> (addr \<times> 'a kmem_st_scheme) res" where
  "copyuvm data pd sz s =
     bindr (setupkvm data s) (\<lambda>(d, s).
     if d = 0 then Ok (0, s) else copy_loop pd d (page_offs sz) s)"

text \<open>
  \<^verbatim>\<open>uva2ka\<close> reads through the pointer that \<^verbatim>\<open>walkpgdir\<close> returns without testing it: when there is no
  page table for the address, it reads address 0.
\<close>

definition uva2ka :: "addr \<Rightarrow> addr \<Rightarrow> 'a kmem_st_scheme \<Rightarrow> (addr \<times> 'a kmem_st_scheme) res" where
  "uva2ka pd uva s =
     bindr (walkpgdir pd uva False s) (\<lambda>(pte, s).
     if ld s pte AND PTE_P = 0 then Ok (0, s)
     else if ld s pte AND PTE_U = 0 then Ok (0, s)
     else Ok (P2V (PTE_ADDR (ld s pte)), s))"

function copyout :: "addr \<Rightarrow> addr \<Rightarrow> u8 list \<Rightarrow> 'a kmem_st_scheme \<Rightarrow> (int \<times> 'a kmem_st_scheme) res" where
  "copyout pd va p s =
     (if p = [] then Ok (0, s)
      else let va0 = PGROUNDDOWN va
           in bindr (uva2ka pd va0 s) (\<lambda>(pa0, s).
              if pa0 = 0 then Ok (-1, s)
              else let n = min (length p) (unat (PGSIZE - (va - va0)))
                   in if n = 0 then Blocks
                      else copyout pd (va0 + PGSIZE) (drop n p) (s\<lparr>mem := put_bytes (mem s) (pa0 + (va - va0)) (take n p)\<rparr>)))"
  by pat_completeness auto
termination by (relation "measure (\<lambda>(pd, va, p, s). length p)") auto

declare copyout.simps [simp del]

end
