(* ===== verification/Xv6_Process.thy ===== *)
theory Xv6_Process
  imports Xv6_File Xv6_Vm
begin

text \<open>
  The life of a process, the part of \<^verbatim>\<open>proc.c\<close> that needs memory and files: \<^verbatim>\<open>userinit\<close>, \<^verbatim>\<open>growproc\<close>,
  \<^verbatim>\<open>fork\<close>, \<^verbatim>\<open>exit\<close>, \<^verbatim>\<open>wait\<close>, \<^verbatim>\<open>forkret\<close>, and \<^verbatim>\<open>exec\<close> of \<^verbatim>\<open>exec.c\<close> with \<^verbatim>\<open>loaduvm\<close> of \<^verbatim>\<open>vm.c\<close>.

  \<open>curproc\<close> is \<^verbatim>\<open>myproc()\<close> used as a pointer: without a process it is null, and the access
  faults in the kernel, which panics in \<^verbatim>\<open>trap\<close>. \<open>exit\<close> ends in the scheduler and has no
  result; the state is the one the scheduler goes on with. The name of a process is kept as
  the string up to its NUL.
\<close>

section \<open>State\<close>

text \<open>\<open>ticks\<close> is the tick counter of \<^verbatim>\<open>trap.c\<close>, \<open>fork_first\<close> the static variable of \<^verbatim>\<open>forkret\<close>.\<close>

record sys_st = file_st +
  ticks :: u32
  fork_first :: bool

definition curproc :: "'a proc_st_scheme \<Rightarrow> (nat \<times> 'a proc_st_scheme) res" where
  "curproc s =
     bindr (myproc s) (\<lambda>(po, s). case po of None \<Rightarrow> Panic ''trap'' | Some p \<Rightarrow> Ok (p, s))"

definition name_copy :: "u8 list \<Rightarrow> u8 list" where
  "name_copy src = take 15 (takeWhile (\<lambda>b. b \<noteq> 0) src)"

definition put_tf16 :: "nat \<Rightarrow> u32 \<Rightarrow> u16 \<Rightarrow> 'a proc_st_scheme \<Rightarrow> 'a proc_st_scheme" where
  "put_tf16 p off v s = s\<lparr>mem := put_bytes (mem s) (ptf (procs s ! p) + off) (le16 v)\<rparr>"

definition put_tf :: "nat \<Rightarrow> u32 \<Rightarrow> u32 \<Rightarrow> 'a proc_st_scheme \<Rightarrow> 'a proc_st_scheme" where
  "put_tf p off v s = s\<lparr>mem := store32 (mem s) (ptf (procs s ! p) + off) v\<rparr>"

definition set_runnable :: "nat \<Rightarrow> 'a proc_st_scheme \<Rightarrow> 'a proc_st_scheme res" where
  "set_runnable p s =
     bindr (acquire PtableLock s) (\<lambda>s. release PtableLock (set_proc p (\<lambda>x. x\<lparr>pstate := RUNNABLE\<rparr>) s))"

section \<open>The first process\<close>

definition tf_es :: u32 where "tf_es = 40"
definition tf_ds :: u32 where "tf_ds = 44"
definition tf_cs :: u32 where "tf_cs = 60"
definition tf_eflags :: u32 where "tf_eflags = 64"
definition tf_ss :: u32 where "tf_ss = 72"
definition user_code :: u16 where "user_code = push_bit 3 3 OR 3"
definition user_data :: u16 where "user_data = push_bit 3 4 OR 3"

text \<open>\<open>data\<close> and \<open>initcode\<close> are given by the linker: an address, and the bytes of \<^verbatim>\<open>initcode.S\<close>.\<close>

definition userinit :: "('a sys_st_scheme) devsw \<Rightarrow> addr \<Rightarrow> u8 list \<Rightarrow> 'a sys_st_scheme \<Rightarrow> 'a sys_st_scheme res" where
  "userinit dv data initcode s =
     bindr (allocproc s) (\<lambda>(po, s).
     let s = s\<lparr>initproc := po\<rparr>
     in case po of None \<Rightarrow> Panic ''trap''
        | Some p \<Rightarrow>
          bindr (setupkvm data s) (\<lambda>(pd, s).
          let s = set_proc p (\<lambda>x. x\<lparr>pgdir := pd\<rparr>) s
          in if pd = 0 then Panic ''userinit: out of memory?''
             else bindr (inituvm pd initcode s) (\<lambda>s.
               let s = set_proc p (\<lambda>x. x\<lparr>psz := PGSIZE\<rparr>) s;
                   s = s\<lparr>mem := memset (mem s) (ptf (procs s ! p)) 0 sizeof_trapframe\<rparr>;
                   s = put_tf16 p tf_cs user_code s;
                   s = put_tf16 p tf_ds user_data s;
                   s = put_tf16 p tf_es user_data s;
                   s = put_tf16 p tf_ss user_data s;
                   s = put_tf p tf_eflags 0x200 s;
                   s = put_tf p tf_esp PGSIZE s;
                   s = put_tf p tf_eip 0 s;
                   s = set_proc p (\<lambda>x. x\<lparr>pname := name_copy (map (of_nat \<circ> of_char) ''initcode'')\<rparr>) s
               in bindr (namei dv [slash] s) (\<lambda>(ip, s).
                  set_runnable p (set_proc p (\<lambda>x. x\<lparr>cwd := ip\<rparr>) s)))))"

section \<open>Growing\<close>

definition growproc :: "int \<Rightarrow> 'a proc_st_scheme \<Rightarrow> (int \<times> 'a proc_st_scheme) res" where
  "growproc n s =
     bindr (curproc s) (\<lambda>(p, s).
     let sz = psz (procs s ! p); pd = pgdir (procs s ! p)
     in bindr (if n > 0 then allocuvm pd sz (sz + word_of_int n) s
               else if n < 0 then deallocuvm pd sz (sz + word_of_int n) s
               else Ok (sz, s)) (\<lambda>(sz, s).
        if n \<noteq> 0 \<and> sz = 0 then Ok (-1, s)
        else let s = set_proc p (\<lambda>x. x\<lparr>psz := sz\<rparr>) s
             in bindr (switchuvm (Some p) s) (\<lambda>s. Ok (0, s))))"

section \<open>Fork\<close>

definition dup_files :: "nat \<Rightarrow> nat \<Rightarrow> 'a sys_st_scheme \<Rightarrow> 'a sys_st_scheme res" where
  "dup_files p np s =
     for_each (\<lambda>i s.
       case ofile (procs s ! p) ! i of
         None \<Rightarrow> Ok s
       | Some f \<Rightarrow> bindr (filedup f s) (\<lambda>(f, s). Ok (set_proc np (\<lambda>x. x\<lparr>ofile := (ofile x)[i := Some f]\<rparr>) s)))
     [0..<NOFILE] s"

definition fork :: "addr \<Rightarrow> 'a sys_st_scheme \<Rightarrow> (int \<times> 'a sys_st_scheme) res" where
  "fork data s =
     bindr (curproc s) (\<lambda>(p, s).
     bindr (allocproc s) (\<lambda>(npo, s).
     case npo of None \<Rightarrow> Ok (-1, s)
     | Some np \<Rightarrow>
       bindr (copyuvm data (pgdir (procs s ! p)) (psz (procs s ! p)) s) (\<lambda>(pd, s).
       let s = set_proc np (\<lambda>x. x\<lparr>pgdir := pd\<rparr>) s
       in if pd = 0 then
            bindr (kfree (kstack (procs s ! np)) s) (\<lambda>s.
            let s = set_proc np (\<lambda>x. x\<lparr>kstack := 0\<rparr>) s;
                s = set_proc np (\<lambda>x. x\<lparr>pstate := UNUSED\<rparr>) s
            in Ok (-1, s))
          else
            let s = set_proc np (\<lambda>x. x\<lparr>psz := psz (procs s ! p)\<rparr>) s;
                s = set_proc np (\<lambda>x. x\<lparr>parent := Some p\<rparr>) s;
                s = s\<lparr>mem := memmove (mem s) (ptf (procs s ! np)) (ptf (procs s ! p)) sizeof_trapframe\<rparr>;
                s = put_tf np tf_eax 0 s
            in bindr (dup_files p np s) (\<lambda>s.
               bindr (idup (the (cwd (procs s ! p))) s) (\<lambda>(ip, s).
               let s = set_proc np (\<lambda>x. x\<lparr>cwd := Some ip\<rparr>) s;
                   s = set_proc np (\<lambda>x. x\<lparr>pname := name_copy (pname (procs s ! p))\<rparr>) s;
                   n = pid (procs s ! np)
               in bindr (set_runnable np s) (\<lambda>s. Ok (n, s)))))))"

section \<open>Exit and wait\<close>

definition close_files :: "nat \<Rightarrow> 'a sys_st_scheme \<Rightarrow> 'a sys_st_scheme res" where
  "close_files p s =
     for_each (\<lambda>fd s.
       case ofile (procs s ! p) ! fd of
         None \<Rightarrow> Ok s
       | Some f \<Rightarrow> bindr (fileclose f s) (\<lambda>s. Ok (set_proc p (\<lambda>x. x\<lparr>ofile := (ofile x)[fd := None]\<rparr>) s)))
     [0..<NOFILE] s"

text \<open>A null parent or a null \<^verbatim>\<open>initproc\<close> is the null channel, which nobody waits on but a process whose channel was cleared.\<close>

definition proc_chan :: "nat option \<Rightarrow> chan option" where "proc_chan = map_option ChProc"

definition reparent_one :: "nat \<Rightarrow> nat \<Rightarrow> 'a proc_st_scheme \<Rightarrow> 'a proc_st_scheme" where
  "reparent_one p i s =
     (if parent (procs s ! i) = Some p then
        let s = set_proc i (\<lambda>x. x\<lparr>parent := initproc s\<rparr>) s
        in if pstate (procs s ! i) = ZOMBIE then wakeup1 (proc_chan (initproc s)) s else s
      else s)"

definition reparent :: "nat \<Rightarrow> 'a proc_st_scheme \<Rightarrow> 'a proc_st_scheme" where
  "reparent p s = fold (reparent_one p) [0..<length (procs s)] s"

definition exit_leave :: "nat \<Rightarrow> 'a proc_st_scheme \<Rightarrow> 'a proc_st_scheme res" where
  "exit_leave p s =
     bindr (acquire PtableLock s) (\<lambda>s.
     let s = wakeup1 (proc_chan (parent (procs s ! p))) s;
         s = reparent p s;
         s = set_proc p (\<lambda>x. x\<lparr>pstate := ZOMBIE\<rparr>) s
     in bindr (sched s) (\<lambda>(_, s). Ok s))"

definition exit :: "'a sys_st_scheme \<Rightarrow> 'a sys_st_scheme res" where
  "exit s =
     bindr (myproc s) (\<lambda>(po, s).
     if po = initproc s then Panic ''init exiting''
     else case po of None \<Rightarrow> Panic ''trap''
     | Some p \<Rightarrow>
       bindr (close_files p s) (\<lambda>s.
       bindr (begin_op s) (\<lambda>s.
       bindr (iput (the (cwd (procs s ! p))) s) (\<lambda>s.
       bindr (end_op s) (\<lambda>s.
       exit_leave p (set_proc p (\<lambda>x. x\<lparr>cwd := None\<rparr>) s))))))"

definition reap :: "nat \<Rightarrow> 'a sys_st_scheme \<Rightarrow> (int \<times> 'a sys_st_scheme) res" where
  "reap i s =
     (let n = pid (procs s ! i)
      in bindr (kfree (kstack (procs s ! i)) s) (\<lambda>s.
         let s = set_proc i (\<lambda>x. x\<lparr>kstack := 0\<rparr>) s
         in bindr (freevm (pgdir (procs s ! i)) s) (\<lambda>s.
            Ok (n, set_proc i (\<lambda>x. x\<lparr>pid := 0, parent := None, pname := [], killed := False, pstate := UNUSED\<rparr>) s))))"

definition wait :: "'a sys_st_scheme \<Rightarrow> (int \<times> 'a sys_st_scheme) res" where
  "wait s =
     bindr (curproc s) (\<lambda>(p, s).
     bindr (acquire PtableLock s) (\<lambda>s.
     case first_idx (\<lambda>x. parent x = Some p \<and> pstate x = ZOMBIE) (procs s) of
       Some i \<Rightarrow>
         bindr (reap i s) (\<lambda>(n, s).
         bindr (release PtableLock s) (\<lambda>s. Ok (n, s)))
     | None \<Rightarrow>
         if (\<forall>x\<in>set (procs s). parent x \<noteq> Some p) \<or> killed (procs s ! p)
         then bindr (release PtableLock s) (\<lambda>s. Ok (-1, s))
         else Blocks))"

text \<open>The first code a new process runs.\<close>

definition forkret_run :: "'a sys_st_scheme \<Rightarrow> 'a sys_st_scheme res" where
  "forkret_run s =
     bindr (release PtableLock s) (\<lambda>s.
     if fork_first s then
       bindr (iinit ROOTDEV (s\<lparr>fork_first := False\<rparr>)) (initlog ROOTDEV)
     else Ok s)"

section \<open>Exec\<close>

text \<open>\<^verbatim>\<open>elf.h\<close>: the sizes of the two headers and the offsets of the fields that \<^verbatim>\<open>exec\<close> reads.\<close>

definition ELF_MAGIC :: u32 where "ELF_MAGIC = 0x464C457F"
definition ELF_PROG_LOAD :: u32 where "ELF_PROG_LOAD = 1"
definition sizeof_elfhdr :: u32 where "sizeof_elfhdr = 52"
definition sizeof_proghdr :: u32 where "sizeof_proghdr = 32"

record elfhdr =
  e_magic :: u32
  e_entry :: u32
  e_phoff :: u32
  e_phnum :: u16

definition elfhdr_of :: "u8 list \<Rightarrow> elfhdr" where
  "elfhdr_of b = \<lparr>e_magic = get32 b 0, e_entry = get32 b 24, e_phoff = get32 b 28, e_phnum = get16 b 44\<rparr>"

record proghdr =
  p_type :: u32
  p_off :: u32
  p_vaddr :: u32
  p_filesz :: u32
  p_memsz :: u32

definition proghdr_of :: "u8 list \<Rightarrow> proghdr" where
  "proghdr_of b = \<lparr>p_type = get32 b 0, p_off = get32 b 4, p_vaddr = get32 b 8, p_filesz = get32 b 16, p_memsz = get32 b 20\<rparr>"

fun load_loop :: "('a sys_st_scheme) devsw \<Rightarrow> addr \<Rightarrow> addr \<Rightarrow> nat \<Rightarrow> u32 \<Rightarrow> u32 \<Rightarrow> nat list \<Rightarrow> 'a sys_st_scheme \<Rightarrow> (int \<times> 'a sys_st_scheme) res" where
  "load_loop dv pd a ip offset sz [] s = Ok (0, s)"
| "load_loop dv pd a ip offset sz (i # is) s =
     bindr (walkpgdir pd (a + of_nat i) False s) (\<lambda>(pte, s).
     if pte = 0 then Panic ''loaduvm: address should exist''
     else let pa = PTE_ADDR (ld s pte);
              n = (if sz - of_nat i < PGSIZE then sz - of_nat i else PGSIZE)
          in bindr (readi dv ip (offset + of_nat i) n s) (\<lambda>(r, bs, s).
             let s = s\<lparr>mem := put_bytes (mem s) (P2V pa) bs\<rparr>
             in if r \<noteq> uint n then Ok (-1, s) else load_loop dv pd a ip offset sz is s))"

definition loaduvm :: "('a sys_st_scheme) devsw \<Rightarrow> addr \<Rightarrow> addr \<Rightarrow> nat \<Rightarrow> u32 \<Rightarrow> u32 \<Rightarrow> 'a sys_st_scheme \<Rightarrow> (int \<times> 'a sys_st_scheme) res" where
  "loaduvm dv pd a ip offset sz s =
     (if a mod PGSIZE \<noteq> 0 then Panic ''loaduvm: addr must be page aligned''
      else load_loop dv pd a ip offset sz (page_offs sz) s)"

text \<open>\<open>exec_bad\<close> is the code at the label \<^verbatim>\<open>bad\<close>.\<close>

definition exec_bad :: "addr \<Rightarrow> nat option \<Rightarrow> 'a sys_st_scheme \<Rightarrow> (int \<times> 'a sys_st_scheme) res" where
  "exec_bad pd ip s =
     bindr (if pd \<noteq> 0 then freevm pd s else Ok s) (\<lambda>s.
     bindr (case ip of None \<Rightarrow> Ok s | Some i \<Rightarrow> bindr (iunlockput i s) end_op) (\<lambda>s.
     Ok (-1, s)))"

text \<open>
  The loop over the program headers; the result is the size of the image, \<open>None\<close> when it jumps
  to \<^verbatim>\<open>bad\<close>.
\<close>

fun load_segments :: "('a sys_st_scheme) devsw \<Rightarrow> addr \<Rightarrow> nat \<Rightarrow> nat \<Rightarrow> u32 \<Rightarrow> u32 \<Rightarrow> 'a sys_st_scheme \<Rightarrow> (u32 option \<times> 'a sys_st_scheme) res" where
  "load_segments dv pd ip 0 off sz s = Ok (Some sz, s)"
| "load_segments dv pd ip (Suc n) off sz s =
     bindr (readi dv ip off sizeof_proghdr s) (\<lambda>(r, bs, s).
     let ph = proghdr_of bs
     in if r \<noteq> uint sizeof_proghdr then Ok (None, s)
        else if p_type ph \<noteq> ELF_PROG_LOAD then load_segments dv pd ip n (off + sizeof_proghdr) sz s
        else if p_memsz ph < p_filesz ph then Ok (None, s)
        else if p_vaddr ph + p_memsz ph < p_vaddr ph then Ok (None, s)
        else bindr (allocuvm pd sz (p_vaddr ph + p_memsz ph) s) (\<lambda>(sz, s).
          if sz = 0 then Ok (None, s)
          else if p_vaddr ph mod PGSIZE \<noteq> 0 then Ok (None, s)
          else bindr (loaduvm dv pd (p_vaddr ph) ip (p_off ph) (p_filesz ph) s) (\<lambda>(r, s).
            if r < 0 then Ok (None, s)
            else load_segments dv pd ip n (off + sizeof_proghdr) sz s)))"

text \<open>
  The loop that pushes the argument strings: the stack pointer and the addresses of the
  strings in order, \<open>None\<close> when it jumps to \<^verbatim>\<open>bad\<close>.
\<close>

fun push_args :: "addr \<Rightarrow> u32 \<Rightarrow> u32 list \<Rightarrow> u8 list list \<Rightarrow> 'a kmem_st_scheme \<Rightarrow> ((u32 \<times> u32 list) option \<times> 'a kmem_st_scheme) res" where
  "push_args pd sp us [] s = Ok (Some (sp, us), s)"
| "push_args pd sp us (a # as) s =
     (if length us \<ge> MAXARG then Ok (None, s)
      else let sp = (sp - (of_nat (length a) + 1)) AND NOT 3
           in bindr (copyout pd sp (a @ [0]) s) (\<lambda>(r, s).
              if r < 0 then Ok (None, s) else push_args pd sp (us @ [sp]) as s))"

definition ustack :: "u32 \<Rightarrow> u32 list \<Rightarrow> u32 list" where
  "ustack sp us = [0xffffffff, of_nat (length us), sp - (of_nat (length us) + 1) * 4] @ us @ [0]"

definition last_elem :: "u8 list \<Rightarrow> u8 list" where
  "last_elem path = rev (takeWhile (\<lambda>b. b \<noteq> slash) (rev path))"

text \<open>The second half of \<^verbatim>\<open>exec\<close>: the user stack, the arguments, and the switch to the new image.\<close>

definition exec_commit :: "nat \<Rightarrow> u8 list \<Rightarrow> u8 list list \<Rightarrow> u32 \<Rightarrow> addr \<Rightarrow> u32 \<Rightarrow> 'a sys_st_scheme \<Rightarrow> (int \<times> 'a sys_st_scheme) res" where
  "exec_commit p path argv entry pd sz s =
     (let sz = PGROUNDUP sz
      in bindr (allocuvm pd sz (sz + 2 * PGSIZE) s) (\<lambda>(sz, s).
         if sz = 0 then exec_bad pd None s
         else bindr (clearpteu pd (sz - 2 * PGSIZE) s) (\<lambda>s.
           bindr (push_args pd sz [] argv s) (\<lambda>(r, s).
           case r of None \<Rightarrow> exec_bad pd None s
           | Some (sp, us) \<Rightarrow>
             let st = ustack sp us; sp = sp - (3 + of_nat (length us) + 1) * 4
             in bindr (copyout pd sp (concat (map le32 st)) s) (\<lambda>(r, s).
                if r < 0 then exec_bad pd None s
                else let s = set_proc p (\<lambda>x. x\<lparr>pname := name_copy (last_elem path)\<rparr>) s;
                         oldpgdir = pgdir (procs s ! p);
                         s = set_proc p (\<lambda>x. x\<lparr>pgdir := pd\<rparr>) s;
                         s = set_proc p (\<lambda>x. x\<lparr>psz := sz\<rparr>) s;
                         s = put_tf p tf_eip entry s;
                         s = put_tf p tf_esp sp s
                     in bindr (switchuvm (Some p) s) (\<lambda>s.
                        bindr (freevm oldpgdir s) (\<lambda>s. Ok (0, s))))))))"

definition exec :: "('a sys_st_scheme) devsw \<Rightarrow> addr \<Rightarrow> u8 list \<Rightarrow> u8 list list \<Rightarrow> 'a sys_st_scheme \<Rightarrow> (int \<times> 'a sys_st_scheme) res" where
  "exec dv data path argv s =
     bindr (curproc s) (\<lambda>(p, s).
     bindr (begin_op s) (\<lambda>s.
     bindr (namei dv path s) (\<lambda>(ipo, s).
     case ipo of None \<Rightarrow> bindr (end_op s) (\<lambda>s. Ok (-1, s))
     | Some ip \<Rightarrow>
       bindr (ilock (Some ip) s) (\<lambda>s.
       bindr (readi dv ip 0 sizeof_elfhdr s) (\<lambda>(r, bs, s).
       let elf = elfhdr_of bs
       in if r \<noteq> uint sizeof_elfhdr then exec_bad 0 (Some ip) s
          else if e_magic elf \<noteq> ELF_MAGIC then exec_bad 0 (Some ip) s
          else bindr (setupkvm data s) (\<lambda>(pd, s).
            if pd = 0 then exec_bad 0 (Some ip) s
            else bindr (load_segments dv pd ip (unat (e_phnum elf)) (e_phoff elf) 0 s) (\<lambda>(szo, s).
              case szo of None \<Rightarrow> exec_bad pd (Some ip) s
              | Some sz \<Rightarrow>
                bindr (iunlockput ip s) (\<lambda>s.
                bindr (end_op s) (\<lambda>s.
                exec_commit p path argv (e_entry elf) pd sz s)))))))))"

section \<open>Leaving the CPU for good\<close>

lemma wake_sel [simp]:
  "parent (wake c x) = parent x" "pchan (wake c x) = pchan x" "pstate (wake c x) = ZOMBIE \<longleftrightarrow> pstate x = ZOMBIE"
  by (simp_all add: wake_def)

lemma wake_wake [simp]: "wake c (wake c x) = wake c x"
  by (simp add: wake_def)

lemma wake_parent [simp]: "wake c (x\<lparr>parent := q\<rparr>) = (wake c x)\<lparr>parent := q\<rparr>"
  by (simp add: wake_def)

text \<open>Slot \<open>x\<close> of a table after \<open>reparent\<close> has reached it, or not yet; \<open>z\<close> tells whether init has been woken.\<close>

definition adopted :: "nat \<Rightarrow> nat option \<Rightarrow> bool \<Rightarrow> bool \<Rightarrow> proc \<Rightarrow> proc" where
  "adopted p q z r x =
     (if z then wake (proc_chan q) else id) (if r \<and> parent x = Some p then x\<lparr>parent := q\<rparr> else x)"

definition zombie_child :: "nat \<Rightarrow> proc \<Rightarrow> bool" where
  "zombie_child p x \<longleftrightarrow> parent x = Some p \<and> pstate x = ZOMBIE"

lemma reparent_upto:
  assumes "k \<le> length (procs s)" "initproc s \<noteq> Some p"
  shows "fold (reparent_one p) [0..<k] s =
    s\<lparr>procs := map (\<lambda>i. adopted p (initproc s) (\<exists>j<k. zombie_child p (procs s ! j)) (i < k) (procs s ! i)) [0..<length (procs s)]\<rparr>"
  using assms(1)
proof (induction k)
  case 0
  then show ?case by (simp add: adopted_def map_nth)
next
  case (Suc k)
  let ?z = "\<exists>j<k. zombie_child p (procs s ! j)" and ?x = "procs s ! k"
  let ?f = "\<lambda>z m i. adopted p (initproc s) z (i < m) (procs s ! i)"
  have z: "(\<exists>j<Suc k. zombie_child p (procs s ! j)) \<longleftrightarrow> ?z \<or> zombie_child p ?x" by (auto simp: less_Suc_eq)
  have k: "k < length (procs s)" using Suc.prems by simp
  let ?t = "s\<lparr>procs := map (?f ?z k) [0..<length (procs s)]\<rparr>"
  have tk: "procs ?t ! k = adopted p (initproc s) ?z False ?x" using k by simp
  have "reparent_one p k ?t = s\<lparr>procs := map (?f (?z \<or> zombie_child p ?x) (Suc k)) [0..<length (procs s)]\<rparr>"
  proof (cases "parent ?x = Some p")
    case False
    then have "parent (procs ?t ! k) \<noteq> Some p" by (simp only: tk) (simp add: adopted_def)
    then have "reparent_one p k ?t = ?t" by (simp only: reparent_one_def if_False)
    also have "\<dots> = s\<lparr>procs := map (?f ?z (Suc k)) [0..<length (procs s)]\<rparr>"
      by (rule arg_cong [where f = "\<lambda>x. s\<lparr>procs := x\<rparr>"]) (use False in \<open>auto simp: adopted_def less_Suc_eq\<close>)
    finally show ?thesis using False by (simp add: zombie_child_def)
  next
    case True
    let ?u = "set_proc k (\<lambda>x. x\<lparr>parent := initproc s\<rparr>) ?t"
    have u: "?u = s\<lparr>procs := map (?f ?z (Suc k)) [0..<length (procs s)]\<rparr>"
      using k tk True by (auto simp: set_proc_def adopted_def less_Suc_eq nth_list_update intro!: nth_equalityI arg_cong [where f = "\<lambda>x. s\<lparr>procs := x\<rparr>"])
    have "parent (procs ?t ! k) = Some p" using True by (simp only: tk) (simp add: adopted_def)
    then have r: "reparent_one p k ?t = (if pstate (procs ?u ! k) = ZOMBIE then wakeup1 (proc_chan (initproc s)) ?u else ?u)"
      by (simp add: reparent_one_def Let_def set_proc_def)
    have "pstate (procs ?u ! k) = ZOMBIE \<longleftrightarrow> zombie_child p ?x"
      using k True by (simp only: u) (simp add: adopted_def zombie_child_def)
    moreover have "wakeup1 (proc_chan (initproc s)) ?u = s\<lparr>procs := map (?f True (Suc k)) [0..<length (procs s)]\<rparr>"
      by (simp only: u) (auto simp: wakeup1_def adopted_def intro!: arg_cong [where f = "\<lambda>x. s\<lparr>procs := x\<rparr>"])
    ultimately show ?thesis using r u by auto
  qed
  then show ?case using Suc z by simp
qed

lemma reparent_eq:
  assumes "initproc s \<noteq> Some p"
  shows "reparent p s =
    s\<lparr>procs := map (adopted p (initproc s) (\<exists>x\<in>set (procs s). zombie_child p x) True) (procs s)\<rparr>"
proof -
  have z: "(\<exists>j<length (procs s). zombie_child p (procs s ! j)) \<longleftrightarrow> (\<exists>x\<in>set (procs s). zombie_child p x)"
    by (metis in_set_conv_nth)
  show ?thesis
    unfolding reparent_def reparent_upto [OF order_refl assms] z
    by (auto intro!: nth_equalityI arg_cong [where f = "\<lambda>x. s\<lparr>procs := x\<rparr>"])
qed

lemma sched_leaves:
  assumes "cpu_ok s" "cpu_index s = Some c" "ncli (cpus s c) = 1" "cproc (cpus s c) = Some p"
    and "pstate (procs s ! p) \<noteq> RUNNING" "\<not> fl_if s" "locks s PtableLock = \<lparr>locked = True, lcpu = Some c\<rparr>"
  shows "sched s = Ok (intena (cpus s c), set_cpu c (\<lambda>x. x\<lparr>cproc := None\<rparr>) (switchkvm s))"
proof -
  have st: "settle s = s" using assms(2,3) by (simp add: settle_def)
  show ?thesis using assms st by (simp add: sched_def myproc_eq holding_eq mycpu_def Let_def switchkvm_def)
qed

lemma leave_slot:
  assumes "i < length xs" "p < length xs"
  shows "(map (adopted p (Some q) z True) (map (wake ch) xs))
      [p := (map (adopted p (Some q) z True) (map (wake ch) xs) ! p)\<lparr>pstate := ZOMBIE\<rparr>] ! i =
    (xs ! i)\<lparr>parent := (if parent (xs ! i) = Some p then Some q else parent (xs ! i)),
      pstate := (if i = p then ZOMBIE
        else if pstate (xs ! i) = SLEEPING \<and> (pchan (xs ! i) = ch \<or> pchan (xs ! i) = Some (ChProc q) \<and> z)
        then RUNNABLE else pstate (xs ! i))\<rparr>"
proof -
  have "adopted p (Some q) z True (wake ch x) =
    x\<lparr>parent := (if parent x = Some p then Some q else parent x),
      pstate := (if pstate x = SLEEPING \<and> (pchan x = ch \<or> pchan x = Some (ChProc q) \<and> z)
        then RUNNABLE else pstate x)\<rparr>" for x
    by (cases z; cases "parent x = Some p") (auto simp: adopted_def wake_def proc_chan_def)
  then show ?thesis using assms by (cases "i = p") simp_all
qed

text \<open>
  C0: a process that exits wakes a parent sleeping in \<^verbatim>\<open>wait\<close>, hands all its children to init,
  wakes init when one of them is a zombie already, becomes a zombie and leaves its CPU to the
  scheduler; nothing else in the process table changes, and it never panics.
\<close>

theorem exit_hands_over:
  assumes "cpu_ok s" "locks s PtableLock = unlocked" "cpu_index s = Some c" "ncli (cpus s c) = 0"
    and "cproc (cpus s c) = Some p" "p < length (procs s)" "initproc s = Some q" "q \<noteq> p"
  shows "succeeds (exit_leave p s) (\<lambda>s'.
    cproc (cpus s' c) = None \<and> length (procs s') = length (procs s) \<and>
    (\<forall>i<length (procs s). let x = procs s ! i in procs s' ! i = x
      \<lparr>parent := (if parent x = Some p then Some q else parent x),
       pstate := (if i = p then ZOMBIE
         else if pstate x = SLEEPING \<and> (pchan x = proc_chan (parent (procs s ! p)) \<or>
           pchan x = Some (ChProc q) \<and> (\<exists>y\<in>set (procs s). parent y = Some p \<and> pstate y = ZOMBIE))
         then RUNNABLE else pstate x)\<rparr>))"
proof -
  let ?w = "wake (proc_chan (parent (procs s ! p)))"
  let ?z = "\<exists>x\<in>set (map ?w (procs s)). zombie_child p x"
  let ?t = "wakeup1 (proc_chan (parent (procs s ! p))) (enter PtableLock s)"
  let ?ps = "map (adopted p (Some q) ?z True) (map ?w (procs s))"
  let ?u = "set_proc p (\<lambda>x. x\<lparr>pstate := ZOMBIE\<rparr>) (reparent p ?t)"
  have i: "initproc ?t = Some q" "procs ?t = map ?w (procs s)" using assms(7) by (simp_all add: wakeup1_def)
  have r: "reparent p ?t = ?t\<lparr>procs := ?ps\<rparr>" using reparent_eq [of ?t p] i assms(8) by simp
  have u: "?u = (enter PtableLock s)\<lparr>procs := ?ps[p := (?ps ! p)\<lparr>pstate := ZOMBIE\<rparr>]\<rparr>"
    unfolding r by (simp add: set_proc_def wakeup1_def)
  have c: "ncli (cpus (enter PtableLock (s\<lparr>procs := ps\<rparr>)) c) = 1" for ps using assms(3,4) by (simp add: enter_def)
  have e: "exit_leave p s = bindr (sched ?u) (\<lambda>(_, s). Ok s)"
    using acquire_free [OF assms(1,2)] by (simp add: exit_leave_def Let_def)
  have "sched ?u = Ok (intena (cpus ?u c), set_cpu c (\<lambda>x. x\<lparr>cproc := None\<rparr>) (switchkvm ?u))"
    by (rule sched_leaves [where p = p], unfold u) (use assms c in \<open>simp_all add: locks_enter\<close>)
  moreover have "procs ?u = ?ps[p := (?ps ! p)\<lparr>pstate := ZOMBIE\<rparr>]" unfolding u by simp
  ultimately have f: "exit_leave p s = Ok (set_cpu c (\<lambda>x. x\<lparr>cproc := None\<rparr>) (switchkvm ?u))"
    and ps: "procs (set_cpu c (\<lambda>x. x\<lparr>cproc := None\<rparr>) (switchkvm ?u)) = ?ps[p := (?ps ! p)\<lparr>pstate := ZOMBIE\<rparr>]"
    using e by (simp_all add: switchkvm_def)
  have z: "?z \<longleftrightarrow> (\<exists>y\<in>set (procs s). parent y = Some p \<and> pstate y = ZOMBIE)" by (simp add: zombie_child_def)
  show ?thesis unfolding f succeeds.simps ps
    by (intro conjI allI impI, simp add: set_cpu_def, simp)
      (simp only: z Let_def leave_slot [OF _ assms(6)])
qed

definition exit_procs :: "proc list" where
  "exit_procs = [free_proc\<lparr>pstate := SLEEPING, pchan := Some (ChProc 0)\<rparr>,
     free_proc\<lparr>pstate := ZOMBIE, parent := Some 2\<rparr>, free_proc\<lparr>pstate := RUNNING, parent := Some 0\<rparr>]"

definition exit_state :: proc_st where
  "exit_state = set_cpu 0 (\<lambda>c. c\<lparr>cproc := Some 2\<rparr>) (boot_proc\<lparr>procs := exit_procs, initproc := Some 0\<rparr>)"

theorem exit_hands_over_witness:
  "\<exists>s'. exit_leave 2 exit_state = Ok s' \<and> map pstate (procs s') = [RUNNABLE, ZOMBIE, ZOMBIE] \<and>
     map parent (procs s') = [None, Some 0, Some 0]"
proof -
  have b: "cpu_ok exit_state" "locks exit_state PtableLock = unlocked" "cpu_index exit_state = Some 0"
    "ncli (cpus exit_state 0) = 0" "cproc (cpus exit_state 0) = Some 2" "initproc exit_state = Some 0"
    "procs exit_state = exit_procs"
    by (simp_all add: exit_state_def set_cpu_def boot_proc_def boot_kmem_def boot_kst_def boot_cpu_def kst.defs kmem_st.defs cpu_ok_def cpu_index_def)
  have len: "length exit_procs = 3" and p: "2 < length (procs exit_state)" by (simp_all add: b exit_procs_def)
  obtain s' where s': "exit_leave 2 exit_state = Ok s'" "length (procs s') = 3"
    and n: "i < 3 \<Longrightarrow> procs s' ! i = (let x = exit_procs ! i in x
      \<lparr>parent := (if parent x = Some 2 then Some 0 else parent x),
       pstate := (if i = 2 then ZOMBIE
         else if pstate x = SLEEPING \<and> (pchan x = proc_chan (parent (exit_procs ! 2)) \<or>
           pchan x = Some (ChProc 0) \<and> (\<exists>y\<in>set exit_procs. parent y = Some 2 \<and> pstate y = ZOMBIE))
         then RUNNABLE else pstate x)\<rparr>)" for i
    using exit_hands_over [OF b(1,2,3,4,5) p b(6)] len by (auto simp: succeeds_iff b(7) Let_def)
  obtain a0 a1 a2 where a: "procs s' = [a0, a1, a2]"
    using s'(2) by (auto simp: numeral_3_eq_3 length_Suc_conv)
  have "pstate a0 = RUNNABLE" "parent a0 = None"
    using n [of 0] by (simp_all add: a exit_procs_def free_proc_def proc_chan_def)
  moreover have "pstate a1 = ZOMBIE" "parent a1 = Some 0"
    using n [of 1] by (simp_all add: a exit_procs_def free_proc_def proc_chan_def)
  moreover have "pstate a2 = ZOMBIE" "parent a2 = Some 0"
    using n [of 2] by (simp_all add: a exit_procs_def free_proc_def proc_chan_def)
  ultimately show ?thesis using s' a by simp
qed

end
