(* ===== verification/Xv6_Syscall.thy ===== *)
theory Xv6_Syscall
  imports Xv6_Process
begin

text \<open>
  System calls: fetching their arguments and dispatching them (\<^verbatim>\<open>syscall.c\<close>), the calls on
  processes (\<^verbatim>\<open>sysproc.c\<close>) and on files (\<^verbatim>\<open>sysfile.c\<close>).

  The kernel reads user memory through the page table in \<^verbatim>\<open>%cr3\<close>: \<open>xlate\<close> is the translation
  the processor does. An address without a mapping faults in kernel mode, and \<^verbatim>\<open>trap\<close> panics.
  A failed fetch, \<^verbatim>\<open>-1\<close> in the source with the value left unset, is \<open>None\<close>. A pointer argument to
  a string comes with the bytes it points to, up to the NUL.
\<close>

section \<open>User memory\<close>

definition xlate :: "bool \<Rightarrow> addr \<Rightarrow> 'a proc_st_scheme \<Rightarrow> addr option" where
  "xlate wr va s =
     (let pde = ld s (P2V (PTE_ADDR (cr3 s)) + 4 * PDX va)
      in if pde AND PTE_P = 0 \<or> wr \<and> pde AND PTE_W = 0 then None
         else let pte = ld s (P2V (PTE_ADDR pde) + 4 * PTX va)
              in if pte AND PTE_P = 0 \<or> wr \<and> pte AND PTE_W = 0 then None
                 else Some (P2V (PTE_ADDR pte) + (va AND 0xFFF)))"

definition uget :: "addr \<Rightarrow> 'a proc_st_scheme \<Rightarrow> u8 res" where
  "uget va s = (case xlate False va s of None \<Rightarrow> Panic ''trap'' | Some a \<Rightarrow> Ok (mem s a))"

definition uput :: "addr \<Rightarrow> u8 \<Rightarrow> 'a proc_st_scheme \<Rightarrow> 'a proc_st_scheme res" where
  "uput va b s = (case xlate True va s of None \<Rightarrow> Panic ''trap'' | Some a \<Rightarrow> Ok (s\<lparr>mem := (mem s)(a := b)\<rparr>))"

fun uread :: "addr \<Rightarrow> nat \<Rightarrow> 'a proc_st_scheme \<Rightarrow> u8 list res" where
  "uread va 0 s = Ok []"
| "uread va (Suc n) s = bindr (uget va s) (\<lambda>b. bindr (uread (va + 1) n s) (\<lambda>bs. Ok (b # bs)))"

fun uwrite :: "addr \<Rightarrow> u8 list \<Rightarrow> 'a proc_st_scheme \<Rightarrow> 'a proc_st_scheme res" where
  "uwrite va [] s = Ok s"
| "uwrite va (b # bs) s = bindr (uput va b s) (uwrite (va + 1) bs)"

section \<open>Arguments\<close>

definition fetchint :: "addr \<Rightarrow> 'a proc_st_scheme \<Rightarrow> (u32 option \<times> 'a proc_st_scheme) res" where
  "fetchint a s =
     bindr (curproc s) (\<lambda>(p, s).
     if a \<ge> psz (procs s ! p) \<or> a + 4 > psz (procs s ! p) then Ok (None, s)
     else bindr (uread a 4 s) (\<lambda>bs. Ok (Some (get32 bs 0), s)))"

text \<open>The loop of \<^verbatim>\<open>fetchstr\<close> over the \<open>n\<close> bytes below the end of the process.\<close>

fun fetchstr_loop :: "nat \<Rightarrow> addr \<Rightarrow> 'a proc_st_scheme \<Rightarrow> u8 list option res" where
  "fetchstr_loop 0 a s = Ok None"
| "fetchstr_loop (Suc n) a s =
     bindr (uget a s) (\<lambda>b.
     if b = 0 then Ok (Some [])
     else bindr (fetchstr_loop n (a + 1) s) (\<lambda>r. Ok (map_option ((#) b) r)))"

definition fetchstr :: "addr \<Rightarrow> 'a proc_st_scheme \<Rightarrow> (u8 list option \<times> 'a proc_st_scheme) res" where
  "fetchstr a s =
     bindr (curproc s) (\<lambda>(p, s).
     let ep = psz (procs s ! p)
     in if a \<ge> ep then Ok (None, s)
        else bindr (fetchstr_loop (unat (ep - a)) a s) (\<lambda>r. Ok (r, s)))"

definition argint :: "nat \<Rightarrow> 'a proc_st_scheme \<Rightarrow> (u32 option \<times> 'a proc_st_scheme) res" where
  "argint n s =
     bindr (curproc s) (\<lambda>(p, s).
     fetchint (ld s (ptf (procs s ! p) + tf_esp) + 4 + 4 * of_nat n) s)"

definition argptr :: "nat \<Rightarrow> int \<Rightarrow> 'a proc_st_scheme \<Rightarrow> (addr option \<times> 'a proc_st_scheme) res" where
  "argptr n len s =
     bindr (curproc s) (\<lambda>(p, s).
     bindr (argint n s) (\<lambda>(io, s).
     case io of None \<Rightarrow> Ok (None, s)
     | Some i \<Rightarrow>
       if len < 0 \<or> i \<ge> psz (procs s ! p) \<or> i + word_of_int len > psz (procs s ! p) then Ok (None, s)
       else Ok (Some i, s)))"

definition argstr :: "nat \<Rightarrow> 'a proc_st_scheme \<Rightarrow> (u8 list option \<times> 'a proc_st_scheme) res" where
  "argstr n s =
     bindr (argint n s) (\<lambda>(ao, s). case ao of None \<Rightarrow> Ok (None, s) | Some a \<Rightarrow> fetchstr a s)"

text \<open>The sequence \<^verbatim>\<open>if(arg...(...) < 0) return -1;\<close>.\<close>

definition fetch :: "('s \<Rightarrow> ('v option \<times> 's) res) \<Rightarrow> 's \<Rightarrow> ('v \<Rightarrow> 's \<Rightarrow> (int \<times> 's) res) \<Rightarrow> (int \<times> 's) res" where
  "fetch m s f = bindr (m s) (\<lambda>(vo, s). case vo of None \<Rightarrow> Ok (-1, s) | Some v \<Rightarrow> f v s)"

section \<open>Calls on processes\<close>

definition sys_fork :: "addr \<Rightarrow> 'a sys_st_scheme \<Rightarrow> (int \<times> 'a sys_st_scheme) res" where
  "sys_fork data s = fork data s"

definition sys_wait :: "'a sys_st_scheme \<Rightarrow> (int \<times> 'a sys_st_scheme) res" where
  "sys_wait s = wait s"

definition sys_kill :: "'a proc_st_scheme \<Rightarrow> (int \<times> 'a proc_st_scheme) res" where
  "sys_kill s = fetch (argint 0) s (\<lambda>n s. kill (sint n) s)"

definition sys_getpid :: "'a proc_st_scheme \<Rightarrow> (int \<times> 'a proc_st_scheme) res" where
  "sys_getpid s = bindr (curproc s) (\<lambda>(p, s). Ok (pid (procs s ! p), s))"

definition sys_sbrk :: "'a proc_st_scheme \<Rightarrow> (int \<times> 'a proc_st_scheme) res" where
  "sys_sbrk s =
     fetch (argint 0) s (\<lambda>n s.
     bindr (curproc s) (\<lambda>(p, s).
     let a = psz (procs s ! p)
     in bindr (growproc (sint n) s) (\<lambda>(r, s).
        if r < 0 then Ok (-1, s) else Ok (sint a, s))))"

text \<open>
  \<^verbatim>\<open>sys_sleep\<close> compares the unsigned difference with an \<^verbatim>\<open>int\<close>, so the comparison is unsigned. With
  ticks left to wait, the process sleeps.
\<close>

definition sys_sleep :: "'a sys_st_scheme \<Rightarrow> (int \<times> 'a sys_st_scheme) res" where
  "sys_sleep s =
     fetch (argint 0) s (\<lambda>n s.
     bindr (acquire TicksLock s) (\<lambda>s.
     let ticks0 = ticks s
     in if ticks s - ticks0 < n then
          bindr (am_killed s) (\<lambda>(k, s).
          if k then bindr (release TicksLock s) (\<lambda>s. Ok (-1, s)) else Blocks)
        else bindr (release TicksLock s) (\<lambda>s. Ok (0, s))))"

definition sys_uptime :: "'a sys_st_scheme \<Rightarrow> (int \<times> 'a sys_st_scheme) res" where
  "sys_uptime s =
     bindr (acquire TicksLock s) (\<lambda>s.
     let xticks = ticks s
     in bindr (release TicksLock s) (\<lambda>s. Ok (sint xticks, s)))"

section \<open>Calls on open files\<close>

definition argfd :: "nat \<Rightarrow> 'a proc_st_scheme \<Rightarrow> ((nat \<times> nat) option \<times> 'a proc_st_scheme) res" where
  "argfd n s =
     bindr (argint n s) (\<lambda>(fdo, s).
     case fdo of None \<Rightarrow> Ok (None, s)
     | Some w \<Rightarrow>
       let fd = sint w
       in if fd < 0 \<or> fd \<ge> int NOFILE then Ok (None, s)
          else bindr (curproc s) (\<lambda>(p, s).
               case ofile (procs s ! p) ! nat fd of
                 None \<Rightarrow> Ok (None, s)
               | Some f \<Rightarrow> Ok (Some (nat fd, f), s)))"

definition set_ofile :: "nat \<Rightarrow> nat \<Rightarrow> nat option \<Rightarrow> 'a proc_st_scheme \<Rightarrow> 'a proc_st_scheme" where
  "set_ofile p fd v s = set_proc p (\<lambda>x. x\<lparr>ofile := (ofile x)[fd := v]\<rparr>) s"

definition fdalloc :: "nat \<Rightarrow> 'a proc_st_scheme \<Rightarrow> (nat option \<times> 'a proc_st_scheme) res" where
  "fdalloc f s =
     bindr (curproc s) (\<lambda>(p, s).
     case first_idx (\<lambda>x. x = None) (ofile (procs s ! p)) of
       None \<Rightarrow> Ok (None, s)
     | Some fd \<Rightarrow> Ok (Some fd, set_ofile p fd (Some f) s))"

definition sys_dup :: "'a sys_st_scheme \<Rightarrow> (int \<times> 'a sys_st_scheme) res" where
  "sys_dup s =
     fetch (argfd 0) s (\<lambda>(_, f) s.
     fetch (fdalloc f) s (\<lambda>fd s.
     bindr (filedup f s) (\<lambda>(_, s). Ok (int fd, s))))"

definition sys_read :: "('a sys_st_scheme) devsw \<Rightarrow> 'a sys_st_scheme \<Rightarrow> (int \<times> 'a sys_st_scheme) res" where
  "sys_read dv s =
     fetch (argfd 0) s (\<lambda>(_, f) s.
     fetch (argint 2) s (\<lambda>n s.
     fetch (argptr 1 (sint n)) s (\<lambda>p s.
     bindr (fileread dv f (sint n) s) (\<lambda>(r, bs, s).
     bindr (uwrite p bs s) (\<lambda>s. Ok (r, s))))))"

definition sys_write :: "('a sys_st_scheme) devsw \<Rightarrow> 'a sys_st_scheme \<Rightarrow> (int \<times> 'a sys_st_scheme) res" where
  "sys_write dv s =
     fetch (argfd 0) s (\<lambda>(_, f) s.
     fetch (argint 2) s (\<lambda>n s.
     fetch (argptr 1 (sint n)) s (\<lambda>p s.
     bindr (uread p (unat n) s) (\<lambda>bs. filewrite dv f bs s))))"

definition sys_close :: "'a sys_st_scheme \<Rightarrow> (int \<times> 'a sys_st_scheme) res" where
  "sys_close s =
     fetch (argfd 0) s (\<lambda>(fd, f) s.
     bindr (curproc s) (\<lambda>(p, s).
     bindr (fileclose f (set_ofile p fd None s)) (\<lambda>s. Ok (0, s))))"

text \<open>\<^verbatim>\<open>struct stat\<close> in memory: two bytes of padding after the type and after the link count.\<close>

definition sizeof_stat :: int where "sizeof_stat = 20"

definition put_stat :: "addr \<Rightarrow> stat \<Rightarrow> 'a proc_st_scheme \<Rightarrow> 'a proc_st_scheme res" where
  "put_stat a x s =
     bindr (uwrite a (le16 (st_type x)) s) (\<lambda>s.
     bindr (uwrite (a + 4) (le32 (st_dev x)) s) (\<lambda>s.
     bindr (uwrite (a + 8) (le32 (st_ino x)) s) (\<lambda>s.
     bindr (uwrite (a + 12) (le16 (st_nlink x)) s) (\<lambda>s.
     uwrite (a + 16) (le32 (st_size x)) s))))"

definition sys_fstat :: "'a sys_st_scheme \<Rightarrow> (int \<times> 'a sys_st_scheme) res" where
  "sys_fstat s =
     fetch (argfd 0) s (\<lambda>(_, f) s.
     fetch (argptr 1 sizeof_stat) s (\<lambda>p s.
     bindr (filestat f s) (\<lambda>(xo, s).
     case xo of None \<Rightarrow> Ok (-1, s) | Some x \<Rightarrow> bindr (put_stat p x s) (\<lambda>s. Ok (0, s)))))"

section \<open>Calls on names\<close>

definition fail_op :: "'a sys_st_scheme \<Rightarrow> (int \<times> 'a sys_st_scheme) res" where
  "fail_op s = bindr (end_op s) (\<lambda>s. Ok (-1, s))"

definition link_bad :: "nat \<Rightarrow> 'a sys_st_scheme \<Rightarrow> (int \<times> 'a sys_st_scheme) res" where
  "link_bad ip s =
     bindr (ilock (Some ip) s) (\<lambda>s.
     bindr (iupdate ip (set_inode ip (\<lambda>x. x\<lparr>i_nlink := i_nlink x - 1\<rparr>) s)) (\<lambda>s.
     bindr (iunlockput ip s) fail_op))"

definition sys_link :: "('a sys_st_scheme) devsw \<Rightarrow> 'a sys_st_scheme \<Rightarrow> (int \<times> 'a sys_st_scheme) res" where
  "sys_link dv s =
     fetch (argstr 0) s (\<lambda>old s.
     fetch (argstr 1) s (\<lambda>new s.
     bindr (begin_op s) (\<lambda>s.
     bindr (namei dv old s) (\<lambda>(ipo, s).
     case ipo of None \<Rightarrow> fail_op s
     | Some ip \<Rightarrow>
       bindr (ilock (Some ip) s) (\<lambda>s.
       if i_type (inodes s ip) = T_DIR then bindr (iunlockput ip s) fail_op
       else
         bindr (iupdate ip (set_inode ip (\<lambda>x. x\<lparr>i_nlink := i_nlink x + 1\<rparr>) s)) (\<lambda>s.
         bindr (iunlock (Some ip) s) (\<lambda>s.
         bindr (nameiparent dv new s) (\<lambda>(dpo, s).
         case dpo of None \<Rightarrow> link_bad ip s
         | Some (dp, name) \<Rightarrow>
           bindr (ilock (Some dp) s) (\<lambda>s.
           bindr (if i_dev (inodes s dp) \<noteq> i_dev (inodes s ip) then Ok (-1, s)
                  else dirlink dv dp name (i_inum (inodes s ip)) s) (\<lambda>(r, s).
           if r < 0 then bindr (iunlockput dp s) (link_bad ip)
           else bindr (iunlockput dp s) (\<lambda>s.
                bindr (iput ip s) (\<lambda>s.
                bindr (end_op s) (\<lambda>s. Ok (0, s))))))))))))))"

fun dirempty_loop :: "('a sys_st_scheme) devsw \<Rightarrow> nat \<Rightarrow> nat list \<Rightarrow> 'a sys_st_scheme \<Rightarrow> (bool \<times> 'a sys_st_scheme) res" where
  "dirempty_loop dv dp [] s = Ok (True, s)"
| "dirempty_loop dv dp (off # offs) s =
     bindr (readi dv dp (of_nat off) 16 s) (\<lambda>(r, de, s).
     if r \<noteq> 16 then Panic ''isdirempty: readi''
     else if dirent_inum de \<noteq> 0 then Ok (False, s)
     else dirempty_loop dv dp offs s)"

definition isdirempty :: "('a sys_st_scheme) devsw \<Rightarrow> nat \<Rightarrow> 'a sys_st_scheme \<Rightarrow> (bool \<times> 'a sys_st_scheme) res" where
  "isdirempty dv dp s = dirempty_loop dv dp (drop 2 (dir_offs (i_size (inodes s dp)))) s"

definition dot :: "u8 list" where "dot = [46]"
definition dotdot :: "u8 list" where "dotdot = [46, 46]"

definition unlink_bad :: "nat \<Rightarrow> 'a sys_st_scheme \<Rightarrow> (int \<times> 'a sys_st_scheme) res" where
  "unlink_bad dp s = bindr (iunlockput dp s) fail_op"

definition sys_unlink :: "('a sys_st_scheme) devsw \<Rightarrow> 'a sys_st_scheme \<Rightarrow> (int \<times> 'a sys_st_scheme) res" where
  "sys_unlink dv s =
     fetch (argstr 0) s (\<lambda>path s.
     bindr (begin_op s) (\<lambda>s.
     bindr (nameiparent dv path s) (\<lambda>(dpo, s).
     case dpo of None \<Rightarrow> fail_op s
     | Some (dp, name) \<Rightarrow>
       bindr (ilock (Some dp) s) (\<lambda>s.
       if namecmp name dot = 0 \<or> namecmp name dotdot = 0 then unlink_bad dp s
       else bindr (dirlookup dv dp name s) (\<lambda>(ro, s).
         case ro of None \<Rightarrow> unlink_bad dp s
         | Some (ip, off) \<Rightarrow>
           bindr (ilock (Some ip) s) (\<lambda>s.
           if sint (i_nlink (inodes s ip)) < 1 then Panic ''unlink: nlink < 1''
           else bindr (if i_type (inodes s ip) = T_DIR then isdirempty dv ip s else Ok (True, s)) (\<lambda>(e, s).
             if \<not> e then bindr (iunlockput ip s) (unlink_bad dp)
             else bindr (writei dv dp (replicate 16 0) off s) (\<lambda>(r, s).
               if r \<noteq> 16 then Panic ''unlink: writei''
               else bindr (if i_type (inodes s ip) = T_DIR
                           then iupdate dp (set_inode dp (\<lambda>x. x\<lparr>i_nlink := i_nlink x - 1\<rparr>) s)
                           else Ok s) (\<lambda>s.
                 bindr (iunlockput dp s) (\<lambda>s.
                 bindr (iupdate ip (set_inode ip (\<lambda>x. x\<lparr>i_nlink := i_nlink x - 1\<rparr>) s)) (\<lambda>s.
                 bindr (iunlockput ip s) (\<lambda>s.
                 bindr (end_op s) (\<lambda>s. Ok (0, s))))))))))))))"

definition create :: "('a sys_st_scheme) devsw \<Rightarrow> u8 list \<Rightarrow> u16 \<Rightarrow> u16 \<Rightarrow> u16 \<Rightarrow> 'a sys_st_scheme \<Rightarrow> (nat option \<times> 'a sys_st_scheme) res" where
  "create dv path type major minor s =
     bindr (nameiparent dv path s) (\<lambda>(dpo, s).
     case dpo of None \<Rightarrow> Ok (None, s)
     | Some (dp, name) \<Rightarrow>
       bindr (ilock (Some dp) s) (\<lambda>s.
       bindr (dirlookup dv dp name s) (\<lambda>(ro, s).
       case ro of
         Some (ip, _) \<Rightarrow>
           bindr (iunlockput dp s) (\<lambda>s.
           bindr (ilock (Some ip) s) (\<lambda>s.
           if type = T_FILE \<and> i_type (inodes s ip) = T_FILE then Ok (Some ip, s)
           else bindr (iunlockput ip s) (\<lambda>s. Ok (None, s))))
       | None \<Rightarrow>
           bindr (ialloc (i_dev (inodes s dp)) type s) (\<lambda>(ip, s).
           bindr (ilock (Some ip) s) (\<lambda>s.
           bindr (iupdate ip (set_inode ip (\<lambda>x. x\<lparr>i_major := major, i_minor := minor, i_nlink := 1\<rparr>) s)) (\<lambda>s.
           bindr (if type = T_DIR then
                    bindr (iupdate dp (set_inode dp (\<lambda>x. x\<lparr>i_nlink := i_nlink x + 1\<rparr>) s)) (\<lambda>s.
                    bindr (dirlink dv ip dot (i_inum (inodes s ip)) s) (\<lambda>(r, s).
                    if r < 0 then Panic ''create dots''
                    else bindr (dirlink dv ip dotdot (i_inum (inodes s dp)) s) (\<lambda>(r, s).
                         if r < 0 then Panic ''create dots'' else Ok s)))
                  else Ok s) (\<lambda>s.
           bindr (dirlink dv dp name (i_inum (inodes s ip)) s) (\<lambda>(r, s).
           if r < 0 then Panic ''create: dirlink''
           else bindr (iunlockput dp s) (\<lambda>s. Ok (Some ip, s))))))))))"

text \<open>The first part of \<^verbatim>\<open>sys_open\<close>, up to the locked inode; \<open>None\<close> after a failure.\<close>

definition open_inode :: "('a sys_st_scheme) devsw \<Rightarrow> u8 list \<Rightarrow> u32 \<Rightarrow> 'a sys_st_scheme \<Rightarrow> (nat option \<times> 'a sys_st_scheme) res" where
  "open_inode dv path omode s =
     (if omode AND word_of_int O_CREATE \<noteq> 0 then
        bindr (create dv path T_FILE 0 0 s) (\<lambda>(ipo, s).
        case ipo of None \<Rightarrow> bindr (end_op s) (\<lambda>s. Ok (None, s)) | Some ip \<Rightarrow> Ok (Some ip, s))
      else
        bindr (namei dv path s) (\<lambda>(ipo, s).
        case ipo of None \<Rightarrow> bindr (end_op s) (\<lambda>s. Ok (None, s))
        | Some ip \<Rightarrow>
          bindr (ilock (Some ip) s) (\<lambda>s.
          if i_type (inodes s ip) = T_DIR \<and> omode \<noteq> word_of_int O_RDONLY
          then bindr (iunlockput ip s) (\<lambda>s. bindr (end_op s) (\<lambda>s. Ok (None, s)))
          else Ok (Some ip, s))))"

definition open_bad :: "nat option \<Rightarrow> nat \<Rightarrow> 'a sys_st_scheme \<Rightarrow> (int \<times> 'a sys_st_scheme) res" where
  "open_bad fo ip s =
     bindr (case fo of None \<Rightarrow> Ok s | Some f \<Rightarrow> fileclose f s) (\<lambda>s.
     bindr (iunlockput ip s) fail_op)"

definition sys_open :: "('a sys_st_scheme) devsw \<Rightarrow> 'a sys_st_scheme \<Rightarrow> (int \<times> 'a sys_st_scheme) res" where
  "sys_open dv s =
     fetch (argstr 0) s (\<lambda>path s.
     fetch (argint 1) s (\<lambda>omode s.
     bindr (begin_op s) (\<lambda>s.
     fetch (open_inode dv path omode) s (\<lambda>ip s.
     bindr (filealloc s) (\<lambda>(fo, s).
     case fo of None \<Rightarrow> open_bad None ip s
     | Some f \<Rightarrow>
       bindr (fdalloc f s) (\<lambda>(fdo, s).
       case fdo of None \<Rightarrow> open_bad (Some f) ip s
       | Some fd \<Rightarrow>
         bindr (iunlock (Some ip) s) (\<lambda>s.
         bindr (end_op s) (\<lambda>s.
         Ok (int fd, set_file f (\<lambda>x. x\<lparr>f_type := FD_INODE, f_ip := ip, f_off := 0,
           f_readable := (omode AND word_of_int O_WRONLY = 0),
           f_writable := (omode AND word_of_int O_WRONLY \<noteq> 0 \<or> omode AND word_of_int O_RDWR \<noteq> 0)\<rparr>) s)))))))))"

definition sys_mkdir :: "('a sys_st_scheme) devsw \<Rightarrow> 'a sys_st_scheme \<Rightarrow> (int \<times> 'a sys_st_scheme) res" where
  "sys_mkdir dv s =
     bindr (begin_op s) (\<lambda>s.
     bindr (argstr 0 s) (\<lambda>(po, s).
     case po of None \<Rightarrow> fail_op s
     | Some path \<Rightarrow>
       bindr (create dv path T_DIR 0 0 s) (\<lambda>(ipo, s).
       case ipo of None \<Rightarrow> fail_op s
       | Some ip \<Rightarrow>
         bindr (iunlockput ip s) (\<lambda>s.
         bindr (end_op s) (\<lambda>s. Ok (0, s))))))"

definition sys_mknod :: "('a sys_st_scheme) devsw \<Rightarrow> 'a sys_st_scheme \<Rightarrow> (int \<times> 'a sys_st_scheme) res" where
  "sys_mknod dv s =
     bindr (begin_op s) (\<lambda>s.
     bindr (argstr 0 s) (\<lambda>(po, s).
     case po of None \<Rightarrow> fail_op s
     | Some path \<Rightarrow>
       bindr (argint 1 s) (\<lambda>(ma, s).
       case ma of None \<Rightarrow> fail_op s
       | Some major \<Rightarrow>
         bindr (argint 2 s) (\<lambda>(mi, s).
         case mi of None \<Rightarrow> fail_op s
         | Some minor \<Rightarrow>
           bindr (create dv path T_DEV (ucast major) (ucast minor) s) (\<lambda>(ipo, s).
           case ipo of None \<Rightarrow> fail_op s
           | Some ip \<Rightarrow>
             bindr (iunlockput ip s) (\<lambda>s.
             bindr (end_op s) (\<lambda>s. Ok (0, s))))))))"

definition sys_chdir :: "('a sys_st_scheme) devsw \<Rightarrow> 'a sys_st_scheme \<Rightarrow> (int \<times> 'a sys_st_scheme) res" where
  "sys_chdir dv s =
     bindr (curproc s) (\<lambda>(p, s).
     bindr (begin_op s) (\<lambda>s.
     bindr (argstr 0 s) (\<lambda>(po, s).
     case po of None \<Rightarrow> fail_op s
     | Some path \<Rightarrow>
       bindr (namei dv path s) (\<lambda>(ipo, s).
       case ipo of None \<Rightarrow> fail_op s
       | Some ip \<Rightarrow>
         bindr (ilock (Some ip) s) (\<lambda>s.
         if i_type (inodes s ip) \<noteq> T_DIR then bindr (iunlockput ip s) fail_op
         else
           bindr (iunlock (Some ip) s) (\<lambda>s.
           bindr (iput (the (cwd (procs s ! p))) s) (\<lambda>s.
           bindr (end_op s) (\<lambda>s. Ok (0, set_proc p (\<lambda>x. x\<lparr>cwd := Some ip\<rparr>) s)))))))))"

text \<open>The loop of \<^verbatim>\<open>sys_exec\<close>: \<open>n\<close> slots of \<^verbatim>\<open>argv\<close> are left.\<close>

fun exec_argv :: "nat \<Rightarrow> addr \<Rightarrow> 'a sys_st_scheme \<Rightarrow> (u8 list list option \<times> 'a sys_st_scheme) res" where
  "exec_argv 0 uargv s = Ok (None, s)"
| "exec_argv (Suc n) uargv s =
     bindr (fetchint uargv s) (\<lambda>(uo, s).
     case uo of None \<Rightarrow> Ok (None, s)
     | Some uarg \<Rightarrow>
       if uarg = 0 then Ok (Some [], s)
       else bindr (fetchstr uarg s) (\<lambda>(ao, s).
         case ao of None \<Rightarrow> Ok (None, s)
         | Some a \<Rightarrow> bindr (exec_argv n (uargv + 4) s) (\<lambda>(r, s). Ok (map_option ((#) a) r, s))))"

definition sys_exec :: "('a sys_st_scheme) devsw \<Rightarrow> addr \<Rightarrow> 'a sys_st_scheme \<Rightarrow> (int \<times> 'a sys_st_scheme) res" where
  "sys_exec dv data s =
     fetch (argstr 0) s (\<lambda>path s.
     fetch (argint 1) s (\<lambda>uargv s.
     fetch (exec_argv MAXARG uargv) s (\<lambda>argv s. exec dv data path argv s)))"

definition sys_pipe :: "'a sys_st_scheme \<Rightarrow> (int \<times> 'a sys_st_scheme) res" where
  "sys_pipe s =
     fetch (argptr 0 8) s (\<lambda>fd s.
     fetch pipealloc s (\<lambda>(rf, wf) s.
     bindr (fdalloc rf s) (\<lambda>(fd0, s).
     case fd0 of
       None \<Rightarrow> bindr (fileclose rf s) (\<lambda>s. bindr (fileclose wf s) (\<lambda>s. Ok (-1, s)))
     | Some a \<Rightarrow>
       bindr (fdalloc wf s) (\<lambda>(fd1, s).
       case fd1 of
         None \<Rightarrow>
           bindr (curproc s) (\<lambda>(p, s).
           bindr (fileclose rf (set_ofile p a None s)) (\<lambda>s.
           bindr (fileclose wf s) (\<lambda>s. Ok (-1, s))))
       | Some b \<Rightarrow>
           bindr (uwrite fd (le32 (of_nat a)) s) (\<lambda>s.
           bindr (uwrite (fd + 4) (le32 (of_nat b)) s) (\<lambda>s. Ok (0, s)))))))"

section \<open>Dispatch\<close>

text \<open>
  \<open>call\<close> is the table \<^verbatim>\<open>syscalls\<close>: \<open>None\<close> for a number that has no entry. The result of a call is
  \<open>None\<close> when it does not return to the caller, as \<^verbatim>\<open>exit\<close>.
\<close>

definition returns :: "(int \<times> 's) res \<Rightarrow> (int option \<times> 's) res" where
  "returns m = bindr m (\<lambda>(r, s). Ok (Some r, s))"

definition sys_exit :: "'a sys_st_scheme \<Rightarrow> (int option \<times> 'a sys_st_scheme) res" where
  "sys_exit s = bindr (exit s) (\<lambda>s. Ok (None, s))"

definition call :: "('a sys_st_scheme) devsw \<Rightarrow> addr \<Rightarrow> int \<Rightarrow> ('a sys_st_scheme \<Rightarrow> (int option \<times> 'a sys_st_scheme) res) option" where
  "call dv data num =
     (if num = 1 then Some (\<lambda>s. returns (sys_fork data s))
      else if num = 2 then Some sys_exit
      else if num = 3 then Some (\<lambda>s. returns (sys_wait s))
      else if num = 4 then Some (\<lambda>s. returns (sys_pipe s))
      else if num = 5 then Some (\<lambda>s. returns (sys_read dv s))
      else if num = 6 then Some (\<lambda>s. returns (sys_kill s))
      else if num = 7 then Some (\<lambda>s. returns (sys_exec dv data s))
      else if num = 8 then Some (\<lambda>s. returns (sys_fstat s))
      else if num = 9 then Some (\<lambda>s. returns (sys_chdir dv s))
      else if num = 10 then Some (\<lambda>s. returns (sys_dup s))
      else if num = 11 then Some (\<lambda>s. returns (sys_getpid s))
      else if num = 12 then Some (\<lambda>s. returns (sys_sbrk s))
      else if num = 13 then Some (\<lambda>s. returns (sys_sleep s))
      else if num = 14 then Some (\<lambda>s. returns (sys_uptime s))
      else if num = 15 then Some (\<lambda>s. returns (sys_open dv s))
      else if num = 16 then Some (\<lambda>s. returns (sys_write dv s))
      else if num = 17 then Some (\<lambda>s. returns (sys_mknod dv s))
      else if num = 18 then Some (\<lambda>s. returns (sys_unlink dv s))
      else if num = 19 then Some (\<lambda>s. returns (sys_link dv s))
      else if num = 20 then Some (\<lambda>s. returns (sys_mkdir dv s))
      else if num = 21 then Some (\<lambda>s. returns (sys_close s))
      else None)"

definition syscall :: "('a sys_st_scheme) devsw \<Rightarrow> addr \<Rightarrow> 'a sys_st_scheme \<Rightarrow> (bool \<times> 'a sys_st_scheme) res" where
  "syscall dv data s =
     bindr (curproc s) (\<lambda>(p, s).
     let num = sint (ld s (ptf (procs s ! p) + tf_eax))
     in case call dv data num of
          None \<Rightarrow> Ok (True, put_tf p tf_eax (-1) s)
        | Some f \<Rightarrow>
            bindr (f s) (\<lambda>(ro, s).
            case ro of None \<Rightarrow> Ok (False, s)
            | Some r \<Rightarrow> Ok (True, put_tf p tf_eax (word_of_int r) s)))"

section \<open>Arguments stay inside the process\<close>

definition running :: "nat \<Rightarrow> 'a proc_st_scheme \<Rightarrow> bool" where
  "running p s \<longleftrightarrow> cpu_ok s \<and> cproc (cpus s (the (cpu_index s))) = Some p"

lemma settle_vm [simp]:
  "cr3 (settle s) = cr3 s" "ld (settle s) a = ld s a" "xlate w a (settle s) = xlate w a s" "uget a (settle s) = uget a s"
proof -
  show c: "cr3 (settle s) = cr3 s" by (simp add: settle_def set_cpu_def split: option.split)
  show d: "ld (settle s) a = ld s a" for a by (simp add: ld_def)
  show x: "xlate w a (settle s) = xlate w a s" for w by (simp only: xlate_def c d)
  show "uget a (settle s) = uget a s" by (simp add: uget_def x split: option.split)
qed

lemma uread_settle [simp]: "uread a n (settle s) = uread a n s"
  by (induction n arbitrary: a) simp_all

lemma curproc_eq: "running p s \<Longrightarrow> curproc s = Ok (p, settle s)"
  by (simp add: curproc_def running_def myproc_eq)

lemma running_settle [simp]: "running p (settle s) = running p s"
  by (simp add: running_def)

lemma low_sum:
  fixes a b sz :: u32
  assumes "a < sz" "sz \<le> KERNBASE" "unat b < 2 ^ 31" "\<not> a + b > sz"
  shows "unat a + unat b \<le> unat sz"
proof -
  have "unat sz \<le> 2 ^ 31" using assms(2) by (simp add: KERNBASE_def word_le_nat_alt)
  then have "unat a < 2 ^ 31" using assms(1) by (simp add: word_less_nat_alt)
  then have "unat (a + b) = unat a + unat b" using assms(3) by (simp add: unat_word_ariths)
  then show ?thesis using assms(4) by (simp add: word_less_nat_alt)
qed

lemma fetchint_inside:
  assumes "running p s" "psz (procs s ! p) \<le> KERNBASE" "fetchint a s = Ok (Some v, s')"
  shows "unat a + 4 \<le> unat (psz (procs s ! p))"
  using assms low_sum [of a "psz (procs s ! p)" 4]
  by (auto simp: fetchint_def curproc_eq split: if_splits)

lemma fetchint_state: "running p s \<Longrightarrow> fetchint a s = Ok (r, s') \<Longrightarrow> s' = settle s"
  by (auto simp: fetchint_def curproc_eq res_simps split: if_splits)


lemma argint_state: "running p s \<Longrightarrow> argint n s = Ok (r, s') \<Longrightarrow> s' = settle s"
  using fetchint_state [of p "settle s"] by (auto simp: argint_def curproc_eq)

lemma fetchstr_loop_bytes:
  "fetchstr_loop n a s = Ok (Some bs) \<Longrightarrow> length bs < n \<and> 0 \<notin> set bs \<and> uread a (Suc (length bs)) s = Ok (bs @ [0])"
proof (induction n arbitrary: a bs)
  case (Suc n)
  from Suc.prems obtain b where b: "uget a s = Ok b" by (auto simp: res_simps)
  show ?case
  proof (cases "b = 0")
    case True
    then show ?thesis using Suc.prems b by auto
  next
    case False
    with Suc.prems b obtain cs where "fetchstr_loop n (a + 1) s = Ok (Some cs)" "bs = b # cs"
      by (auto simp: res_simps)
    then show ?thesis using Suc.IH [of "a + 1" cs] b False by (auto simp: res_simps)
  qed
qed simp

text \<open>
  C0: a process whose size is at most \<^verbatim>\<open>KERNBASE\<close> cannot make the kernel touch memory outside
  it. An integer argument is fetched from four bytes of the process; a buffer argument lies
  inside the process as a whole, with no wrap-around of the 32-bit sum the code tests; a string
  argument ends with its NUL below the end of the process, and the bytes the kernel goes on to use
  are the ones in the process's memory.
\<close>

theorem arguments_confined:
  assumes "running p s" "psz (procs s ! p) \<le> KERNBASE"
  shows "(\<forall>a v s'. fetchint a s = Ok (Some v, s') \<longrightarrow> unat a + 4 \<le> unat (psz (procs s ! p))) \<and>
    (\<forall>n len a s'. len < 2 ^ 31 \<longrightarrow> argptr n len s = Ok (Some a, s') \<longrightarrow>
       0 \<le> len \<and> unat a + nat len \<le> unat (psz (procs s ! p))) \<and>
    (\<forall>a bs s'. fetchstr a s = Ok (Some bs, s') \<longrightarrow>
       unat a + length bs < unat (psz (procs s ! p)) \<and> 0 \<notin> set bs \<and>
       uread a (Suc (length bs)) s = Ok (bs @ [0]))"
proof (intro conjI allI impI)
  fix a v s' assume "fetchint a s = Ok (Some v, s')"
  then show "unat a + 4 \<le> unat (psz (procs s ! p))" by (rule fetchint_inside [OF assms])
next
  fix n and len :: int and a s' assume l: "len < 2 ^ 31" and r: "argptr n len s = Ok (Some a, s')"
  obtain s1 where g: "argint n (settle s) = Ok (Some a, s1)" and c: "0 \<le> len" "a < psz (procs s1 ! p)"
    "\<not> a + word_of_int len > psz (procs s1 ! p)"
    using r curproc_eq [OF assms(1)] by (auto simp: argptr_def res_simps not_le split: option.splits if_splits)
  have s1: "procs s1 = procs s" using argint_state [OF _ g, of p] assms(1) by simp
  have u: "unat (word_of_int len :: u32) = nat len" using c(1) l
    by (simp add: unat_eq_nat_uint uint_word_of_int take_bit_int_eq_self)
  show "0 \<le> len" by (rule c)
  show "unat a + nat len \<le> unat (psz (procs s ! p))"
    using low_sum [of a "psz (procs s ! p)" "word_of_int len"] c(2,3) assms(2) l c(1) unfolding s1 u by simp
next
  fix a bs s' assume r: "fetchstr a s = Ok (Some bs, s')"
  then have a: "a < psz (procs s ! p)" and f: "fetchstr_loop (unat (psz (procs s ! p) - a)) a (settle s) = Ok (Some bs)"
    using curproc_eq [OF assms(1)] by (auto simp: fetchstr_def res_simps Let_def not_le split: if_splits)
  from fetchstr_loop_bytes [OF f] have b: "length bs < unat (psz (procs s ! p) - a)" "0 \<notin> set bs"
    "uread a (Suc (length bs)) (settle s) = Ok (bs @ [0])" by auto
  show "unat a + length bs < unat (psz (procs s ! p))"
    using b(1) a by (simp add: unat_sub_if' word_less_nat_alt)
  show "0 \<notin> set bs" "uread a (Suc (length bs)) s = Ok (bs @ [0])" using b by (simp_all del: uread.simps)
qed

text \<open>A process with one page, mapped at 0 by a page directory and a page table, that holds the string \<^verbatim>\<open>hi\<close> at 16.\<close>

definition one_page :: memory where
  "one_page = store32 (store32 ((\<lambda>_. 0)(0x80003010 := 104, 0x80003011 := 105)) 0x80002000 0x3007) 0x80001000 0x2007"

definition user_state :: proc_st where
  "user_state = set_cpu 0 (\<lambda>c. c\<lparr>cproc := Some 0\<rparr>)
     (boot_proc\<lparr>procs := [free_proc\<lparr>pstate := RUNNING, psz := 4096\<rparr>], cr3 := 0x1000, mem := one_page\<rparr>)"

theorem arguments_confined_witness:
  "\<exists>s'. fetchstr 16 user_state = Ok (Some [104, 105], s') \<and> uread 16 3 user_state = Ok [104, 105, 0]"
proof -
  have r: "running 0 user_state"
    by (simp add: running_def user_state_def set_cpu_def boot_proc_def boot_kmem_def boot_kst_def boot_cpu_def kst.defs kmem_st.defs cpu_ok_def cpu_index_def)
  have z: "psz (procs user_state ! 0) = 4096" by (simp add: user_state_def set_cpu_def)
  have cr: "cr3 user_state = 0x1000" and m: "mem user_state = one_page" by (simp_all add: user_state_def set_cpu_def)
  have d: "ld user_state 0x80001000 = 0x2007" "ld user_state 0x80002000 = 0x3007"
    using load32_store32_other [of 0 4096 "store32 ((\<lambda>_. 0)(0x80003010 := 104, 0x80003011 := 105)) 0x80002000 0x3007" "0x80001000" "0x2007"]
    by (simp_all add: ld_def m one_page_def)
  have x: "xlate False a user_state = Some (0x80003000 + a)" if "a \<in> {16, 17, 18}" for a
  proof -
    have v: "PTE_ADDR 0x1000 = 0x1000" "PTE_ADDR 0x2007 = 0x2000" "PTE_ADDR 0x3007 = 0x3000" "P2V 0x1000 = 0x80001000"
      "P2V 0x2000 = 0x80002000" "P2V 0x3000 = 0x80003000" "0x2007 AND PTE_P \<noteq> 0" "0x3007 AND PTE_P \<noteq> 0"
      by (simp_all add: PTE_ADDR_def P2V_def KERNBASE_def PTE_P_def)
    have a: "PDX a = 0" "PTX a = 0" "a AND 0xFFF = a" using that by (auto simp: PDX_def PTX_def)
    show ?thesis unfolding xlate_def a cr v Let_def by (simp add: v d a)
  qed
  have g: "uget 16 user_state = Ok 104" "uget 17 user_state = Ok 105" "uget 18 user_state = Ok 0"
    by (simp_all add: uget_def x) (simp_all add: user_state_def set_cpu_def one_page_def store32_outside in_region_def)
  have "fetchstr_loop (Suc (Suc (Suc k))) 16 (settle user_state) = Ok (Some [104, 105])" for k using g by simp
  moreover have "(4080 :: nat) = Suc (Suc (Suc 4077))" by simp
  ultimately have l: "fetchstr_loop 4080 16 (settle user_state) = Ok (Some [104, 105])" by (simp only:)
  have f: "fetchstr 16 user_state = Ok (Some [104, 105], settle user_state)"
    using curproc_eq [OF r] z l by (simp add: fetchstr_def Let_def)
  have "psz (procs user_state ! 0) \<le> KERNBASE" using z by (simp add: KERNBASE_def)
  from arguments_confined [OF r this, THEN conjunct2, THEN conjunct2] f
  have "uread 16 (Suc (length [104, 105 :: u8])) user_state = Ok ([104, 105] @ [0])" by blast
  then show ?thesis using f by (simp add: numeral_3_eq_3 del: uread.simps)
qed

end
