(* ===== verification/Xv6_Sh.thy ===== *)
theory Xv6_Sh
  imports Xv6_Prelude
begin

text \<open>
  The shell, \<^verbatim>\<open>sh.c\<close>: the parser and \<^verbatim>\<open>runcmd\<close>.

  The command line is a buffer of characters that ends with NUL at position \<open>es\<close>; the pointers
  of the source are positions in it. Pointers stored in a command (\<^verbatim>\<open>argv[i]\<close>/\<^verbatim>\<open>eargv[i]\<close>,
  \<^verbatim>\<open>file\<close>/\<^verbatim>\<open>efile\<close>) are pairs of positions. The shell's own \<^verbatim>\<open>panic\<close> prints its message and exits:
  \<open>Panic\<close>. The constructors do not test the result of \<^verbatim>\<open>malloc\<close>, which is taken to succeed.
\<close>

section \<open>Commands\<close>

abbreviation (input) NUL :: char where "NUL \<equiv> CHR 0x00"

definition MAXARGS :: nat where "MAXARGS = 10"

type_synonym span = "nat \<times> nat"

datatype cmd = Exec "span list" | Redir cmd span int nat | Pipe cmd cmd | List cmd cmd | Back cmd

definition execcmd :: cmd where "execcmd = Exec []"
definition redircmd :: "cmd \<Rightarrow> nat \<Rightarrow> nat \<Rightarrow> int \<Rightarrow> nat \<Rightarrow> cmd" where
  "redircmd subcmd file efile mode fd = Redir subcmd (file, efile) mode fd"
definition pipecmd :: "cmd \<Rightarrow> cmd \<Rightarrow> cmd" where "pipecmd left right = Pipe left right"
definition listcmd :: "cmd \<Rightarrow> cmd \<Rightarrow> cmd" where "listcmd left right = List left right"
definition backcmd :: "cmd \<Rightarrow> cmd" where "backcmd subcmd = Back subcmd"

text \<open>
  \<^verbatim>\<open>parseexec\<close> keeps a pointer to its \<^verbatim>\<open>execcmd\<close> while redirections are wrapped around it, and
  appends to the \<^verbatim>\<open>argv\<close> of that innermost command.
\<close>

fun add_arg :: "span \<Rightarrow> cmd \<Rightarrow> cmd" where
  "add_arg a (Exec as) = Exec (as @ [a])"
| "add_arg a (Redir c f m d) = Redir (add_arg a c) f m d"
| "add_arg a c = c"

section \<open>Tokens\<close>

definition whitespace :: string where
  "whitespace = [CHR '' '', CHR 0x09, CHR 0x0D, CHR 0x0A, CHR 0x0B]"

definition symbols :: string where "symbols = ''<|>&;()''"

text \<open>\<open>scan P buf es s\<close> is \<^verbatim>\<open>while(s < es && P(*s)) s++\<close>.\<close>

function scan :: "(char \<Rightarrow> bool) \<Rightarrow> string \<Rightarrow> nat \<Rightarrow> nat \<Rightarrow> nat" where
  "scan P buf es s = (if s < es \<and> P (buf ! s) then scan P buf es (s + 1) else s)"
  by pat_completeness auto
termination by (relation "measure (\<lambda>(P, buf, es, s). es - s)") auto

declare scan.simps [simp del]

abbreviation skip_ws :: "string \<Rightarrow> nat \<Rightarrow> nat \<Rightarrow> nat" where
  "skip_ws \<equiv> scan (\<lambda>c. c \<in> set whitespace)"

abbreviation skip_word :: "string \<Rightarrow> nat \<Rightarrow> nat \<Rightarrow> nat" where
  "skip_word \<equiv> scan (\<lambda>c. c \<notin> set whitespace \<and> c \<notin> set symbols)"

text \<open>The \<^verbatim>\<open>switch\<close> of \<^verbatim>\<open>gettoken\<close>: the kind of the token at \<open>s\<close> and its end.\<close>

definition tok_at :: "string \<Rightarrow> nat \<Rightarrow> nat \<Rightarrow> char \<times> nat" where
  "tok_at buf es s =
     (let c = buf ! s
      in if c = NUL then (c, s)
         else if c \<in> set ''|();&<'' then (c, s + 1)
         else if c = CHR ''>'' then (if buf ! (s + 1) = CHR ''>'' then (CHR ''+'', s + 2) else (c, s + 1))
         else (CHR ''a'', skip_word buf es s))"

definition gettoken :: "string \<Rightarrow> nat \<Rightarrow> nat \<Rightarrow> char \<times> nat \<times> nat \<times> nat" where
  "gettoken buf es ps =
     (let q = skip_ws buf es ps;
          (ret, eq) = tok_at buf es q
      in (ret, q, eq, skip_ws buf es eq))"

definition peek :: "string \<Rightarrow> nat \<Rightarrow> nat \<Rightarrow> string \<Rightarrow> bool \<times> nat" where
  "peek buf es ps toks =
     (let s = skip_ws buf es ps
      in (buf ! s \<noteq> NUL \<and> buf ! s \<in> set toks, s))"

definition cmdline :: "string \<Rightarrow> nat \<Rightarrow> bool" where
  "cmdline buf es \<longleftrightarrow> length buf = es + 1 \<and> buf ! es = NUL \<and> (\<forall>i<es. buf ! i \<noteq> NUL)"

lemma scan_le: "s \<le> scan P buf es s"
  by (induction P buf es s rule: scan.induct) (metis Suc_eq_plus1 Suc_leD order_refl scan.simps)

lemma scan_upper: "s \<le> es \<Longrightarrow> scan P buf es s \<le> es"
  by (induction P buf es s rule: scan.induct) (metis Suc_eq_plus1 Suc_leI scan.simps)

lemma scan_range: "s \<le> i \<Longrightarrow> i < scan P buf es s \<Longrightarrow> i < es \<and> P (buf ! i)"
proof (induction P buf es s rule: scan.induct)
  case (1 P buf es s)
  show ?case
  proof (cases "s < es \<and> P (buf ! s)")
    case True
    then show ?thesis using 1 scan.simps [of P buf es s] by (cases "i = s") auto
  qed (use 1 scan.simps [of P buf es s] in auto)
qed

lemma scan_stop: "scan P buf es s < es \<Longrightarrow> \<not> P (buf ! scan P buf es s)"
  by (induction P buf es s rule: scan.induct) (metis scan.simps)

lemma scan_idem [simp]: "scan P buf es (scan P buf es s) = scan P buf es s"
  using scan_stop [of P buf es s] scan.simps [of P buf es "scan P buf es s"] by auto

text \<open>A token is read inside the line; all but the end of the line advance the position.\<close>

lemma cmdline_NUL: "cmdline buf es \<Longrightarrow> i \<le> es \<Longrightarrow> buf ! i = NUL \<longleftrightarrow> i = es"
  unfolding cmdline_def by (metis le_neq_implies_less)

lemma NUL_free: "NUL \<notin> set whitespace" "NUL \<notin> set symbols"
  by (simp_all add: whitespace_def symbols_def)

definition special :: "char \<Rightarrow> bool" where "special c \<longleftrightarrow> c \<in> set ''|();&<''"

lemma symbol_cases: "c \<in> set symbols \<longleftrightarrow> special c \<or> c = CHR ''>''"
  by (auto simp: symbols_def special_def)

lemma special_not: "special c \<Longrightarrow> c \<noteq> NUL \<and> c \<noteq> CHR ''a'' \<and> c \<noteq> CHR ''>''"
  by (auto simp: special_def)


lemma gettoken_cases:
  assumes "cmdline buf es" "ps \<le> es" "gettoken buf es ps = (ret, q, eq, p)"
  obtains "q = skip_ws buf es ps" "p = skip_ws buf es eq" "q = es" "ret = NUL" "eq = q"
  | "q = skip_ws buf es ps" "p = skip_ws buf es eq" "q < es" "special ret" "buf ! q = ret" "eq = q + 1"
  | "q = skip_ws buf es ps" "p = skip_ws buf es eq" "q < es" "buf ! q = CHR ''>''" "ret = CHR ''>''" "eq = q + 1"
  | "q = skip_ws buf es ps" "p = skip_ws buf es eq" "q < es" "buf ! q = CHR ''>''" "buf ! (q + 1) = CHR ''>''"
    "ret = CHR ''+''" "eq = q + 2"
  | "q = skip_ws buf es ps" "p = skip_ws buf es eq" "q < es" "buf ! q \<notin> set whitespace" "buf ! q \<notin> set symbols"
    "ret = CHR ''a''" "eq = skip_word buf es q"
proof -
  let ?q = "skip_ws buf es ps"
  have q: "?q \<le> es" by (rule scan_upper [OF assms(2)])
  note n = cmdline_NUL [OF assms(1) q]
  have ws: "?q < es \<Longrightarrow> buf ! ?q \<notin> set whitespace" using scan_stop [of "\<lambda>c. c \<in> set whitespace" buf es ps] by simp
  have p: "q = ?q" "p = skip_ws buf es eq" and t: "(ret, eq) = tok_at buf es ?q"
    using assms(3) by (auto simp: gettoken_def Let_def split: prod.splits)
  have sp: "\<not> special CHR ''>''" by (simp add: special_def)
  have t': "ret = fst (tok_at buf es ?q)" "eq = snd (tok_at buf es ?q)" using t by (metis fst_conv, metis snd_conv)
  consider "?q = es" | "?q < es" "special (buf ! ?q)" | "?q < es" "buf ! ?q = CHR ''>''" "buf ! (?q + 1) = CHR ''>''"
    | "?q < es" "buf ! ?q = CHR ''>''" "buf ! (?q + 1) \<noteq> CHR ''>''" | "?q < es" "\<not> special (buf ! ?q)" "buf ! ?q \<noteq> CHR ''>''"
    using q by linarith
  then show thesis
  proof cases
    case 1
    then have "tok_at buf es ?q = (NUL, ?q)" using n by (simp add: tok_at_def)
    then show ?thesis using that(1) p t' 1 by simp
  next
    case 2
    then have "tok_at buf es ?q = (buf ! ?q, ?q + 1)" using n by (simp add: tok_at_def special_def)
    then show ?thesis using that(2) p t' 2 by simp
  next
    case 3
    then have "tok_at buf es ?q = (CHR ''+'', ?q + 2)" by (simp add: tok_at_def)
    then show ?thesis using that(4) p t' 3 by simp
  next
    case 4
    then have "tok_at buf es ?q = (CHR ''>'', ?q + 1)" by (simp add: tok_at_def)
    then show ?thesis using that(3) p t' 4 by simp
  next
    case 5
    then have "tok_at buf es ?q = (CHR ''a'', skip_word buf es ?q)" using n unfolding tok_at_def special_def by simp
    then show ?thesis using that(5) p t' 5 ws by (simp add: symbol_cases)
  qed
qed

lemma skip_word_less: "q < es \<Longrightarrow> buf ! q \<notin> set whitespace \<Longrightarrow> buf ! q \<notin> set symbols \<Longrightarrow> q < skip_word buf es q"
  using scan.simps [of "\<lambda>c. c \<notin> set whitespace \<and> c \<notin> set symbols" buf es q]
    scan_le [of "q + 1" "\<lambda>c. c \<notin> set whitespace \<and> c \<notin> set symbols" buf es] by simp

lemma gettoken_progress:
  assumes "cmdline buf es" "ps \<le> es" "gettoken buf es ps = (ret, q, eq, p)"
  shows "ps \<le> q \<and> q \<le> eq \<and> eq \<le> p \<and> p \<le> es \<and> (ret \<noteq> NUL \<longrightarrow> q < eq) \<and> (ret = NUL \<longleftrightarrow> q = es)"
proof -
  have q: "ps \<le> skip_ws buf es ps" "skip_ws buf es ps \<le> es" by (simp_all add: scan_le scan_upper assms(2))
  have eq: "eq \<le> es \<Longrightarrow> skip_ws buf es eq \<le> es" "eq \<le> skip_ws buf es eq" by (simp_all add: scan_le scan_upper)
  show ?thesis
  proof (rule gettoken_cases [OF assms])
    assume *: "q = skip_ws buf es ps" "p = skip_ws buf es eq" "q < es" "special ret" "buf ! q = ret" "eq = q + 1"
    then show ?thesis using q eq special_not [of ret] by simp
  next
    assume *: "q = skip_ws buf es ps" "p = skip_ws buf es eq" "q < es" "buf ! q = CHR ''>''" "buf ! (q + 1) = CHR ''>''"
      "ret = CHR ''+''" "eq = q + 2"
    then have "q + 1 \<noteq> es" using assms(1) by (auto simp: cmdline_def)
    then show ?thesis using * q eq by simp
  next
    assume *: "q = skip_ws buf es ps" "p = skip_ws buf es eq" "q < es" "buf ! q \<notin> set whitespace" "buf ! q \<notin> set symbols"
      "ret = CHR ''a''" "eq = skip_word buf es q"
    then show ?thesis using q eq skip_word_less [OF *(3-5)] scan_upper [of q es] by simp
  qed (use q eq in simp_all)
qed

lemma peek_progress:
  assumes "ps \<le> es" "peek buf es ps toks = (b, p)"
  shows "ps \<le> p \<and> p \<le> es \<and> p = skip_ws buf es ps"
  using assms scan_le scan_upper by (auto simp: peek_def Let_def)

section \<open>The parser\<close>

text \<open>
  The functions take fuel, consumed by every call and every turn of a loop; \<open>Blocks\<close> is the
  result when it runs out. \<open>parser_total\<close> below shows that the fuel \<open>parsecmd\<close> starts with is
  enough for every command line.
\<close>

fun parseredirs :: "nat \<Rightarrow> string \<Rightarrow> nat \<Rightarrow> cmd \<Rightarrow> nat \<Rightarrow> (cmd \<times> nat) res" where
  "parseredirs 0 buf es c ps = Blocks"
| "parseredirs (Suc n) buf es c ps =
     (let (b, ps) = peek buf es ps ''<>'' in
      if \<not> b then Ok (c, ps)
      else let (tok, _, _, ps) = gettoken buf es ps;
               (tok', q, eq, ps) = gettoken buf es ps
           in if tok' \<noteq> CHR ''a'' then Panic ''missing file for redirection''
              else let c = (if tok = CHR ''<'' then redircmd c q eq O_RDONLY 0
                            else if tok = CHR ''>'' then redircmd c q eq (O_WRONLY + O_CREATE) 1
                            else if tok = CHR ''+'' then redircmd c q eq (O_WRONLY + O_CREATE) 1
                            else c)
                   in parseredirs n buf es c ps)"

fun parse_args :: "nat \<Rightarrow> string \<Rightarrow> nat \<Rightarrow> nat \<Rightarrow> cmd \<Rightarrow> nat \<Rightarrow> (cmd \<times> nat) res" where
  "parse_args 0 buf es argc ret ps = Blocks"
| "parse_args (Suc n) buf es argc ret ps =
     (let (b, ps) = peek buf es ps ''|)&;'' in
      if b then Ok (ret, ps)
      else let (tok, q, eq, ps) = gettoken buf es ps
           in if tok = NUL then Ok (ret, ps)
              else if tok \<noteq> CHR ''a'' then Panic ''syntax''
              else let ret = add_arg (q, eq) ret; argc = argc + 1
                   in if argc \<ge> MAXARGS then Panic ''too many args''
                      else bindr (parseredirs n buf es ret ps) (\<lambda>(ret, ps).
                           parse_args n buf es argc ret ps))"

fun parse_backs :: "nat \<Rightarrow> string \<Rightarrow> nat \<Rightarrow> cmd \<Rightarrow> nat \<Rightarrow> (cmd \<times> nat) res" where
  "parse_backs 0 buf es c ps = Blocks"
| "parse_backs (Suc n) buf es c ps =
     (let (b, ps) = peek buf es ps ''&'' in
      if b then let (_, _, _, ps) = gettoken buf es ps in parse_backs n buf es (backcmd c) ps
      else Ok (c, ps))"

function (sequential) parseline :: "nat \<Rightarrow> string \<Rightarrow> nat \<Rightarrow> nat \<Rightarrow> (cmd \<times> nat) res"
and parsepipe :: "nat \<Rightarrow> string \<Rightarrow> nat \<Rightarrow> nat \<Rightarrow> (cmd \<times> nat) res"
and parseblock :: "nat \<Rightarrow> string \<Rightarrow> nat \<Rightarrow> nat \<Rightarrow> (cmd \<times> nat) res"
and parseexec :: "nat \<Rightarrow> string \<Rightarrow> nat \<Rightarrow> nat \<Rightarrow> (cmd \<times> nat) res" where
  "parseline 0 buf es ps = Blocks"
| "parseline (Suc n) buf es ps =
     bindr (parsepipe n buf es ps) (\<lambda>(c, ps).
     bindr (parse_backs n buf es c ps) (\<lambda>(c, ps).
     let (b, ps) = peek buf es ps '';'' in
     if b then
       let (_, _, _, ps) = gettoken buf es ps
       in bindr (parseline n buf es ps) (\<lambda>(c', ps). Ok (listcmd c c', ps))
     else Ok (c, ps)))"
| "parsepipe 0 buf es ps = Blocks"
| "parsepipe (Suc n) buf es ps =
     bindr (parseexec n buf es ps) (\<lambda>(c, ps).
     let (b, ps) = peek buf es ps ''|'' in
     if b then
       let (_, _, _, ps) = gettoken buf es ps
       in bindr (parsepipe n buf es ps) (\<lambda>(c', ps). Ok (pipecmd c c', ps))
     else Ok (c, ps))"
| "parseblock 0 buf es ps = Blocks"
| "parseblock (Suc n) buf es ps =
     (let (b, ps) = peek buf es ps ''('' in
      if \<not> b then Panic ''parseblock''
      else let (_, _, _, ps) = gettoken buf es ps
           in bindr (parseline n buf es ps) (\<lambda>(c, ps).
              let (b, ps) = peek buf es ps '')'' in
              if \<not> b then Panic ''syntax - missing )''
              else let (_, _, _, ps) = gettoken buf es ps
                   in parseredirs n buf es c ps))"
| "parseexec 0 buf es ps = Blocks"
| "parseexec (Suc n) buf es ps =
     (let (b, ps) = peek buf es ps ''('' in
      if b then parseblock n buf es ps
      else bindr (parseredirs n buf es execcmd ps) (\<lambda>(ret, ps). parse_args n buf es 0 ret ps))"
  by pat_completeness simp_all
termination
  by (relation "measure (case_sum (case_sum fst fst) (case_sum fst fst))") simp_all

fun nul_spans :: "span list \<Rightarrow> string \<Rightarrow> string" where
  "nul_spans [] buf = buf"
| "nul_spans ((q, eq) # as) buf = nul_spans as (buf[eq := NUL])"

fun nulterminate :: "cmd \<Rightarrow> string \<Rightarrow> string" where
  "nulterminate (Exec as) buf = nul_spans as buf"
| "nulterminate (Redir c (file, efile) mode fd) buf = (nulterminate c buf)[efile := NUL]"
| "nulterminate (Pipe l r) buf = nulterminate r (nulterminate l buf)"
| "nulterminate (List l r) buf = nulterminate r (nulterminate l buf)"
| "nulterminate (Back c) buf = nulterminate c buf"

definition parse_fuel :: "nat \<Rightarrow> nat" where "parse_fuel es = 4 * es + 7"

text \<open>\<^verbatim>\<open>parsecmd\<close> returns the command and the buffer it has written NULs to.\<close>

definition parsecmd :: "string \<Rightarrow> (cmd \<times> string) res" where
  "parsecmd line =
     (let es = length line; buf = line @ [NUL]
      in bindr (parseline (parse_fuel es) buf es 0) (\<lambda>(c, ps).
         let (_, ps) = peek buf es ps []
         in if ps \<noteq> es then Panic ''syntax'' else Ok (c, nulterminate c buf)))"

section \<open>The parser always returns\<close>

definition parse_errors :: "string set" where
  "parse_errors = {''missing file for redirection'', ''syntax'', ''too many args'', ''syntax - missing )''}"

text \<open>What parsing promises of a command: its words are words of the line.\<close>

definition word_at :: "string \<Rightarrow> nat \<Rightarrow> span \<Rightarrow> bool" where
  "word_at buf es a \<longleftrightarrow> fst a < snd a \<and> snd a \<le> es \<and>
     (\<forall>i. fst a \<le> i \<and> i < snd a \<longrightarrow> buf ! i \<notin> set whitespace \<and> buf ! i \<notin> set symbols) \<and>
     (snd a < es \<longrightarrow> buf ! snd a \<in> set whitespace \<or> buf ! snd a \<in> set symbols)"

fun spans :: "cmd \<Rightarrow> span list" where
  "spans (Exec as) = as"
| "spans (Redir c f m d) = spans c @ [f]"
| "spans (Pipe l r) = spans l @ spans r"
| "spans (List l r) = spans l @ spans r"
| "spans (Back c) = spans c"

fun argvs_fit :: "cmd \<Rightarrow> bool" where
  "argvs_fit (Exec as) = (length as < MAXARGS)"
| "argvs_fit (Redir c f m d) = argvs_fit c"
| "argvs_fit (Pipe l r) = (argvs_fit l \<and> argvs_fit r)"
| "argvs_fit (List l r) = (argvs_fit l \<and> argvs_fit r)"
| "argvs_fit (Back c) = argvs_fit c"

lemma gettoken_word:
  assumes "cmdline buf es" "ps \<le> es" "gettoken buf es ps = (CHR ''a'', q, eq, p)"
  shows "word_at buf es (q, eq)"
proof -
  let ?P = "\<lambda>c. c \<notin> set whitespace \<and> c \<notin> set symbols"
  have e: "q < es \<and> eq = skip_word buf es q \<and> q < eq"
  proof (rule gettoken_cases [OF assms])
    assume "special CHR ''a''"
    then show ?thesis using special_not by blast
  qed (simp_all add: skip_word_less)
  then have "eq \<le> es" by (simp add: scan_upper)
  then show ?thesis
    using e scan_range [of q _ ?P buf es] scan_stop [of ?P buf es q] by (auto simp: word_at_def)
qed

definition parsed :: "string \<Rightarrow> nat \<Rightarrow> nat \<Rightarrow> cmd \<times> nat \<Rightarrow> bool" where
  "parsed buf es ps r \<longleftrightarrow> ps \<le> snd r \<and> snd r \<le> es \<and> (\<forall>a \<in> set (spans (fst r)). word_at buf es a) \<and> argvs_fit (fst r)"

fun exec_args :: "cmd \<Rightarrow> span list" where
  "exec_args (Exec as) = as"
| "exec_args (Redir c f m d) = exec_args c"
| "exec_args c = []"

fun is_exec :: "cmd \<Rightarrow> bool" where
  "is_exec (Exec as) = True"
| "is_exec (Redir c f m d) = is_exec c"
| "is_exec c = False"

lemma add_arg_props [simp]:
  "is_exec (add_arg a c) = is_exec c"
  "is_exec c \<Longrightarrow> exec_args (add_arg a c) = exec_args c @ [a]"
  "is_exec c \<Longrightarrow> set (spans (add_arg a c)) = insert a (set (spans c))"
  by (induction c) auto

lemma exec_fit: "is_exec c \<Longrightarrow> argvs_fit c = (length (exec_args c) < MAXARGS)"
  by (induction c) auto

lemmas ctor_defs = execcmd_def redircmd_def pipecmd_def listcmd_def backcmd_def

lemma peek_token:
  assumes "cmdline buf es" "ps \<le> es" "peek buf es ps toks = (True, p)" "gettoken buf es p = (tok, q, eq, p')"
  shows "ps \<le> p \<and> p < p' \<and> p' \<le> es \<and> q = p \<and> tok \<noteq> NUL"
proof -
  have p: "ps \<le> p" "p \<le> es" "p = skip_ws buf es ps" using peek_progress [OF assms(2,3)] by simp_all
  have "buf ! p \<noteq> NUL" using assms(3) by (auto simp: peek_def Let_def)
  then have "p < es" using cmdline_NUL [OF assms(1) p(2)] p(2) by simp
  moreover have "q = p" using assms(4) p(3) by (simp add: gettoken_def Let_def split: prod.splits)
  ultimately show ?thesis using gettoken_progress [OF assms(1) p(2) assms(4)] p(1) by auto
qed

text \<open>The redirections only wrap the command they are given.\<close>

lemma parseredirs_total:
  assumes "cmdline buf es" "ps \<le> es" "es - ps < n" "\<forall>a \<in> set (spans c). word_at buf es a" "argvs_fit c"
  shows "outcome parse_errors (parseredirs n buf es c ps)
    (\<lambda>r. parsed buf es ps r \<and> exec_args (fst r) = exec_args c \<and> is_exec (fst r) = is_exec c)"
  using assms
proof (induction n arbitrary: c ps)
  case 0
  then show ?case by simp
next
  case (Suc n)
  obtain b p where pk: "peek buf es ps ''<>'' = (b, p)" by (cases "peek buf es ps ''<>''")
  note P = peek_progress [OF Suc.prems(2) pk]
  show ?case
  proof (cases b)
    case False
    then show ?thesis using pk P Suc.prems(4,5) by (simp add: parsed_def)
  next
    case True
    obtain tok q0 e0 p0 where g0: "gettoken buf es p = (tok, q0, e0, p0)" by (cases "gettoken buf es p")
    obtain tok' q eq p1 where g1: "gettoken buf es p0 = (tok', q, eq, p1)" by (cases "gettoken buf es p0")
    have G0: "p < p0" "p0 \<le> es" using peek_token [OF Suc.prems(1,2) _ g0] pk True by simp_all
    note G1 = gettoken_progress [OF Suc.prems(1) G0(2) g1]
    show ?thesis
    proof (cases "tok' = CHR ''a''")
      case False
      then show ?thesis using True pk g0 g1 by (simp add: parse_errors_def)
    next
      case a: True
      let ?c = "if tok = CHR ''<'' then redircmd c q eq O_RDONLY 0
                else if tok = CHR ''>'' then redircmd c q eq (O_WRONLY + O_CREATE) 1
                else if tok = CHR ''+'' then redircmd c q eq (O_WRONLY + O_CREATE) 1 else c"
      have w: "word_at buf es (q, eq)" using gettoken_word [OF Suc.prems(1) G0(2)] g1 a by simp
      have "outcome parse_errors (parseredirs n buf es ?c p1)
        (\<lambda>r. parsed buf es p1 r \<and> exec_args (fst r) = exec_args ?c \<and> is_exec (fst r) = is_exec ?c)"
        by (rule Suc.IH) (use Suc.prems G0 G1 P w in \<open>auto simp: redircmd_def\<close>)
      then have "outcome parse_errors (parseredirs n buf es ?c p1)
        (\<lambda>r. parsed buf es ps r \<and> exec_args (fst r) = exec_args c \<and> is_exec (fst r) = is_exec c)"
        by (rule outcome_post) (use G0 G1 P in \<open>auto simp: parsed_def redircmd_def split: if_splits\<close>)
      then show ?thesis using True pk g0 g1 a by (simp only: parseredirs.simps Let_def prod.case simp_thms if_True if_False)
    qed
  qed
qed

lemma parse_args_total:
  assumes "cmdline buf es" "ps \<le> es" "es - ps + 1 < n" "\<forall>a \<in> set (spans c). word_at buf es a"
    "is_exec c" "length (exec_args c) = argc" "argc < MAXARGS"
  shows "outcome parse_errors (parse_args n buf es argc c ps) (parsed buf es ps)"
  using assms
proof (induction n arbitrary: c ps argc)
  case 0
  then show ?case by simp
next
  case (Suc n)
  obtain b p where pk: "peek buf es ps ''|)&;'' = (b, p)" by (cases "peek buf es ps ''|)&;''")
  note P = peek_progress [OF Suc.prems(2) pk]
  obtain tok q eq p1 where g: "gettoken buf es p = (tok, q, eq, p1)" by (cases "gettoken buf es p")
  have p: "p \<le> es" using P by simp
  note G = gettoken_progress [OF Suc.prems(1) p g]
  have fit: "argvs_fit c" using Suc.prems by (simp add: exec_fit)
  consider "b \<or> tok = NUL" | "\<not> b" "tok \<noteq> NUL" "tok \<noteq> CHR ''a''" | "\<not> b" "tok = CHR ''a''" "Suc argc \<ge> MAXARGS"
    | "\<not> b" "tok = CHR ''a''" "Suc argc < MAXARGS" by linarith
  then show ?case
  proof cases
    case 1
    then show ?thesis using pk g P G Suc.prems(4) fit by (cases b) (simp_all add: parsed_def)
  next
    case 2
    then show ?thesis using pk g by (simp add: parse_errors_def)
  next
    case 3
    then show ?thesis using pk g by (simp add: parse_errors_def)
  next
    case 4
    let ?c = "add_arg (q, eq) c"
    have w: "word_at buf es (q, eq)" using gettoken_word [OF Suc.prems(1) p] g 4 by simp
    have lt: "p < p1" "p1 \<le> es" using G 4 by simp_all
    have x: "is_exec ?c" "length (exec_args ?c) = Suc argc" using Suc.prems by simp_all
    have "outcome parse_errors (parseredirs n buf es ?c p1)
        (\<lambda>r. parsed buf es p1 r \<and> exec_args (fst r) = exec_args ?c \<and> is_exec (fst r) = is_exec ?c)"
      by (rule parseredirs_total) (use Suc.prems lt P w x 4 in \<open>auto simp: exec_fit\<close>)
    then have "outcome parse_errors (bindr (parseredirs n buf es ?c p1) (\<lambda>(ret, ps). parse_args n buf es (Suc argc) ret ps))
        (parsed buf es ps)"
      unfolding outcome_bindr
    proof (rule outcome_post, clarify)
      fix c' p2
      assume r: "parsed buf es p1 (c', p2)" "exec_args (fst (c', p2)) = exec_args ?c" "is_exec (fst (c', p2)) = is_exec ?c"
      have "outcome parse_errors (parse_args n buf es (Suc argc) c' p2) (parsed buf es p2)"
        by (rule Suc.IH) (use Suc.prems r lt P x 4 in \<open>auto simp: parsed_def\<close>)
      then show "outcome parse_errors (parse_args n buf es (Suc argc) c' p2) (parsed buf es ps)"
        by (rule outcome_post) (use r lt P in \<open>auto simp: parsed_def\<close>)
    qed
    then show ?thesis using pk g 4 by simp
  qed
qed

lemma parse_backs_total:
  assumes "cmdline buf es" "parsed buf es p0 (c, ps)" "es - ps < n"
  shows "outcome parse_errors (parse_backs n buf es c ps) (parsed buf es p0)"
  using assms
proof (induction n arbitrary: c ps)
  case 0
  then show ?case by simp
next
  case (Suc n)
  obtain b p where pk: "peek buf es ps ''&'' = (b, p)" by (cases "peek buf es ps ''&''")
  have ps: "ps \<le> es" using Suc.prems(2) by (simp add: parsed_def)
  note P = peek_progress [OF ps pk]
  show ?case
  proof (cases b)
    case False
    then show ?thesis using pk P Suc.prems(2) by (simp add: parsed_def)
  next
    case True
    obtain tok q eq p1 where g: "gettoken buf es p = (tok, q, eq, p1)" by (cases "gettoken buf es p")
    have G: "p < p1" "p1 \<le> es" using peek_token [OF Suc.prems(1) ps _ g] pk True by simp_all
    have "outcome parse_errors (parse_backs n buf es (backcmd c) p1) (parsed buf es p0)"
      by (rule Suc.IH) (use Suc.prems G P in \<open>auto simp: parsed_def ctor_defs\<close>)
    then show ?thesis using pk g True by simp
  qed
qed

lemma outcome_parsed_bind:
  assumes "outcome parse_errors m (parsed buf es ps)"
    and "\<And>c p. parsed buf es ps (c, p) \<Longrightarrow> outcome parse_errors (f c p) Q"
  shows "outcome parse_errors (bindr m (\<lambda>(c, p). f c p)) Q"
  using assms by (auto simp: split_def elim!: outcome_post)

text \<open>One level of the grammar, given the level it calls on what is left of the line.\<close>

lemma sep_total:
  assumes cl: "cmdline buf es" and r: "parsed buf es ps (c, p)"
    and rest: "\<And>p'. p < p' \<Longrightarrow> p' \<le> es \<Longrightarrow> outcome parse_errors (f p') (parsed buf es p')"
    and join: "\<And>c'. spans (k c') = spans c @ spans c'" "\<And>c'. argvs_fit (k c') \<longleftrightarrow> argvs_fit c \<and> argvs_fit c'"
  shows "outcome parse_errors (let (b, p) = peek buf es p sy in
     if b then let (_, _, _, p) = gettoken buf es p in bindr (f p) (\<lambda>(c', p). Ok (k c', p)) else Ok (c, p)) (parsed buf es ps)"
proof -
  obtain b p1 where pk: "peek buf es p sy = (b, p1)" by (cases "peek buf es p sy")
  obtain t q e p2 where g: "gettoken buf es p1 = (t, q, e, p2)" by (cases "gettoken buf es p1")
  have p: "p \<le> es" "ps \<le> p" using r by (simp_all add: parsed_def)
  show ?thesis
  proof (cases b)
    case True
    have l: "p \<le> p1" "p1 < p2" "p2 \<le> es" using peek_token [OF cl p(1) _ g, of sy] pk True by simp_all
    have "outcome parse_errors (f p2) (parsed buf es p2)" by (rule rest) (use l in simp_all)
    then have "outcome parse_errors (bindr (f p2) (\<lambda>(c', p). Ok (k c', p))) (parsed buf es ps)"
      by (rule outcome_parsed_bind) (use r l p join in \<open>auto simp: parsed_def\<close>)
    then show ?thesis using pk g True by simp
  qed (use r pk peek_progress [OF p(1) pk] in \<open>simp add: parsed_def\<close>)
qed

lemma block_total:
  assumes cl: "cmdline buf es" and ps: "ps \<le> es" "fst (peek buf es ps ''('')" "es - ps < n"
    and line: "\<And>p. ps < p \<Longrightarrow> p \<le> es \<Longrightarrow> outcome parse_errors (parseline n buf es p) (parsed buf es p)"
  shows "outcome parse_errors (parseblock (Suc n) buf es ps) (parsed buf es ps)"
proof -
  obtain p0 where pk0: "peek buf es ps ''('' = (True, p0)" using ps(2) by (cases "peek buf es ps ''(''") simp
  obtain t0 q0 e0 p where g0: "gettoken buf es p0 = (t0, q0, e0, p)" by (cases "gettoken buf es p0")
  have l: "ps < p" "p \<le> es" using peek_token [OF cl ps(1) pk0 g0] by simp_all
  have "outcome parse_errors (let (b, p2) = peek buf es p1 '')'' in
      if \<not> b then Panic ''syntax - missing )''
      else let (_, _, _, p) = gettoken buf es p2 in parseredirs n buf es c p) (parsed buf es ps)"
    if r: "parsed buf es p (c, p1)" for c p1
  proof -
    obtain b p2 where pk: "peek buf es p1 '')'' = (b, p2)" by (cases "peek buf es p1 '')''")
    obtain t q e p3 where g: "gettoken buf es p2 = (t, q, e, p3)" by (cases "gettoken buf es p2")
    have p1: "p1 \<le> es" "p \<le> p1" using r by (simp_all add: parsed_def)
    show ?thesis
    proof (cases b)
      case True
      have l': "p1 \<le> p2" "p2 < p3" "p3 \<le> es" using peek_token [OF cl p1(1) _ g, of "'')''"] pk True by simp_all
      have "outcome parse_errors (parseredirs n buf es c p3)
          (\<lambda>r. parsed buf es p3 r \<and> exec_args (fst r) = exec_args c \<and> is_exec (fst r) = is_exec c)"
        by (rule parseredirs_total [OF cl]) (use ps p1 l l' r in \<open>auto simp: parsed_def\<close>)
      then have "outcome parse_errors (parseredirs n buf es c p3) (parsed buf es ps)"
        by (rule outcome_post) (use p1 l l' in \<open>auto simp: parsed_def\<close>)
      then show ?thesis using pk g True by simp
    qed (use pk in \<open>simp add: parse_errors_def\<close>)
  qed
  then have "outcome parse_errors (bindr (parseline n buf es p) (\<lambda>(c, p1). let (b, p2) = peek buf es p1 '')'' in
      if \<not> b then Panic ''syntax - missing )''
      else let (_, _, _, p) = gettoken buf es p2 in parseredirs n buf es c p)) (parsed buf es ps)"
    using line [OF l] by (intro outcome_parsed_bind) blast+
  then show ?thesis using pk0 g0 by simp
qed

lemma exec_total:
  assumes cl: "cmdline buf es" and ps: "ps \<le> es" "es - ps + 1 < n"
    and block: "\<And>p. ps \<le> p \<Longrightarrow> p \<le> es \<Longrightarrow> fst (peek buf es p ''('') \<Longrightarrow>
      outcome parse_errors (parseblock n buf es p) (parsed buf es p)"
  shows "outcome parse_errors (parseexec (Suc n) buf es ps) (parsed buf es ps)"
proof -
  obtain b p where pk: "peek buf es ps ''('' = (b, p)" by (cases "peek buf es ps ''(''")
  note P = peek_progress [OF ps(1) pk]
  show ?thesis
  proof (cases b)
    case True
    have "fst (peek buf es p ''('')" using pk True P by (auto simp: peek_def Let_def)
    then have "outcome parse_errors (parseblock n buf es p) (parsed buf es ps)"
      using P by (intro outcome_post [OF block]) (auto simp: parsed_def)
    then show ?thesis using pk True by simp
  next
    case False
    have "outcome parse_errors (parseredirs n buf es execcmd p)
        (\<lambda>r. parsed buf es p r \<and> exec_args (fst r) = exec_args execcmd \<and> is_exec (fst r) = is_exec execcmd)"
      by (rule parseredirs_total [OF cl]) (use ps P in \<open>auto simp: execcmd_def MAXARGS_def\<close>)
    then have "outcome parse_errors (bindr (parseredirs n buf es execcmd p) (\<lambda>(ret, ps). parse_args n buf es 0 ret ps)) (parsed buf es ps)"
      unfolding outcome_bindr
    proof (rule outcome_post, clarify)
      fix c p1
      assume r: "parsed buf es p (c, p1)" "exec_args (fst (c, p1)) = exec_args execcmd" "is_exec (fst (c, p1)) = is_exec execcmd"
      have "outcome parse_errors (parse_args n buf es 0 c p1) (parsed buf es p1)"
        by (rule parse_args_total [OF cl]) (use ps P r in \<open>auto simp: parsed_def execcmd_def MAXARGS_def\<close>)
      then show "outcome parse_errors (parse_args n buf es 0 c p1) (parsed buf es ps)"
        by (rule outcome_post) (use r P in \<open>auto simp: parsed_def\<close>)
    qed
    then show ?thesis using pk False by simp
  qed
qed

lemma parse_total:
  assumes "cmdline buf es" "ps \<le> es"
  shows "4 * (es - ps) + 6 < n \<Longrightarrow> outcome parse_errors (parseline n buf es ps) (parsed buf es ps)"
    and "4 * (es - ps) + 5 < n \<Longrightarrow> outcome parse_errors (parsepipe n buf es ps) (parsed buf es ps)"
    and "4 * (es - ps) + 3 < n \<Longrightarrow> fst (peek buf es ps ''('') \<Longrightarrow> outcome parse_errors (parseblock n buf es ps) (parsed buf es ps)"
    and "4 * (es - ps) + 4 < n \<Longrightarrow> outcome parse_errors (parseexec n buf es ps) (parsed buf es ps)"
  using assms(2)
proof (induction n arbitrary: ps)
  case 0
  {
    case 1 then show ?case by simp
  next
    case 2 then show ?case by simp
  next
    case 3 then show ?case by simp
  next
    case 4 then show ?case by simp
  }
next
  case (Suc n)
  {
    case 1
    have "outcome parse_errors (parsepipe n buf es ps) (parsed buf es ps)" by (rule Suc.IH(2)) (use 1 in auto)
    moreover have "outcome parse_errors (parse_backs n buf es c p) (parsed buf es ps)" if "parsed buf es ps (c, p)" for c p
      by (rule parse_backs_total [OF assms(1) that]) (use 1 that in \<open>auto simp: parsed_def\<close>)
    moreover have "outcome parse_errors (let (b, p) = peek buf es p '';'' in
       if b then let (_, _, _, p) = gettoken buf es p in bindr (parseline n buf es p) (\<lambda>(c', p). Ok (listcmd c c', p))
       else Ok (c, p)) (parsed buf es ps)" if "parsed buf es ps (c, p)" for c p
      by (rule sep_total [OF assms(1) that Suc.IH(1)]) (use 1 that in \<open>auto simp: ctor_defs parsed_def\<close>)
    ultimately show ?case unfolding parseline.simps by (intro outcome_parsed_bind) blast+
  next
    case 2
    have "outcome parse_errors (parseexec n buf es ps) (parsed buf es ps)" by (rule Suc.IH(4)) (use 2 in auto)
    moreover have "outcome parse_errors (let (b, p) = peek buf es p ''|'' in
       if b then let (_, _, _, p) = gettoken buf es p in bindr (parsepipe n buf es p) (\<lambda>(c', p). Ok (pipecmd c c', p))
       else Ok (c, p)) (parsed buf es ps)" if "parsed buf es ps (c, p)" for c p
      by (rule sep_total [OF assms(1) that Suc.IH(2)]) (use 2 that in \<open>auto simp: ctor_defs parsed_def\<close>)
    ultimately show ?case unfolding parsepipe.simps by (intro outcome_parsed_bind) blast+
  next
    case 3
    show ?case by (rule block_total [OF assms(1) 3(3,2) _ Suc.IH(1)]) (use 3 in auto)
  next
    case 4
    show ?case by (rule exec_total [OF assms(1) 4(2) _ Suc.IH(3)]) (use 4 in auto)
  }
qed

section \<open>Strings of a parsed command\<close>

text \<open>After \<^verbatim>\<open>nulterminate\<close> every pointer of the command is a C string.\<close>

definition cstr :: "string \<Rightarrow> nat \<Rightarrow> string" where
  "cstr buf q = takeWhile (\<lambda>c. c \<noteq> NUL) (drop q buf)"

definition sub_str :: "string \<Rightarrow> span \<Rightarrow> string" where
  "sub_str buf a = take (snd a - fst a) (drop (fst a) buf)"

lemma nul_spans_nth:
  "i < length buf \<Longrightarrow> nul_spans as buf ! i = (if i \<in> snd ` set as then NUL else buf ! i)"
  "length (nul_spans as buf) = length buf"
  by (induction as buf rule: nul_spans.induct) (auto simp: nth_list_update)

lemma nth_upd_if: "i < length xs \<Longrightarrow> xs[j := v] ! i = (if i = j then v else xs ! i)"
  by (cases "i = j") simp_all

lemma nulterminate_nth:
  "length (nulterminate c buf) = length buf"
  "i < length buf \<Longrightarrow> nulterminate c buf ! i = (if i \<in> snd ` set (spans c) then NUL else buf ! i)"
  by (induction c buf rule: nulterminate.induct) (simp_all add: nul_spans_nth image_Un nth_upd_if)

lemma cstr_nulterminate:
  assumes cl: "cmdline buf es" and words: "\<forall>a \<in> set (spans c). word_at buf es a" and a: "a \<in> set (spans c)"
  shows "cstr (nulterminate c buf) (fst a) = sub_str buf a"
proof -
  let ?b = "nulterminate c buf" and ?q = "fst a" and ?e = "snd a"
  have w: "?q < ?e" "?e \<le> es" "\<And>i. ?q \<le> i \<Longrightarrow> i < ?e \<Longrightarrow> buf ! i \<notin> set whitespace \<and> buf ! i \<notin> set symbols"
    using words a by (auto simp: word_at_def)
  have len: "length buf = es + 1" using cl by (simp add: cmdline_def)
  have in_word: "?b ! i = buf ! i \<and> buf ! i \<noteq> NUL" if "?q \<le> i" "i < ?e" for i
  proof -
    have "i \<notin> snd ` set (spans c)"
    proof
      assume "i \<in> snd ` set (spans c)"
      then have "i < es \<Longrightarrow> buf ! i \<in> set whitespace \<or> buf ! i \<in> set symbols" using words by (auto simp: word_at_def)
      then show False using w(2) w(3) [OF that] that by auto
    qed
    then show ?thesis using that w(2) len cl by (simp add: nulterminate_nth cmdline_def)
  qed
  have "take (?e - ?q) (drop ?q ?b) = sub_str buf a"
    unfolding sub_str_def using in_word w(1,2) len
    by (intro nth_equalityI) (simp_all add: nulterminate_nth(1))
  moreover have "drop ?q ?b = take (?e - ?q) (drop ?q ?b) @ NUL # drop (?e + 1) ?b"
  proof -
    have "?e < length ?b" "?b ! ?e = NUL" using w len a by (auto simp: nulterminate_nth)
    then have "drop ?e ?b = NUL # drop (?e + 1) ?b" by (metis Cons_nth_drop_Suc Suc_eq_plus1)
    then show ?thesis using w(1) by (metis append_take_drop_id drop_drop le_add_diff_inverse2 less_imp_le)
  qed
  moreover have "\<forall>x \<in> set (sub_str buf a). x \<noteq> NUL"
    using in_word w(1,2) len by (auto simp: sub_str_def in_set_conv_nth)
  ultimately show ?thesis unfolding cstr_def by (simp add: takeWhile_append2)
qed

section \<open>Printing commands\<close>

text \<open>A command with its strings, and its concrete syntax as a list of tokens.\<close>

datatype tree = TExec "string list" | TRedir tree string int nat | TPipe tree tree | TList tree tree | TBack tree

fun tree_of :: "(span \<Rightarrow> string) \<Rightarrow> cmd \<Rightarrow> tree" where
  "tree_of f (Exec as) = TExec (map f as)"
| "tree_of f (Redir c a m d) = TRedir (tree_of f c) (f a) m d"
| "tree_of f (Pipe l r) = TPipe (tree_of f l) (tree_of f r)"
| "tree_of f (List l r) = TList (tree_of f l) (tree_of f r)"
| "tree_of f (Back c) = TBack (tree_of f c)"

lemma tree_of_cong: "(\<And>a. a \<in> set (spans c) \<Longrightarrow> f a = g a) \<Longrightarrow> tree_of f c = tree_of g c"
  by (induction c) auto

definition is_word :: "string \<Rightarrow> bool" where
  "is_word w \<longleftrightarrow> w \<noteq> [] \<and> (\<forall>c \<in> set w. c \<notin> set whitespace \<and> c \<notin> set symbols \<and> c \<noteq> NUL)"

fun wf_tree :: "tree \<Rightarrow> bool" where
  "wf_tree (TExec ws) = (length ws < MAXARGS \<and> (\<forall>w \<in> set ws. is_word w))"
| "wf_tree (TRedir t f m d) = (wf_tree t \<and> is_word f \<and> ((m, d) = (O_RDONLY, 0) \<or> (m, d) = (O_WRONLY + O_CREATE, 1)))"
| "wf_tree (TPipe l r) = (wf_tree l \<and> wf_tree r)"
| "wf_tree (TList l r) = (wf_tree l \<and> wf_tree r)"
| "wf_tree (TBack t) = wf_tree t"

definition paren :: "bool \<Rightarrow> string list \<Rightarrow> string list" where
  "paren b ts = (if b then [''(''] @ ts @ ['')''] else ts)"

text \<open>\<open>pr 0\<close> prints a line, \<open>pr 1\<close> a pipe followed by \<^verbatim>\<open>&\<close>s, \<open>pr 2\<close> a pipe, \<open>pr 3\<close> a simple command or block.\<close>

fun pr :: "nat \<Rightarrow> tree \<Rightarrow> string list" where
  "pr k (TExec ws) = ws"
| "pr k (TRedir t f m d) = pr 3 t @ [if d = 0 then ''<'' else ''>'', f]"
| "pr k (TPipe l r) = paren (2 < k) (pr 3 l @ [''|''] @ pr 2 r)"
| "pr k (TList l r) = paren (0 < k) (pr 1 l @ ['';''] @ pr 0 r)"
| "pr k (TBack t) = paren (1 < k) (pr 1 t @ [''&''])"

definition spell :: "string list \<Rightarrow> string" where
  "spell ts = concat (map (\<lambda>t. t @ '' '') ts)"

definition print_tree :: "tree \<Rightarrow> string" where
  "print_tree t = spell (pr 0 t)"

section \<open>Parsing printed text\<close>

definition sy_tok :: "string \<Rightarrow> bool" where
  "sy_tok t \<longleftrightarrow> t \<in> {''|'', ''('', '')'', '';'', ''&'', ''<'', ''>''}"

definition tok :: "string \<Rightarrow> bool" where
  "tok t \<longleftrightarrow> is_word t \<or> sy_tok t"

lemma spell_simps [simp]: "spell [] = []" "spell (t # ts) = t @ '' '' @ spell ts" "spell (ts @ us) = spell ts @ spell us"
  by (simp_all add: spell_def)

text \<open>The position \<open>p\<close> is at the start of the tokens \<open>ts\<close>, which are the rest of the line.\<close>

definition at_tok :: "string \<Rightarrow> nat \<Rightarrow> nat \<Rightarrow> string list \<Rightarrow> bool" where
  "at_tok buf es p ts \<longleftrightarrow> p + length (spell ts) = es \<and> drop p buf = spell ts @ [NUL] \<and> (\<forall>t \<in> set ts. tok t)"

lemma drop_nth: "drop p buf = xs \<Longrightarrow> i < length xs \<Longrightarrow> p \<le> length buf \<Longrightarrow> buf ! (p + i) = xs ! i"
  by (metis nth_drop)

lemma sy_tok_first:
  assumes "sy_tok t"
  shows "length t = 1" "hd t \<in> set symbols" "hd t \<notin> set whitespace" "hd t \<noteq> NUL"
  using assms by (auto simp: sy_tok_def symbols_def whitespace_def)

lemma tok_first:
  assumes "tok t"
  shows "t \<noteq> []" "hd t \<notin> set whitespace" "hd t \<noteq> NUL"
proof -
  consider "is_word t" | "sy_tok t" using assms by (auto simp: tok_def)
  then have "t \<noteq> [] \<and> hd t \<notin> set whitespace \<and> hd t \<noteq> NUL"
  proof cases
    case 1
    then show ?thesis by (simp add: is_word_def)
  next
    case 2
    from sy_tok_first [OF this] show ?thesis by auto
  qed
  then show "t \<noteq> []" "hd t \<notin> set whitespace" "hd t \<noteq> NUL" by simp_all
qed

lemma at_tok_first:
  assumes "cmdline buf es" "at_tok buf es p ts"
  shows "p \<le> es" "ts = [] \<Longrightarrow> buf ! p = NUL \<and> p = es" "ts \<noteq> [] \<Longrightarrow> buf ! p = hd (hd ts) \<and> p < es"
    "skip_ws buf es p = p"
proof -
  have l: "length buf = es + 1" "p \<le> es" and d: "drop p buf = spell ts @ [NUL]"
    using assms by (simp_all add: cmdline_def at_tok_def)
  show "p \<le> es" by (rule l)
  show a: "ts = [] \<Longrightarrow> buf ! p = NUL \<and> p = es" using assms by (auto simp: at_tok_def cmdline_def)
  show b: "buf ! p = hd (hd ts) \<and> p < es" if "ts \<noteq> []"
  proof -
    obtain t us where t: "ts = t # us" using \<open>ts \<noteq> []\<close> by (cases ts) simp_all
    then have "t \<noteq> []" using assms(2) tok_first(1) by (auto simp: at_tok_def)
    then show ?thesis using d l assms(2) drop_nth [OF d, of 0] by (simp add: t at_tok_def hd_conv_nth nth_append)
  qed
  show "skip_ws buf es p = p"
  proof (cases "ts = []")
    case True
    then show ?thesis using a scan.simps [of _ buf es p] by simp
  next
    case False
    then have "buf ! p \<notin> set whitespace" using b assms(2) tok_first(2) [of "hd ts"] by (auto simp: at_tok_def)
    then show ?thesis by (subst scan.simps) simp
  qed
qed

lemma peek_at:
  assumes "cmdline buf es" "at_tok buf es p ts"
  shows "peek buf es p toks = (ts \<noteq> [] \<and> hd (hd ts) \<in> set toks, p)"
proof (cases "ts = []")
  case False
  then have "hd (hd ts) \<noteq> NUL" using assms(2) tok_first(3) [of "hd ts"] by (auto simp: at_tok_def)
  then show ?thesis using at_tok_first(3,4) [OF assms] False by (simp add: peek_def)
next
  case True
  then show ?thesis using at_tok_first(2,4) [OF assms] by (auto simp: peek_def)
qed

lemma at_tok_next:
  assumes "cmdline buf es" "at_tok buf es p (t # ts)"
  shows "at_tok buf es (p + length t + 1) ts" "sub_str buf (p, p + length t) = t" "buf ! (p + length t) = CHR '' ''"
    "\<And>i. i < length t \<Longrightarrow> buf ! (p + i) = t ! i" "p + length t < es"
proof -
  have l: "length buf = es + 1" "p \<le> es" and d: "drop p buf = t @ '' '' @ spell ts @ [NUL]"
    using assms by (simp_all add: cmdline_def at_tok_def)
  have "drop (p + length t + 1) buf = drop (length t + 1) (drop p buf)" by (simp add: add.commute add.left_commute)
  then show "at_tok buf es (p + length t + 1) ts" using assms(2) d by (simp add: at_tok_def)
  show "sub_str buf (p, p + length t) = t" using d by (simp add: sub_str_def)
  show "buf ! (p + length t) = CHR '' ''" using drop_nth [OF d, of "length t"] l by (simp add: nth_append)
  show "\<And>i. i < length t \<Longrightarrow> buf ! (p + i) = t ! i" using drop_nth [OF d] l by (simp add: nth_append)
  show "p + length t < es" using assms(2) by (simp add: at_tok_def)
qed

lemma gettoken_at:
  assumes cl: "cmdline buf es" and at: "at_tok buf es p (t # ts)"
  shows "gettoken buf es p = (if sy_tok t then hd t else CHR ''a'', p, p + length t, p + length t + 1)"
proof -
  note N = at_tok_next [OF cl at] and F = at_tok_first [OF cl at]
  have ws: "skip_ws buf es (p + length t) = p + length t + 1"
  proof -
    have "skip_ws buf es (p + length t) = skip_ws buf es (p + length t + 1)"
      using N(3,5) by (subst scan.simps) (simp add: whitespace_def)
    then show ?thesis using at_tok_first(4) [OF cl N(1)] by simp
  qed
  have "tok_at buf es p = (if sy_tok t then hd t else CHR ''a'', p + length t)"
  proof (cases "sy_tok t")
    case True
    then have t: "t = [hd t]" "hd t \<in> set ''|();&<>''" by (auto simp: sy_tok_def)
    have "buf ! p = hd t" using F(3) by simp
    moreover have "buf ! (p + 1) = CHR '' ''" using N(3) sy_tok_first(1) [OF True] by simp
    ultimately show ?thesis using t(2) True sy_tok_first [OF True] by (auto simp: tok_at_def Let_def)
  next
    case False
    then have w: "is_word t" using at by (simp add: at_tok_def tok_def)
    have c: "buf ! p \<notin> set symbols" "buf ! p \<noteq> NUL" using w F(3) by (auto simp: is_word_def)
    have "skip_word buf es (p + i) = p + length t" if "i \<le> length t" for i
      using that
    proof (induction "length t - i" arbitrary: i)
      case 0
      then show ?case using N(3) by (subst scan.simps) (simp add: whitespace_def)
    next
      case (Suc k)
      then have i: "i < length t" by simp
      then have "t ! i \<in> set t" by simp
      then have "skip_word buf es (p + i) = skip_word buf es (p + Suc i)"
        using N(4) [OF i] N(5) i w by (subst scan.simps) (auto simp: is_word_def)
      moreover have "skip_word buf es (p + Suc i) = p + length t" by (rule Suc.hyps(1)) (use Suc.hyps(2) i in simp_all)
      ultimately show ?case by simp
    qed
    from this [of 0] have "skip_word buf es p = p + length t" by simp
    moreover have "\<not> special (buf ! p)" "buf ! p \<noteq> CHR ''>''" using c(1) by (simp_all add: symbol_cases)
    ultimately show ?thesis using c(2) False unfolding tok_at_def special_def Let_def by simp
  qed
  then show ?thesis using F(4) ws by (simp add: gettoken_def)
qed

type_synonym redir = "string \<times> int \<times> nat"

definition wf_redir :: "redir \<Rightarrow> bool" where
  "wf_redir r \<longleftrightarrow> (case r of (f, m, d) \<Rightarrow> is_word f \<and> ((m, d) = (O_RDONLY, 0) \<or> (m, d) = (O_WRONLY + O_CREATE, 1)))"

fun redir_toks :: "redir \<Rightarrow> string list" where
  "redir_toks (f, m, d) = [if d = 0 then ''<'' else ''>'', f]"

fun wrap :: "tree \<Rightarrow> redir list \<Rightarrow> tree" where
  "wrap t [] = t"
| "wrap t ((f, m, d) # rs) = wrap (TRedir t f m d) rs"

text \<open>The tokens at which each level of the grammar stops.\<close>

definition stops :: "string \<Rightarrow> string list \<Rightarrow> bool" where
  "stops cs ts \<longleftrightarrow> (\<forall>t us. ts = t # us \<longrightarrow> t \<in> {[c] | c. c \<in> set cs})"

lemma stops_hd: "stops cs ts \<Longrightarrow> ts \<noteq> [] \<Longrightarrow> hd (hd ts) \<in> set cs"
  by (cases ts) (auto simp: stops_def)

lemma stops_mono: "stops cs ts \<Longrightarrow> set cs \<subseteq> set ds \<Longrightarrow> stops ds ts"
  unfolding stops_def by blast

lemma stops_Cons [simp]: "stops cs ([c] # ts) \<longleftrightarrow> c \<in> set cs" "stops cs []"
  by (auto simp: stops_def)

definition parses :: "string \<Rightarrow> nat \<Rightarrow> (cmd \<times> nat) res \<Rightarrow> string list \<Rightarrow> tree \<Rightarrow> bool" where
  "parses buf es r ts t \<longleftrightarrow> (\<exists>c p. r = Ok (c, p) \<and> at_tok buf es p ts \<and> tree_of (sub_str buf) c = t)"

lemma gettoken_end: "cmdline buf es \<Longrightarrow> at_tok buf es p [] \<Longrightarrow> gettoken buf es p = (NUL, es, es, es)"
  using at_tok_first(2,4) [of buf es p "[]"] by (auto simp: gettoken_def tok_at_def Let_def)

lemma is_word_hd: "is_word w \<Longrightarrow> w \<noteq> [] \<and> hd w \<notin> set symbols"
  by (simp add: is_word_def)

lemma word_not_sy: "is_word w \<Longrightarrow> \<not> sy_tok w"
  using is_word_hd sy_tok_first(2) by blast

lemma redirs_at:
  assumes cl: "cmdline buf es" and "at_tok buf es p (concat (map redir_toks rs) @ ts)" "\<forall>r \<in> set rs. wf_redir r"
    "stops ''|)&;'' ts \<or> (rs = [] \<and> ts \<noteq> [] \<and> is_word (hd ts))" "es - p < n"
  shows "\<exists>c' p'. parseredirs n buf es c p = Ok (c', p') \<and> at_tok buf es p' ts \<and>
    tree_of (sub_str buf) c' = wrap (tree_of (sub_str buf) c) rs \<and> (rs = [] \<longrightarrow> c' = c \<and> p' = p)"
  using assms(2-)
proof (induction rs arbitrary: n p c)
  case Nil
  have "\<not> (ts \<noteq> [] \<and> hd (hd ts) \<in> set ''<>'')"
    using Nil(3) stops_hd [of "''|)&;''" ts] is_word_hd [of "hd ts"] by (auto simp: symbols_def)
  then have "peek buf es p ''<>'' = (False, p)" using peek_at [OF cl, of p ts "''<>''"] Nil(1) by simp
  then show ?case using Nil by (cases n) auto
next
  case (Cons r rs)
  obtain f m d where r: "r = (f, m, d)" by (cases r)
  let ?s = "if d = 0 then ''<'' else ''>''"
  have w: "is_word f" "(m, d) = (O_RDONLY, 0) \<or> (m, d) = (O_WRONLY + O_CREATE, 1)"
    using Cons.prems(2) by (auto simp: r wf_redir_def)
  have a0: "at_tok buf es p (?s # f # concat (map redir_toks rs) @ ts)" using Cons.prems(1) by (simp add: r)
  note a1 = at_tok_next(1) [OF cl a0] and g0 = gettoken_at [OF cl a0]
  note a2 = at_tok_next(1) [OF cl a1] and g1 = gettoken_at [OF cl a1] and s1 = at_tok_next(2) [OF cl a1]
  let ?q = "p + length ?s + 1"
  let ?c = "Redir c (?q, ?q + length f) m d"
  have st: "stops ''|)&;'' ts \<or> (rs = [] \<and> ts \<noteq> [] \<and> is_word (hd ts))" using Cons.prems(3) by auto
  have lt: "?q + length f + 1 \<le> es" "?s \<noteq> []" using a2 by (auto simp: at_tok_def)
  obtain k where k: "n = Suc k" "es - (?q + length f + 1) < k"
    using Cons.prems(4) lt by (cases n) auto
  obtain c' p' where c': "parseredirs k buf es ?c (?q + length f + 1) = Ok (c', p')" "at_tok buf es p' ts"
    "tree_of (sub_str buf) c' = wrap (tree_of (sub_str buf) ?c) rs"
    using Cons.IH [OF a2 _ st k(2), of ?c] Cons.prems(2) by auto
  have pk: "peek buf es p ''<>'' = (True, p)" using peek_at [OF cl a0, of "''<>''"] by simp
  have sy: "sy_tok ?s" "\<not> sy_tok f" using word_not_sy [OF w(1)] by (auto simp: sy_tok_def)
  have "parseredirs n buf es c p = parseredirs k buf es ?c (?q + length f + 1)"
    using w(2) pk g0 g1 sy k(1) by (auto simp: redircmd_def)
  then show ?case using c' s1 by (auto simp: r)
qed

lemma args_stop:
  assumes "cmdline buf es" "at_tok buf es p ts" "stops ''|)&;'' ts" "0 < n"
  shows "parse_args n buf es argc c p = Ok (c, p)"
proof (cases "ts = []")
  case True
  then show ?thesis
    using peek_at [OF assms(1,2)] gettoken_end [of buf es p] assms at_tok_first(2) [OF assms(1,2)] by (cases n) auto
next
  case False
  then show ?thesis using peek_at [OF assms(1,2)] stops_hd [OF assms(3)] assms(4) by (cases n) simp_all
qed

lemma args_at:
  assumes cl: "cmdline buf es" and "at_tok buf es p (ws @ concat (map redir_toks rs) @ ts)" "\<forall>w \<in> set ws. is_word w"
    "\<forall>r \<in> set rs. wf_redir r" "stops ''|)&;'' ts" "ws \<noteq> []" "length as + length ws < MAXARGS" "es - p + 1 < n"
  shows "parses buf es (parse_args n buf es (length as) (Exec as) p) ts (wrap (TExec (map (sub_str buf) as @ ws)) rs)"
  using assms(2-)
proof (induction ws arbitrary: n p as)
  case (Cons w ws)
  have a0: "at_tok buf es p (w # ws @ concat (map redir_toks rs) @ ts)" using Cons.prems(1) by simp
  note a1 = at_tok_next(1) [OF cl a0] and g0 = gettoken_at [OF cl a0] and s0 = at_tok_next(2) [OF cl a0]
  let ?as = "as @ [(p, p + length w)]"
  let ?p = "p + length w + 1"
  have w: "is_word w" "\<not> sy_tok w" using Cons.prems(2) word_not_sy by auto
  have pk: "peek buf es p ''|)&;'' = (False, p)" using peek_at [OF cl a0, of "''|)&;''"] is_word_hd [OF w(1)] by (auto simp: symbols_def)
  obtain k where k: "n = Suc k" "es - ?p + 1 < k" using Cons.prems(7) a1 by (cases n) (auto simp: at_tok_def)
  have step: "parse_args n buf es (length as) (Exec as) p =
      bindr (parseredirs k buf es (Exec ?as) ?p) (\<lambda>(ret, ps). parse_args k buf es (length ?as) ret ps)"
    using pk g0 w(2) k(1) Cons.prems(6) by simp
  show ?case
  proof (cases "ws = []")
    case True
    have "at_tok buf es ?p (concat (map redir_toks rs) @ ts)" using a1 True by simp
    from redirs_at [OF cl this Cons.prems(3), of k "Exec ?as"]
    obtain c p' where c: "parseredirs k buf es (Exec ?as) ?p = Ok (c, p')" "at_tok buf es p' ts"
      "tree_of (sub_str buf) c = wrap (tree_of (sub_str buf) (Exec ?as)) rs" using Cons.prems(4) k(2) by auto
    then show ?thesis using step args_stop [OF cl c(2) Cons.prems(4), of k] k(2) s0 True by (simp add: parses_def)
  next
    case False
    have "at_tok buf es ?p (concat (map redir_toks []) @ ws @ concat (map redir_toks rs) @ ts)" using a1 by simp
    from redirs_at [OF cl this, of k "Exec ?as"] False Cons.prems(2) k(2)
    have "parseredirs k buf es (Exec ?as) ?p = Ok (Exec ?as, ?p)" by auto
    moreover have "parses buf es (parse_args k buf es (length ?as) (Exec ?as) ?p) ts (wrap (TExec (map (sub_str buf) ?as @ ws)) rs)"
      by (rule Cons.IH [OF a1]) (use Cons.prems False k(2) in auto)
    ultimately show ?thesis using step s0 by simp
  qed
qed simp

lemma exec_at:
  assumes cl: "cmdline buf es" and at: "at_tok buf es p (ws @ concat (map redir_toks rs) @ ts)" and ws: "\<forall>w \<in> set ws. is_word w"
    and rs: "\<forall>r \<in> set rs. wf_redir r" and st: "stops ''|)&;'' ts" and len: "length ws < MAXARGS" and n: "es - p + 2 < n"
  shows "parses buf es (parseexec n buf es p) ts (wrap (TExec ws) rs)"
proof -
  obtain k where k: "n = Suc k" "es - p + 1 < k" using n by (cases n) auto
  have "peek buf es p ''('' = (False, p)"
  proof -
    let ?ts = "ws @ concat (map redir_toks rs) @ ts"
    have "?ts \<noteq> [] \<Longrightarrow> hd (hd ?ts) \<noteq> CHR ''(''"
      using ws is_word_hd [of "hd ws"] stops_hd [OF st] by (cases ws; cases rs) (auto simp: symbols_def split: prod.splits if_splits)
    then show ?thesis using peek_at [OF cl at, of "''(''"] by auto
  qed
  then have e: "parseexec n buf es p = bindr (parseredirs k buf es (Exec []) p) (\<lambda>(ret, ps). parse_args k buf es 0 ret ps)"
    using k(1) by (simp add: execcmd_def)
  show ?thesis
  proof (cases "ws = []")
    case True
    have a: "at_tok buf es p (concat (map redir_toks rs) @ ts)" using at True by simp
    from redirs_at [OF cl a rs, of k "Exec []"]
    obtain c p' where c: "parseredirs k buf es (Exec []) p = Ok (c, p')" "at_tok buf es p' ts"
      "tree_of (sub_str buf) c = wrap (TExec []) rs" using st k(2) by auto
    then show ?thesis using e args_stop [OF cl c(2) st, of k] k(2) True by (simp add: parses_def)
  next
    case False
    have "at_tok buf es p (concat (map redir_toks []) @ ws @ concat (map redir_toks rs) @ ts)" using at by simp
    from redirs_at [OF cl this, of k "Exec []"] False ws k(2)
    have "parseredirs k buf es (Exec []) p = Ok (Exec [], p)" by auto
    moreover have "parses buf es (parse_args k buf es (length ([] :: span list)) (Exec []) p) ts (wrap (TExec (map (sub_str buf) [] @ ws)) rs)"
      by (rule args_at [OF cl at ws rs st False]) (use len k(2) in auto)
    ultimately show ?thesis using e by simp
  qed
qed

definition line_stop :: "nat \<Rightarrow> string" where
  "line_stop k = (if k = 0 then '')'' else if k = 1 then '');'' else if k = 2 then '')&;'' else ''|)&;'')"

definition level :: "nat \<Rightarrow> nat \<Rightarrow> string \<Rightarrow> nat \<Rightarrow> nat \<Rightarrow> (cmd \<times> nat) res" where
  "level k n buf es p =
     (if k = 0 then parseline n buf es p
      else if k = 1 then bindr (parsepipe n buf es p) (\<lambda>(c, ps). parse_backs n buf es c ps)
      else if k = 2 then parsepipe n buf es p else parseexec n buf es p)"

definition rank :: "nat \<Rightarrow> nat" where
  "rank k = (if k = 0 then 6 else if k = 1 then 5 else if k = 2 then 5 else 4)"

text \<open>Level \<open>k\<close> of the grammar reads back what \<open>pr k\<close> prints, on any line.\<close>

definition reads :: "nat \<Rightarrow> tree \<Rightarrow> bool" where
  "reads k t \<longleftrightarrow> (\<forall>buf es p ts n. cmdline buf es \<longrightarrow> at_tok buf es p (pr k t @ ts) \<longrightarrow> stops (line_stop k) ts \<longrightarrow>
     4 * (es - p) + rank k < n \<longrightarrow> parses buf es (level k n buf es p) ts t)"

lemma block_at:
  assumes "reads 0 t" "cmdline buf es" "at_tok buf es p ([''(''] @ pr 0 t @ ['')''] @ concat (map redir_toks rs) @ ts)"
    "\<forall>r \<in> set rs. wf_redir r" "stops ''|)&;'' ts" "4 * (es - p) + 4 < n"
  shows "parses buf es (parseexec n buf es p) ts (wrap t rs)"
proof -
  note cl = assms(2)
  have a0: "at_tok buf es p (''('' # pr 0 t @ ['')''] @ concat (map redir_toks rs) @ ts)" using assms(3) by simp
  note a1 = at_tok_next(1) [OF cl a0] and g0 = gettoken_at [OF cl a0]
  let ?p = "p + length ''('' + 1"
  obtain k where k: "n = Suc (Suc k)" "4 * (es - ?p) + rank 0 < k" "es - ?p < k"
    using assms(6) a1 by (cases n; cases "n - 1") (auto simp: at_tok_def rank_def)
  have "parses buf es (level 0 k buf es ?p) (['')''] @ concat (map redir_toks rs) @ ts) t"
    using assms(1) cl a1 k(2) unfolding reads_def by (simp add: line_stop_def)
  then obtain c p1 where c: "parseline k buf es ?p = Ok (c, p1)" "tree_of (sub_str buf) c = t"
    and a2: "at_tok buf es p1 ('')'' # concat (map redir_toks rs) @ ts)" by (auto simp: parses_def level_def)
  note a3 = at_tok_next(1) [OF cl a2] and g2 = gettoken_at [OF cl a2]
  have "es - (p1 + length '')'' + 1) < k" using a1 a3 k(3) by (auto simp: at_tok_def)
  from redirs_at [OF cl a3 assms(4) _ this, of c] obtain c' p' where
    c': "parseredirs k buf es c (p1 + length '')'' + 1) = Ok (c', p')" "at_tok buf es p' ts" "tree_of (sub_str buf) c' = wrap t rs"
    using assms(5) c(2) by auto
  have "peek buf es p ''('' = (True, p)" "peek buf es p1 '')'' = (True, p1)"
    using peek_at [OF cl a0, of "''(''"] peek_at [OF cl a2, of "'')''"] by simp_all
  then have "parseexec n buf es p = Ok (c', p')" using k(1) g0 g2 c(1) c'(1) by simp
  then show ?thesis using c' by (simp add: parses_def)
qed

fun base_redirs :: "tree \<Rightarrow> tree \<times> redir list" where
  "base_redirs (TRedir t f m d) = (let (u, rs) = base_redirs t in (u, rs @ [(f, m, d)]))"
| "base_redirs t = (t, [])"

lemma wrap_append [simp]: "wrap t (rs @ rs') = wrap (wrap t rs) rs'"
  by (induction t rs rule: wrap.induct) auto

lemma base_redirs:
  assumes "base_redirs t = (u, rs)" "wf_tree t"
  shows "wrap u rs = t \<and> pr 3 t = pr 3 u @ concat (map redir_toks rs) \<and> wf_tree u \<and> (\<forall>r \<in> set rs. wf_redir r) \<and>
    (u = t \<or> size u < size t) \<and> (\<nexists>v f m d. u = TRedir v f m d)"
  using assms
  by (induction t arbitrary: rs) (fastforce simp: wf_redir_def split: prod.splits)+

lemma reads_3:
  assumes "wf_tree t" "\<And>u. size u < size t \<Longrightarrow> wf_tree u \<Longrightarrow> reads 0 u"
    "(\<nexists>ws. t = TExec ws) \<Longrightarrow> (\<nexists>v f m d. t = TRedir v f m d) \<Longrightarrow> reads 0 t"
  shows "reads 3 t"
proof -
  obtain u rs where b: "base_redirs t = (u, rs)" by (cases "base_redirs t")
  note B = base_redirs [OF b assms(1)]
  have "parses buf es (parseexec n buf es p) ts t"
    if a: "cmdline buf es" "at_tok buf es p (pr 3 t @ ts)" "stops ''|)&;'' ts" "4 * (es - p) + 4 < n" for buf es p ts n
  proof (cases "\<exists>ws. u = TExec ws")
    case True
    then obtain ws where u: "u = TExec ws" by blast
    have "parses buf es (parseexec n buf es p) ts (wrap (TExec ws) rs)"
      by (rule exec_at [OF a(1)]) (use a B u in auto)
    then show ?thesis using B u by simp
  next
    case False
    then have r0: "reads 0 u" using assms(2) [of u] assms(3) B by auto
    have "pr 3 u = [''(''] @ pr 0 u @ ['')'']" using False B by (cases u) (auto simp: paren_def)
    then have "parses buf es (parseexec n buf es p) ts (wrap u rs)"
      using a B by (intro block_at [OF r0 a(1)]) auto
    then show ?thesis using B by simp
  qed
  then show ?thesis by (simp add: reads_def line_stop_def rank_def level_def)
qed

fun base_backs :: "tree \<Rightarrow> tree \<times> nat" where
  "base_backs (TBack t) = (let (u, k) = base_backs t in (u, Suc k))"
| "base_backs t = (t, 0)"

lemma base_backs:
  assumes "base_backs t = (u, k)"
  shows "(TBack ^^ k) u = t \<and> pr 1 t = pr 2 u @ replicate k ''&'' \<and> wf_tree u = wf_tree t \<and>
    (u = t \<or> size u < size t) \<and> (\<nexists>v. u = TBack v)"
  using assms
proof (induction t arbitrary: k)
  case (TBack t)
  obtain k' where k': "base_backs t = (u, k')" "k = Suc k'" using TBack.prems by (auto split: prod.splits)
  from TBack.IH [OF k'(1)] show ?case using k'(2) by (auto simp: paren_def replicate_append_same)
qed (auto simp: paren_def)

lemma backs_at:
  assumes "cmdline buf es" "at_tok buf es p (replicate k ''&'' @ ts)" "stops '');'' ts" "tree_of (sub_str buf) c = t" "es - p < n"
  shows "parses buf es (parse_backs n buf es c p) ts ((TBack ^^ k) t)"
  using assms(2-)
proof (induction k arbitrary: p c t n)
  case 0
  have "\<not> (ts \<noteq> [] \<and> hd (hd ts) = CHR ''&'')" using stops_hd [OF 0(2)] by auto
  then have "peek buf es p ''&'' = (False, p)" using peek_at [OF assms(1), of p ts "''&''"] 0(1) by auto
  then show ?case using 0 by (cases n) (simp_all add: parses_def)
next
  case (Suc k)
  have a0: "at_tok buf es p (''&'' # replicate k ''&'' @ ts)" using Suc.prems(1) by simp
  note a1 = at_tok_next(1) [OF assms(1) a0]
  obtain m where m: "n = Suc m" "es - (p + length ''&'' + 1) < m" using Suc.prems(4) a1 by (cases n) (auto simp: at_tok_def)
  have "parses buf es (parse_backs m buf es (Back c) (p + length ''&'' + 1)) ts ((TBack ^^ k) (TBack t))"
    by (rule Suc.IH [OF a1 Suc.prems(2) _ m(2)]) (use Suc.prems(3) in simp)
  then show ?case
    using peek_at [OF assms(1) a0, of "''&''"] gettoken_at [OF assms(1) a0] m(1) by (simp add: backcmd_def funpow_swap1)
qed

lemma reads_1:
  assumes "wf_tree t" "(\<nexists>v. t = TBack v) \<Longrightarrow> reads 2 t" "\<And>u. size u < size t \<Longrightarrow> wf_tree u \<Longrightarrow> reads 2 u"
  shows "reads 1 t"
proof -
  obtain u k where b: "base_backs t = (u, k)" by (cases "base_backs t")
  note B = base_backs [OF b]
  have r2: "reads 2 u" using assms(2) assms(3) [of u] B assms(1) by auto
  have "parses buf es (bindr (parsepipe n buf es p) (\<lambda>(c, ps). parse_backs n buf es c ps)) ts t"
    if a: "cmdline buf es" "at_tok buf es p (pr 1 t @ ts)" "stops '');'' ts" "4 * (es - p) + 5 < n" for buf es p ts n
  proof -
    have a2: "at_tok buf es p (pr 2 u @ replicate k ''&'' @ ts)" using a(2) B by simp
    have "stops '')&;'' (replicate k ''&'' @ ts)" using stops_mono [OF a(3)] by (cases k) auto
    then have "parses buf es (parsepipe n buf es p) (replicate k ''&'' @ ts) u"
      using r2 a(1,4) a2 unfolding reads_def by (auto simp: line_stop_def rank_def level_def)
    then obtain c p' where c: "parsepipe n buf es p = Ok (c, p')" "at_tok buf es p' (replicate k ''&'' @ ts)" "tree_of (sub_str buf) c = u"
      by (auto simp: parses_def)
    have "es - p' < n" using c(2) a2 a(4) by (auto simp: at_tok_def)
    from backs_at [OF a(1) c(2) a(3) c(3) this] show ?thesis using c(1) B by simp
  qed
  then show ?thesis by (simp add: reads_def line_stop_def rank_def level_def)
qed

text \<open>The separators \<^verbatim>\<open>|\<close> and \<^verbatim>\<open>;\<close>: what follows the first operand.\<close>

lemma sep_at:
  assumes "cmdline buf es" "at_tok buf es p (us @ ts)" "us = [] \<or> (\<exists>vs. us = [sy] # vs \<and> sy_tok [sy])" "us = [] \<Longrightarrow> stops cs ts" "sy \<notin> set cs"
    and rest: "\<And>vs p'. us = [sy] # vs \<Longrightarrow> at_tok buf es p' (vs @ ts) \<Longrightarrow> p < p' \<Longrightarrow> parses buf es (f p') ts u"
    and k: "us \<noteq> [] \<Longrightarrow> (\<And>c'. tree_of (sub_str buf) c' = u \<Longrightarrow> tree_of (sub_str buf) (k c') = t)"
    "us = [] \<Longrightarrow> tree_of (sub_str buf) c = t"
  shows "parses buf es (let (b, p) = peek buf es p [sy] in
     if b then let (_, _, _, p) = gettoken buf es p in bindr (f p) (\<lambda>(c', p). Ok (k c', p)) else Ok (c, p)) ts t"
proof (cases "us = []")
  case True
  then have "\<not> (ts \<noteq> [] \<and> hd (hd ts) = sy)" using stops_hd [of cs ts] assms(4,5) by auto
  then have "peek buf es p [sy] = (False, p)" using peek_at [OF assms(1), of p ts "[sy]"] assms(2) True by auto
  then show ?thesis using k(2) assms(2) True by (simp add: parses_def)
next
  case False
  then obtain vs where us: "us = [sy] # vs" using assms(3) by blast
  then have a0: "at_tok buf es p ([sy] # vs @ ts)" using assms(2) by simp
  note a1 = at_tok_next(1) [OF assms(1) a0]
  have "parses buf es (f (p + length [sy] + 1)) ts u" by (rule rest [OF us a1]) simp
  then obtain c' p' where c': "f (p + length [sy] + 1) = Ok (c', p')" "at_tok buf es p' ts" "tree_of (sub_str buf) c' = u"
    by (auto simp: parses_def)
  then show ?thesis
    using peek_at [OF assms(1) a0, of "[sy]"] gettoken_at [OF assms(1) a0] k(1) [OF False] by (simp add: parses_def)
qed

definition head_tail :: "bool \<Rightarrow> tree \<Rightarrow> tree \<times> string list \<times> tree" where
  "head_tail b t = (case t of TPipe l r \<Rightarrow> if b then (l, ''|'' # pr 2 r, r) else (t, [], t)
     | TList l r \<Rightarrow> if b then (t, [], t) else (l, '';'' # pr 0 r, r) | _ \<Rightarrow> (t, [], t))"

lemma reads_2:
  assumes "\<And>l r. t = TPipe l r \<Longrightarrow> reads 3 l \<and> reads 2 r" "(\<nexists>l r. t = TPipe l r) \<Longrightarrow> reads 3 t"
  shows "reads 2 t"
proof -
  obtain h us u where h: "head_tail True t = (h, us, u)" by (cases "head_tail True t")
  have H: "pr 2 t = pr 3 h @ us" "reads 3 h" "us = [] \<and> h = t \<or> us = ''|'' # pr 2 u \<and> reads 2 u \<and> t = TPipe h u"
    using h assms by (cases t; auto simp: head_tail_def paren_def)+
  have "parses buf es (parsepipe n buf es p) ts t"
    if a: "cmdline buf es" "at_tok buf es p (pr 2 t @ ts)" "stops '')&;'' ts" "4 * (es - p) + 5 < n" for buf es p ts n
  proof -
    obtain m where m: "n = Suc m" "4 * (es - p) + 4 < m" using a(4) by (cases n) auto
    have a3: "at_tok buf es p (pr 3 h @ us @ ts)" using a(2) H(1) by simp
    have "stops ''|)&;'' (us @ ts)" using H(3) stops_mono [OF a(3)] by auto
    then have "parses buf es (parseexec m buf es p) (us @ ts) h"
      using H(2) a(1) a3 m(2) unfolding reads_def by (auto simp: line_stop_def rank_def level_def)
    then obtain c p1 where c: "parseexec m buf es p = Ok (c, p1)" "at_tok buf es p1 (us @ ts)" "tree_of (sub_str buf) c = h"
      by (auto simp: parses_def)
    have le: "p \<le> p1" using c(2) a3 by (auto simp: at_tok_def)
    have "parses buf es (let (b, p) = peek buf es p1 ''|'' in
       if b then let (_, _, _, p) = gettoken buf es p in bindr (parsepipe m buf es p) (\<lambda>(c', p). Ok (pipecmd c c', p)) else Ok (c, p)) ts t"
    proof (rule sep_at [OF a(1) c(2), where cs = "'')&;''" and u = u])
      fix vs p'
      assume v: "us = ''|'' # vs" "at_tok buf es p' (vs @ ts)" "p1 < p'"
      then have "4 * (es - p') + 5 < m" using m(2) le by (auto simp: at_tok_def)
      then show "parses buf es (parsepipe m buf es p') ts u"
        using H(3) v a(1,3) unfolding reads_def by (auto simp: line_stop_def rank_def level_def)
    qed (use H(3) a(3) c(3) in \<open>auto simp: sy_tok_def pipecmd_def\<close>)
    then show ?thesis using c(1) m(1) by simp
  qed
  then show ?thesis by (simp add: reads_def line_stop_def rank_def level_def)
qed

lemma reads_0:
  assumes "\<And>l r. t = TList l r \<Longrightarrow> reads 1 l \<and> reads 0 r" "(\<nexists>l r. t = TList l r) \<Longrightarrow> reads 1 t"
  shows "reads 0 t"
proof -
  obtain h us u where h: "head_tail False t = (h, us, u)" by (cases "head_tail False t")
  have H: "pr 0 t = pr 1 h @ us" "reads 1 h" "us = [] \<and> h = t \<or> us = '';'' # pr 0 u \<and> reads 0 u \<and> t = TList h u"
    using h assms by (cases t; auto simp: head_tail_def paren_def)+
  have "parses buf es (parseline n buf es p) ts t"
    if a: "cmdline buf es" "at_tok buf es p (pr 0 t @ ts)" "stops '')'' ts" "4 * (es - p) + 6 < n" for buf es p ts n
  proof -
    obtain m where m: "n = Suc m" "4 * (es - p) + 5 < m" using a(4) by (cases n) auto
    have a3: "at_tok buf es p (pr 1 h @ us @ ts)" using a(2) H(1) by simp
    have "stops '');'' (us @ ts)" using H(3) stops_mono [OF a(3)] by auto
    then have "parses buf es (bindr (parsepipe m buf es p) (\<lambda>(c, ps). parse_backs m buf es c ps)) (us @ ts) h"
      using H(2) a(1) a3 m(2) unfolding reads_def by (auto simp: line_stop_def rank_def level_def)
    then obtain c0 p0 c p1 where c: "parsepipe m buf es p = Ok (c0, p0)" "parse_backs m buf es c0 p0 = Ok (c, p1)"
      "at_tok buf es p1 (us @ ts)" "tree_of (sub_str buf) c = h"
      by (auto simp: parses_def res_simps)
    have le: "p \<le> p1" using c(3) a3 by (auto simp: at_tok_def)
    have "parses buf es (let (b, p) = peek buf es p1 '';'' in
       if b then let (_, _, _, p) = gettoken buf es p in bindr (parseline m buf es p) (\<lambda>(c', p). Ok (listcmd c c', p)) else Ok (c, p)) ts t"
    proof (rule sep_at [OF a(1) c(3), where cs = "'')''" and u = u])
      fix vs p'
      assume v: "us = '';'' # vs" "at_tok buf es p' (vs @ ts)" "p1 < p'"
      then have "4 * (es - p') + 6 < m" using m(2) le by (auto simp: at_tok_def)
      then show "parses buf es (parseline m buf es p') ts u"
        using H(3) v a(1,3) unfolding reads_def by (auto simp: line_stop_def rank_def level_def)
    qed (use H(3) a(3) c(4) in \<open>auto simp: sy_tok_def listcmd_def\<close>)
    then show ?thesis using c(1,2) m(1) by simp
  qed
  then show ?thesis by (simp add: reads_def line_stop_def rank_def level_def)
qed

lemma reads_all:
  assumes "wf_tree t"
  shows "reads 0 t \<and> reads 1 t \<and> reads 2 t \<and> reads 3 t"
  using assms
proof (induction t rule: measure_induct_rule [where f = size])
  case (less t)
  have sub: "reads k u" if "size u < size t" "wf_tree u" "k \<in> {0, 1, 2, 3}" for u k
    using less.IH [OF that(1,2)] that(3) by auto
  note r3 = reads_3 [OF less.prems sub] and r1 = reads_1 [OF less.prems _ sub]
  show ?case
  proof (cases t)
    case (TPipe l r)
    then have 2: "reads 2 t" using sub [of l 3] sub [of r 2] less.prems by (intro reads_2) auto
    have 1: "reads 1 t" by (rule r1) (use 2 in auto)
    have 0: "reads 0 t" by (rule reads_0) (use TPipe 1 in auto)
    have "reads 3 t" by (rule r3) (use 0 in auto)
    then show ?thesis using 0 1 2 by simp
  next
    case (TList l r)
    then have 0: "reads 0 t" using sub [of l 1] sub [of r 0] less.prems by (intro reads_0) auto
    have 3: "reads 3 t" by (rule r3) (use 0 in auto)
    have 2: "reads 2 t" by (rule reads_2) (use TList 3 in auto)
    have "reads 1 t" by (rule r1) (use 2 in auto)
    then show ?thesis using 0 2 3 by simp
  next
    case (TBack v)
    then have 1: "reads 1 t" by (intro r1) auto
    have 0: "reads 0 t" by (rule reads_0) (use TBack 1 in auto)
    have 3: "reads 3 t" by (rule r3) (use 0 in auto)
    have "reads 2 t" by (rule reads_2) (use TBack 3 in auto)
    then show ?thesis using 0 1 3 by simp
  next
    case (TExec ws)
    have 3: "reads 3 t" by (rule r3) (use TExec in auto)
    have 2: "reads 2 t" by (rule reads_2) (use TExec 3 in auto)
    have 1: "reads 1 t" by (rule r1) (use 2 in auto)
    have "reads 0 t" by (rule reads_0) (use TExec 1 in auto)
    then show ?thesis using 1 2 3 by simp
  next
    case (TRedir v f m d)
    have 3: "reads 3 t" by (rule r3) (use TRedir in auto)
    have 2: "reads 2 t" by (rule reads_2) (use TRedir 3 in auto)
    have 1: "reads 1 t" by (rule r1) (use 2 in auto)
    have "reads 0 t" by (rule reads_0) (use TRedir 1 in auto)
    then show ?thesis using 1 2 3 by simp
  qed
qed

lemma sy_NUL: "NUL \<notin> set ''|''" "NUL \<notin> set ''(''" "NUL \<notin> set '')''" "NUL \<notin> set '';''" "NUL \<notin> set ''&''"
  "NUL \<notin> set ''<''" "NUL \<notin> set ''>''"
  by simp_all

lemma sy_toks: "tok ''|''" "tok ''(''" "tok '')''" "tok '';''" "tok ''&''" "tok ''<''" "tok ''>''"
  by (simp_all add: tok_def sy_tok_def)

lemma word_tok: "is_word w \<Longrightarrow> tok w"
  by (simp add: tok_def)

lemma pr_toks: "wf_tree t \<Longrightarrow> \<forall>w \<in> set (pr k t). tok w"
  by (induction t arbitrary: k) (simp_all add: sy_toks word_tok paren_def ball_Un)

lemma tok_NUL: "tok w \<Longrightarrow> NUL \<notin> set w"
  by (metis insertE singletonD is_word_def tok_def sy_tok_def sy_NUL)

lemma spell_NUL: "\<forall>w \<in> set ts. tok w \<Longrightarrow> NUL \<notin> set (spell ts)"
  by (induction ts) (simp_all add: tok_NUL)

lemma cmdline_line: "NUL \<notin> set line \<Longrightarrow> cmdline (line @ [NUL]) (length line)"
  by (auto simp: cmdline_def nth_append in_set_conv_nth)

section \<open>Running commands\<close>

text \<open>
  \<^verbatim>\<open>runcmd\<close> as the system calls it makes: a script whose branches are the results of a call. The
  script of \<open>SFork\<close> has the child, the parent and the case that \<^verbatim>\<open>fork\<close> fails. The command comes with
  its strings, as \<open>tree_of\<close> reads them from the buffer.
\<close>

datatype script =
    SExit
  | SExec string "string list" script
  | SOpen string int script script
  | SClose nat script
  | SDup nat script
  | SPipe "nat \<Rightarrow> nat \<Rightarrow> script" script
  | SFork script script script
  | SWait script
  | SChdir string script script
  | SPrint nat string script

abbreviation (input) nl :: string where "nl \<equiv> [CHR 0x0A]"

definition sh_panic :: "string \<Rightarrow> script" where
  "sh_panic s = SPrint 2 (s @ nl) SExit"

definition fork1 :: "script \<Rightarrow> script \<Rightarrow> script" where
  "fork1 child parent = SFork child parent (sh_panic ''fork'')"

fun runcmd :: "tree \<Rightarrow> script" where
  "runcmd (TExec argv) =
     (if argv = [] then SExit
      else SExec (hd argv) argv (SPrint 2 (''exec '' @ hd argv @ '' failed'' @ nl) SExit))"
| "runcmd (TRedir c file mode fd) =
     SClose fd (SOpen file mode (runcmd c) (SPrint 2 (''open '' @ file @ '' failed'' @ nl) SExit))"
| "runcmd (TList left right) = fork1 (runcmd left) (SWait (runcmd right))"
| "runcmd (TPipe left right) =
     SPipe (\<lambda>p0 p1.
       fork1 (SClose 1 (SDup p1 (SClose p0 (SClose p1 (runcmd left)))))
      (fork1 (SClose 0 (SDup p0 (SClose p0 (SClose p1 (runcmd right)))))
        (SClose p0 (SClose p1 (SWait (SWait SExit))))))
     (sh_panic ''pipe'')"
| "runcmd (TBack c) = fork1 (runcmd c) SExit"

text \<open>One turn of the loop of \<^verbatim>\<open>main\<close> on the line that \<^verbatim>\<open>getcmd\<close> has read; \<open>rest\<close> is the next turn.\<close>

definition main_line :: "string \<Rightarrow> script \<Rightarrow> script" where
  "main_line buf rest =
     (if take 3 buf = ''cd '' then
        SChdir (drop 3 (butlast buf)) rest (SPrint 2 (''cannot cd '' @ drop 3 (butlast buf) @ nl) rest)
      else fork1
        (case parsecmd buf of
           Ok (c, b) \<Rightarrow> runcmd (tree_of (\<lambda>a. cstr b (fst a)) c)
         | Panic e \<Rightarrow> sh_panic e
         | Blocks \<Rightarrow> SExit)
        (SWait rest))"

fun main_loop :: "string list \<Rightarrow> script" where
  "main_loop [] = SExit"
| "main_loop (buf # lines) = (if buf = [] then SExit else main_line buf (main_loop lines))"

section \<open>Descriptors of the programs that are started\<close>

text \<open>
  A script is run on a table of open descriptors. Calls succeed and take the lowest free
  descriptor, as the kernel does; the \<open>k\<close>-th pipe has the ends \<open>PipeR k\<close> and \<open>PipeW k\<close>. The result
  is the list of programs executed, each with its arguments and its descriptor table.
\<close>

datatype endpoint = Console | File string int | PipeR nat | PipeW nat

type_synonym fdtab = "endpoint option list"

definition fd_alloc :: "endpoint \<Rightarrow> fdtab \<Rightarrow> (nat \<times> fdtab) option" where
  "fd_alloc x fds = (case first_idx (\<lambda>y. y = None) fds of None \<Rightarrow> None | Some i \<Rightarrow> Some (i, fds[i := Some x]))"

primrec run :: "script \<Rightarrow> fdtab \<Rightarrow> nat \<Rightarrow> (string list \<times> fdtab) list \<times> nat" where
  "run SExit fds k = ([], k)"
| "run (SExec path argv s) fds k = ([(argv, fds)], k)"
| "run (SOpen f m ok bad) fds k = (case fd_alloc (File f m) fds of Some (i, fds') \<Rightarrow> run ok fds' k | None \<Rightarrow> run bad fds k)"
| "run (SClose i s) fds k = run s (fds[i := None]) k"
| "run (SDup i s) fds k =
     (case fds ! i of None \<Rightarrow> run s fds k
      | Some x \<Rightarrow> (case fd_alloc x fds of Some (j, fds') \<Rightarrow> run s fds' k | None \<Rightarrow> run s fds k))"
| "run (SPipe f bad) fds k =
     (case fd_alloc (PipeR k) fds of None \<Rightarrow> run bad fds k
      | Some (i, fds1) \<Rightarrow> (case fd_alloc (PipeW k) fds1 of None \<Rightarrow> run bad fds k
      | Some (j, fds2) \<Rightarrow> run (f i j) fds2 (k + 1)))"
| "run (SFork child parent bad) fds k =
     (let (xs, k') = run child fds k; (ys, k'') = run parent fds k' in (xs @ ys, k''))"
| "run (SWait s) fds k = run s fds k"
| "run (SChdir d ok bad) fds k = run ok fds k"
| "run (SPrint fd m s) fds k = run s fds k"

text \<open>What a command means: each program with its standard input and output.\<close>

fun plumb :: "endpoint \<Rightarrow> endpoint \<Rightarrow> nat \<Rightarrow> tree \<Rightarrow> (string list \<times> endpoint \<times> endpoint) list \<times> nat" where
  "plumb i out k (TExec argv) = (if argv = [] then [] else [(argv, i, out)], k)"
| "plumb i out k (TRedir c f m d) = (if d = 0 then plumb (File f m) out k c else plumb i (File f m) k c)"
| "plumb i out k (TList l r) = (let (xs, k') = plumb i out k l; (ys, k'') = plumb i out k' r in (xs @ ys, k''))"
| "plumb i out k (TPipe l r) =
     (let (xs, k') = plumb i (PipeW k) (k + 1) l; (ys, k'') = plumb (PipeR k) out k' r in (xs @ ys, k''))"
| "plumb i out k (TBack c) = plumb i out k c"

definition std_fds :: "endpoint \<Rightarrow> endpoint \<Rightarrow> endpoint \<Rightarrow> nat \<Rightarrow> fdtab" where
  "std_fds i out err n = [Some i, Some out, Some err] @ replicate n None"

lemma first_idx_free [simp]:
  "first_idx (\<lambda>y. y = None) (Some x # fds) = map_option Suc (first_idx (\<lambda>y. y = None) fds)"
  "first_idx (\<lambda>y. y = None) (None # fds) = Some 0"
  by (simp_all split: option.split)

lemma run_runcmd:
  assumes "wf_tree t" "2 \<le> n"
  shows "run (runcmd t) (std_fds i out err n) k =
    (map (\<lambda>(argv, i, out). (argv, std_fds i out err n)) (fst (plumb i out k t)), snd (plumb i out k t))"
  using assms(1)
proof (induction t arbitrary: i out k)
  case (TRedir t f m d)
  then show ?case by (auto simp: std_fds_def fd_alloc_def)
next
  case (TPipe l r)
  obtain n' where n': "n = Suc (Suc n')" using assms(2) by (metis Suc_le_D numeral_2_eq_2 Suc_le_mono)
  have l: "[Some i, Some (PipeW k), Some err, None, None] @ replicate n' None = std_fds i (PipeW k) err n"
    "[Some (PipeR k), Some out, Some err, None, None] @ replicate n' None = std_fds (PipeR k) out err n"
    by (simp_all add: std_fds_def n')
  show ?case using TPipe l
    by (auto simp: std_fds_def n' fd_alloc_def fork1_def Let_def split: prod.splits)
qed (auto simp: fork1_def Let_def split: prod.splits)

text \<open>The first loop of \<^verbatim>\<open>main\<close>: open the console until the descriptor is at least 3.\<close>

function open_console :: "fdtab \<Rightarrow> fdtab" where
  "open_console fds =
     (case fd_alloc Console fds of None \<Rightarrow> fds
      | Some (fd, fds') \<Rightarrow> if fd \<ge> 3 then fds'[fd := None] else open_console fds')"
  by pat_completeness auto

lemma count_free_upd: "i < length fds \<Longrightarrow> fds ! i = None \<Longrightarrow>
    length (filter (\<lambda>y. y = None) (fds[i := Some x])) < length (filter (\<lambda>y. y = None) fds)"
proof (induction fds arbitrary: i)
  case (Cons y fds)
  then show ?case by (cases i) auto
qed simp

termination open_console
  by (relation "measure (\<lambda>fds. length (filter (\<lambda>y. y = None) fds))")
    (auto simp: fd_alloc_def first_idx_Some count_free_upd split: option.splits)

declare open_console.simps [simp del]

lemma open_console_std:
  assumes "3 < length fds"
  shows "length (open_console fds) = length fds \<and> (\<forall>i<3. open_console fds ! i \<noteq> None) \<and>
    (\<forall>i < length fds. fds ! i \<noteq> None \<or> 3 \<le> i \<longrightarrow> open_console fds ! i = fds ! i)"
  using assms
proof (induction fds rule: open_console.induct)
  case (1 fds)
  show ?case
  proof (cases "fd_alloc Console fds")
    case None
    then have "\<forall>x \<in> set fds. x \<noteq> None" by (auto simp: fd_alloc_def first_idx_None split: option.splits)
    then show ?thesis using None 1(2) by (auto simp: open_console.simps [of fds])
  next
    case (Some r)
    then obtain fd where fd: "r = (fd, fds[fd := Some Console])" "fd < length fds" "fds ! fd = None" "\<forall>j<fd. fds ! j \<noteq> None"
      by (auto simp: fd_alloc_def first_idx_Some split: option.splits)
    show ?thesis
    proof (cases "3 \<le> fd")
      case True
      then have "open_console fds = fds" using Some fd by (simp add: open_console.simps [of fds] list_update_same_conv)
      then show ?thesis using True fd(4) by simp
    next
      case False
      have e: "open_console fds = open_console (fds[fd := Some Console])" using Some fd False by (simp add: open_console.simps [of fds])
      have "length (open_console (fds[fd := Some Console])) = length (fds[fd := Some Console]) \<and>
          (\<forall>i<3. open_console (fds[fd := Some Console]) ! i \<noteq> None) \<and>
          (\<forall>i < length (fds[fd := Some Console]). (fds[fd := Some Console]) ! i \<noteq> None \<or> 3 \<le> i \<longrightarrow>
            open_console (fds[fd := Some Console]) ! i = (fds[fd := Some Console]) ! i)"
        by (rule 1(1) [OF Some]) (use fd False 1(2) in auto)
      then show ?thesis unfolding e using fd False by (auto simp: nth_list_update split: if_splits)
    qed
  qed
qed

lemma parsecmd_print:
  assumes "wf_tree t"
  shows "\<exists>c buf. parsecmd (print_tree t) = Ok (c, buf) \<and> tree_of (\<lambda>a. cstr buf (fst a)) c = t"
proof -
  let ?line = "print_tree t"
  let ?es = "length ?line" and ?buf = "?line @ [NUL]"
  have cl: "cmdline ?buf ?es" unfolding print_tree_def by (rule cmdline_line [OF spell_NUL [OF pr_toks [OF assms]]])
  have "at_tok ?buf ?es 0 (pr 0 t @ [])" using pr_toks [OF assms, of 0] by (simp add: at_tok_def print_tree_def)
  then have "parses ?buf ?es (parseline (parse_fuel ?es) ?buf ?es 0) [] t"
    using reads_all [OF assms] cl unfolding reads_def by (auto simp: rank_def level_def parse_fuel_def)
  then obtain c p where c: "parseline (parse_fuel ?es) ?buf ?es 0 = Ok (c, p)" "at_tok ?buf ?es p []" "tree_of (sub_str ?buf) c = t"
    by (auto simp: parses_def)
  have ok: "parsed ?buf ?es 0 (c, p)"
    using parse_total(1) [OF cl, of 0 "parse_fuel ?es"] c(1) by (simp add: parse_fuel_def)
  have cs: "cstr (nulterminate c ?buf) (fst a) = sub_str ?buf a" if "a \<in> set (spans c)" for a
    using cstr_nulterminate [OF cl _ that] ok by (simp add: parsed_def)
  have "tree_of (\<lambda>a. cstr (nulterminate c ?buf) (fst a)) c = tree_of (sub_str ?buf) c"
    by (rule tree_of_cong) (rule cs)
  moreover have "parsecmd ?line = Ok (c, nulterminate c ?buf)"
    using c(1) peek_at [OF cl c(2), of "[]"] at_tok_first(2) [OF cl c(2)] by (simp add: parsecmd_def)
  ultimately show ?thesis using c(3) by auto
qed

section \<open>Properties\<close>

text \<open>
  C3: the parser always returns. On every command line, \<^verbatim>\<open>parsecmd\<close> ends after finitely many steps:
  it reports one of its syntax errors, or returns a command in which no \<^verbatim>\<open>argv\<close> overflows its
  \<^verbatim>\<open>MAXARGS\<close> entries and every string is a C string that spells a word of the line.
\<close>

theorem parsecmd_total:
  assumes "NUL \<notin> set line"
  shows "outcome parse_errors (parsecmd line) (\<lambda>(c, buf). argvs_fit c \<and> length buf = length line + 1 \<and>
    (\<forall>a \<in> set (spans c). cstr buf (fst a) = sub_str line a \<and> is_word (cstr buf (fst a))))"
proof -
  let ?es = "length line" and ?buf = "line @ [NUL]"
  note cl = cmdline_line [OF assms]
  have w: "sub_str ?buf a = sub_str line a \<and> is_word (sub_str line a)" if "word_at ?buf ?es a" for a
  proof -
    have e: "sub_str ?buf a = sub_str line a" using that by (simp add: word_at_def sub_str_def)
    have "c \<notin> set whitespace \<and> c \<notin> set symbols \<and> c \<noteq> NUL" if c: "c \<in> set (sub_str line a)" for c
    proof -
      obtain i where i: "i < snd a - fst a" "line ! (fst a + i) = c" "fst a + i < ?es"
        using c \<open>word_at ?buf ?es a\<close> by (auto simp: sub_str_def in_set_conv_nth word_at_def)
      then have "?buf ! (fst a + i) = c" by (simp add: nth_append)
      moreover have "fst a \<le> fst a + i \<and> fst a + i < snd a" using i(1) by simp
      ultimately have "c \<notin> set whitespace \<and> c \<notin> set symbols" using \<open>word_at ?buf ?es a\<close> unfolding word_at_def by blast
      then show ?thesis using i assms by (metis nth_mem)
    qed
    moreover have "sub_str line a \<noteq> []" using that by (auto simp: word_at_def sub_str_def)
    ultimately show ?thesis using e by (simp add: is_word_def)
  qed
  have "outcome parse_errors (parseline (parse_fuel ?es) ?buf ?es 0) (parsed ?buf ?es 0)"
    by (rule parse_total(1) [OF cl]) (simp_all add: parse_fuel_def)
  then show ?thesis unfolding parsecmd_def Let_def outcome_bindr
  proof (rule outcome_post, clarify)
    fix c p
    assume r: "parsed ?buf ?es 0 (c, p)"
    obtain b p' where pk: "peek ?buf ?es p [] = (b, p')" by (cases "peek ?buf ?es p []")
    have "cstr (nulterminate c ?buf) (fst a) = sub_str ?buf a" if "a \<in> set (spans c)" for a
      using cstr_nulterminate [OF cl _ that] r by (simp add: parsed_def)
    then show "outcome parse_errors (case peek ?buf ?es p [] of (_, ps) \<Rightarrow> if ps \<noteq> ?es then Panic ''syntax'' else Ok (c, nulterminate c ?buf))
        (\<lambda>(c, buf). argvs_fit c \<and> length buf = length line + 1 \<and>
          (\<forall>a \<in> set (spans c). cstr buf (fst a) = sub_str line a \<and> is_word (cstr buf (fst a))))"
      using r pk w by (auto simp: parse_errors_def parsed_def nulterminate_nth)
  qed
qed

theorem parsecmd_total_witness:
  "\<exists>c buf. parsecmd ''ls'' = Ok (c, buf) \<and> argvs_fit c"
proof -
  have "outcome parse_errors (parsecmd ''ls'') (\<lambda>(c, buf). argvs_fit c \<and> length buf = length ''ls'' + 1 \<and>
    (\<forall>a \<in> set (spans c). cstr buf (fst a) = sub_str ''ls'' a \<and> is_word (cstr buf (fst a))))"
    by (rule parsecmd_total) simp
  moreover have "parsecmd ''ls'' = Ok (Exec [(0, 2)], ''ls'' @ [NUL])" by code_simp
  ultimately show ?thesis by simp
qed

text \<open>
  C2: parsing reads back what was printed. For every command tree, with simple commands of fewer
  than \<^verbatim>\<open>MAXARGS\<close> words, redirections, pipes, lists, background commands and blocks nested in any way,
  \<^verbatim>\<open>parsecmd\<close> of its text returns a command whose C strings and structure are exactly the tree.
\<close>

theorem parse_print:
  assumes "wf_tree t"
  shows "\<exists>c buf. parsecmd (print_tree t) = Ok (c, buf) \<and> tree_of (\<lambda>a. cstr buf (fst a)) c = t"
  using assms by (rule parsecmd_print)

theorem parse_print_witness:
  "\<exists>c buf. parsecmd ''( ls -l ; wc < f ) | cat & '' = Ok (c, buf) \<and>
    tree_of (\<lambda>a. cstr buf (fst a)) c =
      TBack (TPipe (TList (TExec [''ls'', ''-l'']) (TRedir (TExec [''wc'']) ''f'' O_RDONLY 0)) (TExec [''cat'']))"
proof -
  let ?t = "TBack (TPipe (TList (TExec [''ls'', ''-l'']) (TRedir (TExec [''wc'']) ''f'' O_RDONLY 0)) (TExec [''cat'']))"
  have "wf_tree ?t" by (simp add: MAXARGS_def is_word_def whitespace_def symbols_def)
  moreover have "print_tree ?t = ''( ls -l ; wc < f ) | cat & ''" by (simp add: print_tree_def paren_def)
  ultimately show ?thesis using parse_print [of ?t] by simp
qed





end
