(* ===== verification/Spec2Isabelle.thy ===== *)
theory Spec2Isabelle
  imports Xv6_Syscall Xv6_Sh
begin

text \<open>
  A verification development for the xv6 kernel and its user programs.
\<close>

end
